(* ===== verification/Prelude.thy ===== *)
theory Prelude
  imports Main "HOL-Library.Word"
begin

text \<open>
  What the component theories share: the result type of fallible code, the
  state-and-error type of code that also reads and writes the program's global state,
  checked vector accesses, and little-endian limb vectors with their values.
\<close>

section \<open>Fallible code\<close>

text \<open>
  \<open>RuntimeError\<close> is the \<open>std::runtime_error\<close> that \<open>ERROR_CHECK\<close> throws,
  \<open>OutOfRange\<close> the \<open>std::out_of_range\<close> of \<open>std::map::at\<close> and \<open>std::stoi\<close>, \<open>InvalidArgument\<close>
  the \<open>std::invalid_argument\<close> of \<open>std::stoi\<close>, \<open>Undefined\<close> an access the
  language leaves undefined (an index past a vector, a write past a buffer),
  \<open>ProcessExit\<close> a call of \<open>exit\<close>, and \<open>OutOfFuel\<close> a sampling loop that did not stop
  within its fuel.
\<close>

datatype error =
    RuntimeError string
  | OutOfRange
  | InvalidArgument
  | Undefined string
  | ProcessExit int
  | OutOfFuel

type_synonym 'a result = "error + 'a"

type_synonym ('w, 'a) prog = "'w \<Rightarrow> 'a result \<times> 'w"

type_synonym u8 = "8 word"
type_synonym u32 = "32 word"

named_theorems run "execution rules of the error and state combinators"

definition bindR :: "'a result \<Rightarrow> ('a \<Rightarrow> 'b result) \<Rightarrow> 'b result" where
  "bindR m f = (case m of Inl e \<Rightarrow> Inl e | Inr x \<Rightarrow> f x)"

definition errorCheck :: "bool \<Rightarrow> string \<Rightarrow> unit result" where
  "errorCheck b msg = (if b then Inr () else Inl (RuntimeError msg))"

definition vec_at :: "'a list \<Rightarrow> nat \<Rightarrow> 'a result" where
  "vec_at xs i = (if i < length xs then Inr (xs ! i) else Inl (Undefined ''vector index''))"

text \<open>\<open>std::vector(first + off, first + off + n)\<close>.\<close>

definition slice :: "'a list \<Rightarrow> nat \<Rightarrow> nat \<Rightarrow> 'a list result" where
  "slice xs off n =
     (if off + n \<le> length xs then Inr (take n (drop off xs))
      else Inl (Undefined ''vector range''))"

text \<open>A loop that fills a vector, stopping at the first exception.\<close>

fun mapR :: "('a \<Rightarrow> 'b result) \<Rightarrow> 'a list \<Rightarrow> 'b list result" where
  "mapR f [] = Inr []"
| "mapR f (x # xs) = bindR (f x) (\<lambda>y. bindR (mapR f xs) (\<lambda>ys. Inr (y # ys)))"

text \<open>A loop that fills a vector chunk by chunk.\<close>

definition mapR_concat :: "('a \<Rightarrow> 'b list result) \<Rightarrow> 'a list \<Rightarrow> 'b list result" where
  "mapR_concat f xs = bindR (mapR f xs) (\<lambda>yss. Inr (concat yss))"

definition bindP :: "('w, 'a) prog \<Rightarrow> ('a \<Rightarrow> ('w, 'b) prog) \<Rightarrow> ('w, 'b) prog" where
  "bindP m f w = (case m w of (Inl e, w') \<Rightarrow> (Inl e, w') | (Inr x, w') \<Rightarrow> f x w')"

definition retP :: "'a \<Rightarrow> ('w, 'a) prog" where
  "retP x w = (Inr x, w)"

definition liftR :: "'a result \<Rightarrow> ('w, 'a) prog" where
  "liftR r w = (r, w)"

definition getsP :: "('w \<Rightarrow> 'a) \<Rightarrow> ('w, 'a) prog" where
  "getsP f w = (Inr (f w), w)"

definition modifyP :: "('w \<Rightarrow> 'w) \<Rightarrow> ('w, unit) prog" where
  "modifyP f w = (Inr (), f w)"

fun mapP :: "('a \<Rightarrow> ('w, 'b) prog) \<Rightarrow> 'a list \<Rightarrow> ('w, 'b list) prog" where
  "mapP f [] w = (Inr [], w)"
| "mapP f (x # xs) w = bindP (f x) (\<lambda>y. bindP (mapP f xs) (\<lambda>ys. retP (y # ys))) w"

lemma bindR_Inr [simp, run]: "bindR (Inr x) f = f x"
  and bindR_Inl [simp, run]: "bindR (Inl e) f = Inl e"
  by (simp_all add: bindR_def)

lemma bindR_Inr_iff: "bindR m f = Inr y \<longleftrightarrow> (\<exists>x. m = Inr x \<and> f x = Inr y)"
  by (cases m) simp_all

lemma errorCheck_simps [simp, run]:
  "errorCheck True msg = Inr ()" "errorCheck False msg = Inl (RuntimeError msg)"
  by (simp_all add: errorCheck_def)

lemma errorCheck_Inr: "errorCheck b msg = Inr u \<longleftrightarrow> b"
  by (simp add: errorCheck_def)

lemma vec_at_ok [simp, run]: "i < length xs \<Longrightarrow> vec_at xs i = Inr (xs ! i)"
  by (simp add: vec_at_def)

lemma slice_ok [simp, run]: "off + n \<le> length xs \<Longrightarrow> slice xs off n = Inr (take n (drop off xs))"
  by (simp add: slice_def)

lemma retP_run [simp, run]: "retP x w = (Inr x, w)"
  by (simp add: retP_def)

lemma liftR_run [simp, run]: "liftR r w = (r, w)"
  by (simp add: liftR_def)

lemma getsP_run [simp, run]: "getsP f w = (Inr (f w), w)"
  by (simp add: getsP_def)

lemma modifyP_run [simp, run]: "modifyP f w = (Inr (), f w)"
  by (simp add: modifyP_def)

lemma bindP_ok: "m w = (Inr x, w') \<Longrightarrow> bindP m f w = f x w'"
  by (simp add: bindP_def)

lemma bindP_err: "m w = (Inl e, w') \<Longrightarrow> bindP m f w = (Inl e, w')"
  by (simp add: bindP_def)

lemma bindP_retP [simp, run]: "bindP (retP x) f w = f x w"
  by (simp add: bindP_def)

lemma bindP_liftR [simp, run]: "bindP (liftR (Inr x)) f w = f x w"
  by (simp add: bindP_def)

lemma bindP_liftR_Inl [simp, run]: "bindP (liftR (Inl e)) f w = (Inl e, w)"
  by (simp add: bindP_def)

lemma bindP_getsP [simp, run]: "bindP (getsP g) f w = f (g w) w"
  by (simp add: bindP_def)

lemma bindP_modifyP [simp, run]: "bindP (modifyP h) f w = f () (h w)"
  by (simp add: bindP_def)

text \<open>The text of an integer, as \<open>std::to_string\<close> gives it.\<close>

fun digits :: "nat \<Rightarrow> string" where
  "digits n = (if n < 10 then [char_of (48 + n)] else digits (n div 10) @ [char_of (48 + n mod 10)])"

declare digits.simps [simp del]

definition to_string :: "int \<Rightarrow> string" where
  "to_string i = (if i < 0 then CHR ''-'' # digits (nat (- i)) else digits (nat i))"

lemma bindP_InrE:
  assumes "bindP m f w = (Inr y, w'')"
  obtains x w' where "m w = (Inr x, w')" "f x w' = (Inr y, w'')"
  using assms by (auto simp: bindP_def split: prod.splits sum.splits)

lemma mapR_ok: "(\<And>x. x \<in> set xs \<Longrightarrow> f x = Inr (g x)) \<Longrightarrow> mapR f xs = Inr (map g xs)"
  by (induction xs) auto

lemma mapR_InrD: "mapR f xs = Inr ys \<Longrightarrow> length ys = length xs \<and> (\<forall>i < length xs. f (xs ! i) = Inr (ys ! i))"
proof (induction xs arbitrary: ys)
  case Nil
  then show ?case by simp
next
  case (Cons x xs)
  then obtain z zs where "f x = Inr z" "mapR f xs = Inr zs" "ys = z # zs"
    by (auto simp: bindR_Inr_iff)
  with Cons.IH [of zs] show ?case by (auto simp: less_Suc_eq_0_disj)
qed

lemma mapR_err: "mapR f (xs @ x # ys) = Inl e"
  if "\<And>z. z \<in> set xs \<Longrightarrow> \<exists>v. f z = Inr v" and "f x = Inl e"
  using that by (induction xs) fastforce+

section \<open>Limb vectors\<close>

text \<open>The value of a little-endian vector of 32-bit words, as \<open>Ipp32u*\<close> data are read.\<close>

fun words_val :: "u32 list \<Rightarrow> nat" where
  "words_val [] = 0"
| "words_val (w # ws) = unat w + 2 ^ 32 * words_val ws"

lemma unat_u32_lt [simp]: "unat (w :: u32) < 4294967296"
proof -
  have "unat w < 2 ^ LENGTH(32)"
    by (rule unsigned_less)
  then show ?thesis by simp
qed

lemma words_val_bound: "words_val ws < 2 ^ (32 * length ws)"
proof (induction ws)
  case Nil
  then show ?case by simp
next
  case (Cons w ws)
  have "words_val (w # ws) < 2 ^ 32 + 2 ^ 32 * words_val ws"
    by simp
  also have "\<dots> = 2 ^ 32 * (words_val ws + 1)"
    by (simp add: algebra_simps)
  also have "\<dots> \<le> 2 ^ 32 * 2 ^ (32 * length ws)"
    by (rule mult_le_mono2) (use Cons in simp)
  finally show ?case by (simp only: length_Cons mult_Suc_right power_add)
qed

lemma words_val_append: "words_val (xs @ ys) = words_val xs + 2 ^ (32 * length xs) * words_val ys"
  by (induction xs) (simp_all add: algebra_simps power_add)

lemma words_val_replicate_0 [simp]: "words_val (replicate n 0) = 0"
  by (induction n) simp_all

lemma words_val_zeros: "(\<forall>w \<in> set ws. w = 0) \<Longrightarrow> words_val ws = 0"
  by (induction ws) simp_all

lemma words_val_zero_iff: "words_val ws = 0 \<longleftrightarrow> (\<forall>w \<in> set ws. w = 0)"
  by (induction ws) (auto simp: unat_eq_zero)

lemma words_val_take_drop:
  "words_val ws = words_val (take k ws) + 2 ^ (32 * min k (length ws)) * words_val (drop k ws)"
  by (metis append_take_drop_id length_take min.commute words_val_append)

text \<open>The limbs of a natural number, \<open>k\<close> of them.\<close>

fun limbs :: "nat \<Rightarrow> nat \<Rightarrow> u32 list" where
  "limbs 0 x = []"
| "limbs (Suc k) x = word_of_nat x # limbs k (x div 2 ^ 32)"

lemma length_limbs [simp]: "length (limbs k x) = k"
  by (induction k arbitrary: x) simp_all

lemma words_val_limbs_mod: "words_val (limbs k x) = x mod 2 ^ (32 * k)"
proof (induction k arbitrary: x)
  case 0
  then show ?case by simp
next
  case (Suc k)
  have "x mod 2 ^ (32 * Suc k) = x mod (2 ^ 32 * 2 ^ (32 * k))"
    by (simp add: power_add)
  also have "\<dots> = 2 ^ 32 * (x div 2 ^ 32 mod 2 ^ (32 * k)) + x mod 2 ^ 32"
    by (rule mod_mult2_eq)
  finally show ?case by (simp add: Suc unat_of_nat)
qed

lemma words_val_limbs: "x < 2 ^ (32 * k) \<Longrightarrow> words_val (limbs k x) = x"
  by (simp add: words_val_limbs_mod)

lemma take_limbs: "take j (limbs k x) = limbs (min j k) x"
proof (induction k arbitrary: j x)
  case 0
  then show ?case by simp
next
  case (Suc k)
  then show ?case by (cases j) simp_all
qed

section \<open>Sizes in words\<close>

text \<open>\<open>BITSIZE_WORD\<close> and \<open>BITSIZE_DWORD\<close> of \<open>bignum.h\<close>: the 32-bit and 64-bit words a bit
  count needs. The shift of a C \<open>int\<close> is \<open>drop_bit\<close> on \<open>int\<close>.\<close>

definition BITSIZE_WORD :: "int \<Rightarrow> int" where
  "BITSIZE_WORD n = drop_bit 5 (n + 31)"

definition BITSIZE_DWORD :: "int \<Rightarrow> int" where
  "BITSIZE_DWORD n = drop_bit 6 (n + 63)"

lemma BITSIZE_WORD_div: "BITSIZE_WORD n = (n + 31) div 32"
  by (simp add: BITSIZE_WORD_def drop_bit_eq_div)

lemma BITSIZE_DWORD_div: "BITSIZE_DWORD n = (n + 63) div 64"
  by (simp add: BITSIZE_DWORD_def drop_bit_eq_div)

lemma BITSIZE_WORD_ge: "n \<le> 32 * BITSIZE_WORD n"
  unfolding BITSIZE_WORD_div by linarith

lemma BITSIZE_WORD_lt: "32 * BITSIZE_WORD n < n + 32"
  unfolding BITSIZE_WORD_div by linarith

lemma BITSIZE_WORD_mono: "m \<le> n \<Longrightarrow> BITSIZE_WORD m \<le> BITSIZE_WORD n"
  unfolding BITSIZE_WORD_div by (simp add: zdiv_mono1)

lemma BITSIZE_DWORD_mono: "m \<le> n \<Longrightarrow> BITSIZE_DWORD m \<le> BITSIZE_DWORD n"
  unfolding BITSIZE_DWORD_div by (simp add: zdiv_mono1)

lemma BITSIZE_WORD_pos: "1 \<le> n \<Longrightarrow> 1 \<le> BITSIZE_WORD n"
  unfolding BITSIZE_WORD_div by linarith

lemma BITSIZE_WORD_le_DWORD: "BITSIZE_WORD n \<le> 2 * BITSIZE_DWORD n"
  unfolding BITSIZE_WORD_div BITSIZE_DWORD_div by linarith

section \<open>Bit lengths\<close>

fun nat_bits :: "nat \<Rightarrow> nat" where
  "nat_bits n = (if n = 0 then 0 else Suc (nat_bits (n div 2)))"

declare nat_bits.simps [simp del]

lemma nat_bits_0 [simp]: "nat_bits 0 = 0"
  by (simp add: nat_bits.simps)

lemma nat_bits_pos [simp]: "0 < n \<Longrightarrow> 0 < nat_bits n"
  by (simp add: nat_bits.simps [of n])

lemma nat_bits_upper: "n < 2 ^ nat_bits n"
proof (induction n rule: nat_bits.induct)
  case (1 n)
  show ?case
  proof (cases "n = 0")
    case False
    with 1 have "n div 2 < 2 ^ nat_bits (n div 2)" by simp
    with False show ?thesis by (simp add: nat_bits.simps [of n])
  qed simp
qed

lemma nat_bits_lower: "0 < n \<Longrightarrow> 2 ^ (nat_bits n - 1) \<le> n"
proof (induction n rule: nat_bits.induct)
  case (1 n)
  show ?case
  proof (cases "n div 2 = 0")
    case True
    with 1 have "n = 1" by simp
    then show ?thesis by (simp add: nat_bits.simps)
  next
    case False
    with 1 have "2 ^ (nat_bits (n div 2) - 1) \<le> n div 2" by simp
    moreover obtain k where "nat_bits (n div 2) = Suc k"
      using False nat_bits_pos [of "n div 2"] by (cases "nat_bits (n div 2)") auto
    ultimately show ?thesis using 1 by (simp add: nat_bits.simps [of n])
  qed
qed

text \<open>A bit length is determined by its two bounds.\<close>

lemma bit_length_unique:
  fixes x :: nat
  assumes "2 ^ a \<le> x" "x < 2 ^ Suc a" "2 ^ b \<le> x" "x < 2 ^ Suc b"
  shows "a = b"
proof -
  have "(2::nat) ^ a < 2 ^ Suc b" "(2::nat) ^ b < 2 ^ Suc a"
    using assms by (meson order_le_less_trans)+
  then have "a < Suc b" "b < Suc a"
    by (simp_all only: power_strict_increasing_iff one_less_numeral_iff semiring_norm)
  then show ?thesis by simp
qed

section \<open>Bits of words\<close>

unbundle bit_operations_syntax

lemma unat_bit: "bit (x :: u32) n \<longleftrightarrow> n < 32 \<and> odd (unat x div 2 ^ n)"
proof -
  have "bit x n \<longleftrightarrow> bit (unat x) n"
    by (simp add: bit_unsigned_iff)
  then show ?thesis using bit_imp_le_length [of x n] by (auto simp: bit_iff_odd)
qed

lemma unat_and_1: "x AND 1 = 0 \<longleftrightarrow> even (unat (x::u32))"
proof -
  have "x AND 1 = 0 \<longleftrightarrow> \<not> bit x 0" using and_exp_eq_0_iff_not_bit [of x 0] by simp
  then show ?thesis by (simp add: unat_bit)
qed

lemma unat_drop_bit: "unat (drop_bit k (x::u32)) = unat x div 2 ^ k"
  unfolding unat_drop_bit_eq by (simp add: drop_bit_eq_div)

lemma unat_push_bit_1: "unat (x :: u32) < 2 ^ 31 \<Longrightarrow> unat (push_bit 1 x) = 2 * unat x"
  unfolding unsigned_push_bit_eq by (simp add: push_bit_eq_mult take_bit_eq_mod)

lemma top_bit_clear: "x AND 0x80000000 = 0 \<longleftrightarrow> unat (x :: u32) < 2 ^ 31"
proof -
  have "x AND 0x80000000 = 0 \<longleftrightarrow> \<not> bit x 31"
    using and_exp_eq_0_iff_not_bit [of x 31] by simp
  also have "\<dots> \<longleftrightarrow> even (unat x div 2 ^ 31)"
    by (simp add: unat_bit)
  also have "\<dots> \<longleftrightarrow> unat x < 2 ^ 31"
  proof -
    have "unat x < 2 ^ LENGTH(32)" by (rule unsigned_less)
    then have "unat x div 2 ^ 31 < 2" by (simp add: less_mult_imp_div_less)
    then have "even (unat x div 2 ^ 31) \<longleftrightarrow> unat x div 2 ^ 31 = 0" by (cases "unat x div 2 ^ 31 = 0") auto
    then show ?thesis by (simp add: div_eq_0_iff)
  qed
  finally show ?thesis .
qed

lemma bit_words_cons: "odd ((unat (w::u32) + 2 ^ 32 * v) div 2 ^ n) \<longleftrightarrow>
  (if n < 32 then odd (unat w div 2 ^ n) else odd (v div 2 ^ (n - 32)))"
proof (cases "n < 32")
  case True
  then have e: "(2::nat) ^ 32 = 2 ^ n * 2 ^ (32 - n)" by (simp flip: power_add)
  have "(unat w + 2 ^ 32 * v) div 2 ^ n = 2 ^ (32 - n) * v + unat w div 2 ^ n"
    unfolding e by (simp add: mult.assoc)
  then show ?thesis using True by simp
next
  case False
  then have e: "(2::nat) ^ n = 2 ^ 32 * 2 ^ (n - 32)" 
    by (metis le_add_diff_inverse not_less power_add)
  have "unat w < 2 ^ LENGTH(32)" by (rule unsigned_less)
  then have "(unat w + 2 ^ 32 * v) div 2 ^ 32 = v" by simp
  then have "(unat w + 2 ^ 32 * v) div 2 ^ n = v div 2 ^ (n - 32)"
    unfolding e by (simp only: div_mult2_eq)
  then show ?thesis using False by simp
qed

text \<open>A bit of the number a limb vector stands for is a bit of one of its limbs.\<close>

lemma bit_words_val:
  "odd (words_val ws div 2 ^ n) \<longleftrightarrow> n div 32 < length ws \<and> bit (ws ! (n div 32)) (n mod 32)"
proof (induction ws arbitrary: n)
  case Nil
  then show ?case by simp
next
  case (Cons w ws)
  show ?case
  proof (cases "n < 32")
    case True
    then show ?thesis by (simp add: bit_words_cons unat_bit del: power_numeral)
  next
    case False
    then have "n div 32 = Suc ((n - 32) div 32)" "n mod 32 = (n - 32) mod 32"
      by (simp_all add: le_div_geq le_mod_geq not_less)
    with Cons [of "n - 32"] False show ?thesis
      by (simp add: bit_words_cons del: power_numeral)
  qed
qed

section \<open>Byte vectors\<close>

fun bytes_val :: "u8 list \<Rightarrow> nat" where
  "bytes_val [] = 0"
| "bytes_val (b # bs) = unat b + 256 * bytes_val bs"

fun byte_limbs :: "nat \<Rightarrow> nat \<Rightarrow> u8 list" where
  "byte_limbs 0 x = []"
| "byte_limbs (Suc k) x = word_of_nat x # byte_limbs k (x div 256)"

lemma length_byte_limbs [simp]: "length (byte_limbs k x) = k"
  by (induction k arbitrary: x) simp_all

lemma bytes_val_byte_limbs: "x < 256 ^ k \<Longrightarrow> bytes_val (byte_limbs k x) = x"
proof (induction k arbitrary: x)
  case 0
  then show ?case by simp
next
  case (Suc k)
  then have "x div 256 < 256 ^ k" by (simp add: less_mult_imp_div_less mult.commute)
  with Suc.IH show ?case by (simp add: unat_of_nat)
qed

section \<open>Lanes of a buffer\<close>

definition pad :: "nat \<Rightarrow> u32 list \<Rightarrow> u32 list" where
  "pad s ws = ws @ replicate (s - length ws) 0"

lemma length_pad [simp]: "length ws \<le> s \<Longrightarrow> length (pad s ws) = s"
  by (simp add: pad_def)

lemma words_val_take_pad:
  "length ws \<le> j \<Longrightarrow> j \<le> s \<Longrightarrow> words_val (take j (pad s ws)) = words_val ws"
  by (simp add: pad_def words_val_append)

lemma take_lane:
  "\<forall>b \<in> set bs. length b \<le> s \<Longrightarrow> i < length bs \<Longrightarrow>
    take s (drop (i * s) (concat (map (pad s) bs) @ zs)) = pad s (bs ! i)"
proof (induction bs arbitrary: i)
  case (Cons b bs)
  then show ?case by (cases i) simp_all
qed simp

lemma words_val_take_small:
  assumes "words_val ws < 2 ^ (32 * k)" "k \<le> length ws"
  shows "words_val (take k ws) = words_val ws"
proof -
  have "words_val ws = words_val (take k ws) + 2 ^ (32 * k) * words_val (drop k ws)"
    using words_val_take_drop [of ws k] assms(2) by (simp add: min_absorb1)
  then show ?thesis using assms(1) by (cases "words_val (drop k ws)") auto
qed

end
