(* ===== verification/IppCrypto.thy ===== *)
theory IppCrypto
  imports Prelude
begin

text \<open>
  The interface to Intel IPP Cryptography, the third-party library that
  \<open>src/ipcl/bignum.cpp\<close> and \<open>src/ipcl/mod_exp.cpp\<close> call. Its functions are parameters of the
  model, the fields of a record; what the program relies on is stated as predicates on that
  record, one per function, each the documented behaviour of the function on arguments its
  documentation admits. Outside these arguments nothing is assumed.
\<close>

section \<open>Big numbers\<close>

datatype IppsBigNumSGN = IppsBigNumNEG | IppsBigNumPOS

datatype cmp_result = IS_ZERO | GREATER_THAN_ZERO | LESS_THAN_ZERO

text \<open>
  \<open>'b\<close> is \<open>IppsBigNumState\<close>. A function that writes a result takes the old state of its
  output argument and returns the new one; \<open>bignum.cpp\<close> discards the status codes, so
  they are not returned. \<open>BigNumInit\<close> is \<open>ippsBigNumGetSize\<close>, the allocation and
  \<open>ippsBigNumInit\<close> together; \<open>Ref_sgn\<close>, \<open>Ref_bits\<close> and \<open>Ref_data\<close> are the three outputs of
  \<open>ippsRef_BN\<close> (the data as the words that can be read through the pointer). \<open>Room\<close> is not
  a function of the library: it is the capacity in 32-bit words a state was initialised
  with, which the documentation of the arithmetic functions refers to.
\<close>

record 'b ipp =
  BigNumInit :: "int \<Rightarrow> 'b"
  Set_BN :: "IppsBigNumSGN \<Rightarrow> int \<Rightarrow> u32 list \<Rightarrow> 'b \<Rightarrow> 'b"
  Ref_sgn :: "'b \<Rightarrow> IppsBigNumSGN"
  Ref_bits :: "'b \<Rightarrow> int"
  Ref_data :: "'b \<Rightarrow> u32 list"
  Add_BN :: "'b \<Rightarrow> 'b \<Rightarrow> 'b \<Rightarrow> 'b"
  Sub_BN :: "'b \<Rightarrow> 'b \<Rightarrow> 'b \<Rightarrow> 'b"
  Mul_BN :: "'b \<Rightarrow> 'b \<Rightarrow> 'b \<Rightarrow> 'b"
  Mod_BN :: "'b \<Rightarrow> 'b \<Rightarrow> 'b \<Rightarrow> 'b"
  Div_BN :: "'b \<Rightarrow> 'b \<Rightarrow> 'b \<Rightarrow> 'b \<Rightarrow> 'b \<times> 'b"
  ModInv_BN :: "'b \<Rightarrow> 'b \<Rightarrow> 'b \<Rightarrow> 'b"
  Gcd_BN :: "'b \<Rightarrow> 'b \<Rightarrow> 'b \<Rightarrow> 'b"
  CmpZero_BN :: "'b \<Rightarrow> cmp_result"
  Room :: "'b \<Rightarrow> int"

text \<open>The number a state holds, read from what \<open>ippsRef_BN\<close> returns.\<close>

definition bn_nw :: "('b, 'z) ipp_scheme \<Rightarrow> 'b \<Rightarrow> nat" where
  "bn_nw I x = nat (BITSIZE_WORD (Ref_bits I x))"

definition bn_mag :: "('b, 'z) ipp_scheme \<Rightarrow> 'b \<Rightarrow> nat" where
  "bn_mag I x = words_val (take (bn_nw I x) (Ref_data I x))"

definition signed :: "IppsBigNumSGN \<Rightarrow> nat \<Rightarrow> int" where
  "signed s m = (case s of IppsBigNumNEG \<Rightarrow> - int m | IppsBigNumPOS \<Rightarrow> int m)"

definition bn_val :: "('b, 'z) ipp_scheme \<Rightarrow> 'b \<Rightarrow> int" where
  "bn_val I x = signed (Ref_sgn I x) (bn_mag I x)"

text \<open>
  A normalised state: the bit size is that of the magnitude (one for zero, which is
  positive), and the data are zero-padded to a whole number of 64-bit chunks, the unit the
  library stores numbers in.
\<close>

definition bn_norm :: "('b, 'z) ipp_scheme \<Rightarrow> 'b \<Rightarrow> bool" where
  "bn_norm I x \<longleftrightarrow>
     (if bn_mag I x = 0 then Ref_bits I x = 1 \<and> Ref_sgn I x = IppsBigNumPOS
      else 2 ^ nat (Ref_bits I x - 1) \<le> bn_mag I x) \<and>
     nat (2 * BITSIZE_DWORD (Ref_bits I x)) \<le> length (Ref_data I x) \<and>
     words_val (take (nat (2 * BITSIZE_DWORD (Ref_bits I x))) (Ref_data I x)) = bn_mag I x"

definition tdiv :: "int \<Rightarrow> int \<Rightarrow> int" where
  "tdiv a b = sgn a * sgn b * (\<bar>a\<bar> div \<bar>b\<bar>)"

section \<open>What the program relies on\<close>

text \<open>\<open>y\<close> is the output state \<open>r\<close> after a call that stored \<open>v\<close> in it.\<close>

definition bn_out :: "('b, 'z) ipp_scheme \<Rightarrow> 'b \<Rightarrow> int \<Rightarrow> 'b \<Rightarrow> bool" where
  "bn_out I y v r \<longleftrightarrow> bn_val I y = v \<and> bn_norm I y \<and> Room I y = Room I r"

definition fits :: "('b, 'z) ipp_scheme \<Rightarrow> int \<Rightarrow> 'b \<Rightarrow> bool" where
  "fits I v r \<longleftrightarrow> \<bar>v\<bar> < 2 ^ nat (32 * Room I r)"

definition ref_ok :: "('b, 'z) ipp_scheme \<Rightarrow> bool" where
  "ref_ok I \<longleftrightarrow> (\<forall>x. 1 \<le> Ref_bits I x \<and> bn_nw I x \<le> length (Ref_data I x) \<and>
     bn_mag I x < 2 ^ nat (Ref_bits I x))"

definition init_ok :: "('b, 'z) ipp_scheme \<Rightarrow> bool" where
  "init_ok I \<longleftrightarrow> (\<forall>len. 1 \<le> len \<longrightarrow> len \<le> Room I (BigNumInit I len))"

definition set_ok :: "('b, 'z) ipp_scheme \<Rightarrow> bool" where
  "set_ok I \<longleftrightarrow> (\<forall>s len ws x. 1 \<le> len \<and> len \<le> int (length ws) \<and> len \<le> Room I x \<longrightarrow>
     bn_out I (Set_BN I s len ws x) (signed s (words_val (take (nat len) ws))) x)"

definition add_ok :: "('b, 'z) ipp_scheme \<Rightarrow> bool" where
  "add_ok I \<longleftrightarrow> (\<forall>a b r. int (bn_nw I a) \<le> Room I r \<and> int (bn_nw I b) \<le> Room I r \<and>
     fits I (bn_val I a + bn_val I b) r \<longrightarrow>
     bn_out I (Add_BN I a b r) (bn_val I a + bn_val I b) r)"

definition sub_ok :: "('b, 'z) ipp_scheme \<Rightarrow> bool" where
  "sub_ok I \<longleftrightarrow> (\<forall>a b r. int (bn_nw I a) \<le> Room I r \<and> int (bn_nw I b) \<le> Room I r \<and>
     fits I (bn_val I a - bn_val I b) r \<longrightarrow>
     bn_out I (Sub_BN I a b r) (bn_val I a - bn_val I b) r)"

definition mul_ok :: "('b, 'z) ipp_scheme \<Rightarrow> bool" where
  "mul_ok I \<longleftrightarrow> (\<forall>a b r. Ref_bits I a + Ref_bits I b \<le> 32 * Room I r \<longrightarrow>
     bn_out I (Mul_BN I a b r) (bn_val I a * bn_val I b) r)"

definition mod_ok :: "('b, 'z) ipp_scheme \<Rightarrow> bool" where
  "mod_ok I \<longleftrightarrow> (\<forall>a m r. 0 < bn_val I m \<and> int (bn_nw I m) \<le> Room I r \<longrightarrow>
     bn_out I (Mod_BN I a m r) (bn_val I a mod bn_val I m) r)"

definition div_ok :: "('b, 'z) ipp_scheme \<Rightarrow> bool" where
  "div_ok I \<longleftrightarrow> (\<forall>a b q r. bn_val I b \<noteq> 0 \<and> int (bn_nw I a) \<le> Room I q \<and>
     int (bn_nw I b) \<le> Room I r \<longrightarrow>
     bn_out I (fst (Div_BN I a b q r)) (tdiv (bn_val I a) (bn_val I b)) q)"

definition modinv_ok :: "('b, 'z) ipp_scheme \<Rightarrow> bool" where
  "modinv_ok I \<longleftrightarrow> (\<forall>e m r. 0 < bn_val I e \<and> bn_val I e < bn_val I m \<and>
     coprime (bn_val I e) (bn_val I m) \<and> int (bn_nw I m) \<le> Room I r \<longrightarrow>
     (\<exists>v. 0 \<le> v \<and> v < bn_val I m \<and> bn_val I e * v mod bn_val I m = 1 mod bn_val I m \<and>
        bn_out I (ModInv_BN I e m r) v r))"

definition gcd_ok :: "('b, 'z) ipp_scheme \<Rightarrow> bool" where
  "gcd_ok I \<longleftrightarrow> (\<forall>a b r. 0 < bn_val I a \<and> 0 < bn_val I b \<and>
     int (min (bn_nw I a) (bn_nw I b)) \<le> Room I r \<longrightarrow>
     bn_out I (Gcd_BN I a b r) (gcd (bn_val I a) (bn_val I b)) r)"

definition cmp_ok :: "('b, 'z) ipp_scheme \<Rightarrow> bool" where
  "cmp_ok I \<longleftrightarrow> (\<forall>x. CmpZero_BN I x =
     (if bn_val I x = 0 then IS_ZERO
      else if 0 < bn_val I x then GREATER_THAN_ZERO else LESS_THAN_ZERO))"

definition ipp_ok :: "('b, 'z) ipp_scheme \<Rightarrow> bool" where
  "ipp_ok I \<longleftrightarrow> ref_ok I \<and> init_ok I \<and> set_ok I \<and> add_ok I \<and> sub_ok I \<and> mul_ok I \<and>
     mod_ok I \<and> div_ok I \<and> modinv_ok I \<and> gcd_ok I \<and> cmp_ok I"

section \<open>First consequences\<close>

lemma signed_simps [simp]:
  "signed IppsBigNumPOS m = int m" "signed IppsBigNumNEG m = - int m" "\<bar>signed s m\<bar> = int m"
  by (simp_all add: signed_def split: IppsBigNumSGN.splits)

lemma signed_bn_mag: "signed (Ref_sgn I x) (bn_mag I x) = bn_val I x"
  by (simp add: bn_val_def)

lemma abs_bn_val: "\<bar>bn_val I x\<bar> = int (bn_mag I x)"
  by (simp add: bn_val_def)

lemma bn_mag_bits: "ipp_ok I \<Longrightarrow> bn_mag I x < 2 ^ nat (Ref_bits I x)"
  and bn_bits_pos: "ipp_ok I \<Longrightarrow> 1 \<le> Ref_bits I x"
  and bn_data_length: "ipp_ok I \<Longrightarrow> bn_nw I x \<le> length (Ref_data I x)"
  by (simp_all add: ipp_ok_def ref_ok_def)

lemma bn_nw_pos: "ipp_ok I \<Longrightarrow> 1 \<le> bn_nw I x"
  using bn_bits_pos [of I x] BITSIZE_WORD_pos [of "Ref_bits I x"] by (simp add: bn_nw_def)

lemma int_bn_nw: "ipp_ok I \<Longrightarrow> int (bn_nw I x) = BITSIZE_WORD (Ref_bits I x)"
  using bn_bits_pos [of I x] BITSIZE_WORD_pos [of "Ref_bits I x"] by (simp add: bn_nw_def)

lemma abs_bn_val_bits: "ipp_ok I \<Longrightarrow> \<bar>bn_val I x\<bar> < 2 ^ nat (Ref_bits I x)"
  using bn_mag_bits [of I x] by (simp add: abs_bn_val flip: of_nat_less_iff)

text \<open>The bit size of a normalised state is the bit length of its number.\<close>

lemma bn_norm_bits:
  assumes "ipp_ok I" "bn_norm I x"
  shows "Ref_bits I x = max 1 (int (nat_bits (bn_mag I x)))"
proof (cases "bn_mag I x = 0")
  case True
  with assms(2) show ?thesis by (simp add: bn_norm_def)
next
  case False
  let ?a = "nat (Ref_bits I x - 1)" and ?b = "nat_bits (bn_mag I x) - 1"
  have b: "nat_bits (bn_mag I x) = Suc ?b"
    using False nat_bits_pos [of "bn_mag I x"] by simp
  have a: "nat (Ref_bits I x) = Suc ?a"
    using bn_bits_pos [OF assms(1), of x] by simp
  have "?a = ?b"
  proof (rule bit_length_unique)
    show "2 ^ ?a \<le> bn_mag I x" using False assms(2) by (simp add: bn_norm_def)
    show "bn_mag I x < 2 ^ Suc ?a" using bn_mag_bits [OF assms(1), of x] by (simp add: a)
    show "2 ^ ?b \<le> bn_mag I x" by (rule nat_bits_lower) (use False in simp)
    show "bn_mag I x < 2 ^ Suc ?b" using nat_bits_upper [of "bn_mag I x"] b by simp
  qed
  then show ?thesis using b bn_bits_pos [OF assms(1), of x] by linarith
qed

text \<open>A normalised state of smaller magnitude has no more bits.\<close>

lemma bn_norm_bits_mono:
  assumes "ipp_ok I" "bn_norm I x" "\<bar>bn_val I x\<bar> \<le> \<bar>bn_val I y\<bar>"
  shows "Ref_bits I x \<le> Ref_bits I y"
proof (cases "bn_mag I x = 0")
  case True
  with assms(1,2) show ?thesis using bn_bits_pos [of I y] by (simp add: bn_norm_def)
next
  case False
  have "2 ^ nat (Ref_bits I x - 1) \<le> bn_mag I x"
    using False assms(2) by (simp add: bn_norm_def)
  also have "\<dots> \<le> bn_mag I y" using assms(3) by (simp add: abs_bn_val)
  also have "\<dots> < 2 ^ nat (Ref_bits I y)" by (rule bn_mag_bits [OF assms(1)])
  finally have "nat (Ref_bits I x - 1) < nat (Ref_bits I y)"
    by (simp add: power_strict_increasing_iff)
  then show ?thesis by linarith
qed

section \<open>Modular exponentiation\<close>

text \<open>
  The Montgomery functions of the single-buffer path return their status and the new state
  of their output; the context is the byte buffer \<open>mod_exp.cpp\<close> allocates. \<open>Mont_mod\<close> and
  \<open>Mont_R\<close> are not functions of the library: they are the modulus and the factor of the
  Montgomery representation a context stands for. \<open>mbx_exp_mb8\<close> is the multi-buffer function:
  what can be read through the eight base and exponent pointers, the exponent size, the
  modulus pointers (\<open>None\<close> the null pointer), the modulus size and the size of the work buffer;
  it returns a status word and what it writes through the eight output pointers. The 64-bit
  buffers are lists of their 32-bit halves, low half first.
\<close>

record 'b ipp_me = "'b ipp" +
  MontGetSize :: "int \<Rightarrow> int \<times> int"
  MontInit :: "int \<Rightarrow> u8 list \<Rightarrow> int \<times> u8 list"
  MontSet :: "u32 list \<Rightarrow> int \<Rightarrow> u8 list \<Rightarrow> int \<times> u8 list"
  MontForm :: "'b \<Rightarrow> u8 list \<Rightarrow> 'b \<Rightarrow> int \<times> 'b"
  MontExp :: "'b \<Rightarrow> 'b \<Rightarrow> u8 list \<Rightarrow> 'b \<Rightarrow> int \<times> 'b"
  MontMul :: "'b \<Rightarrow> 'b \<Rightarrow> u8 list \<Rightarrow> 'b \<Rightarrow> int \<times> 'b"
  mbx_exp_BufferSize :: "int \<Rightarrow> int"
  mbx_exp_mb8 :: "u32 list list \<Rightarrow> u32 list list \<Rightarrow> int \<Rightarrow> u32 list option list \<Rightarrow> int \<Rightarrow> int
    \<Rightarrow> int \<times> u32 list list"
  MBX_GET_STS :: "int \<Rightarrow> nat \<Rightarrow> int"
  Mont_mod :: "u8 list \<Rightarrow> int"
  Mont_R :: "u8 list \<Rightarrow> int"

definition ippStsNoErr :: int where
  [simp]: "ippStsNoErr = 0"

definition MBX_STATUS_OK :: int where
  [simp]: "MBX_STATUS_OK = 0"

text \<open>The context of an odd modulus is set up without error.\<close>

definition mont_set_ok :: "('b, 'z) ipp_me_scheme \<Rightarrow> bool" where
  "mont_set_ok I \<longleftrightarrow> (\<forall>ws words. 1 \<le> words \<and> words \<le> int (length ws) \<and>
     odd (words_val (take (nat words) ws)) \<longrightarrow>
     (\<exists>size ctx0 ctx. MontGetSize I words = (ippStsNoErr, size) \<and>
        MontInit I words (replicate (nat size) 0) = (ippStsNoErr, ctx0) \<and>
        MontSet I ws words ctx0 = (ippStsNoErr, ctx) \<and>
        Mont_mod I ctx = int (words_val (take (nat words) ws))))"

text \<open>Into Montgomery form, a power there, and a product that leaves it.\<close>

definition mont_form_ok :: "('b, 'z) ipp_me_scheme \<Rightarrow> bool" where
  "mont_form_ok I \<longleftrightarrow> (\<forall>a ctx r. 0 \<le> bn_val I a \<and> bn_val I a < Mont_mod I ctx \<and>
     fits I (Mont_mod I ctx) r \<longrightarrow>
     (\<exists>y. MontForm I a ctx r = (ippStsNoErr, y) \<and>
        bn_out I y (bn_val I a * Mont_R I ctx mod Mont_mod I ctx) r))"

definition mont_exp_ok :: "('b, 'z) ipp_me_scheme \<Rightarrow> bool" where
  "mont_exp_ok I \<longleftrightarrow> (\<forall>a e ctx r x. bn_val I a = x * Mont_R I ctx mod Mont_mod I ctx \<and>
     0 < Mont_mod I ctx \<and> 0 \<le> bn_val I e \<and> fits I (Mont_mod I ctx) r \<longrightarrow>
     (\<exists>y. MontExp I a e ctx r = (ippStsNoErr, y) \<and>
        bn_out I y (x ^ nat (bn_val I e) * Mont_R I ctx mod Mont_mod I ctx) r))"

definition mont_mul_ok :: "('b, 'z) ipp_me_scheme \<Rightarrow> bool" where
  "mont_mul_ok I \<longleftrightarrow> (\<forall>a b ctx r x. bn_val I a = x * Mont_R I ctx mod Mont_mod I ctx \<and>
     0 \<le> bn_val I b \<and> bn_val I b < Mont_mod I ctx \<and> fits I (Mont_mod I ctx) r \<longrightarrow>
     (\<exists>y. MontMul I a b ctx r = (ippStsNoErr, y) \<and>
        bn_out I y (x * bn_val I b mod Mont_mod I ctx) r))"

text \<open>A negative exponent is refused.\<close>

definition mont_neg_ok :: "('b, 'z) ipp_me_scheme \<Rightarrow> bool" where
  "mont_neg_ok I \<longleftrightarrow> (\<forall>a e ctx r. bn_val I e < 0 \<longrightarrow> fst (MontExp I a e ctx r) \<noteq> ippStsNoErr)"

text \<open>
  A lane of the multi-buffer function with readable data, an odd modulus of at most
  \<open>mod_bits\<close> bits, a reduced base and an exponent of at most \<open>exp_bits\<close> bits gets the power;
  the other lanes do not disturb it.
\<close>

definition mbx_lane ::
  "u32 list \<Rightarrow> u32 list \<Rightarrow> int \<Rightarrow> u32 list option \<Rightarrow> int \<Rightarrow> nat \<Rightarrow> nat \<Rightarrow> nat \<Rightarrow> bool" where
  "mbx_lane base exp exp_bits md mod_bits b e m \<longleftrightarrow>
     (\<exists>ws. md = Some ws \<and> nat (2 * BITSIZE_DWORD mod_bits) \<le> length ws \<and>
        words_val (take (nat (2 * BITSIZE_DWORD mod_bits)) ws) = m) \<and>
     nat (2 * BITSIZE_DWORD mod_bits) \<le> length base \<and>
     words_val (take (nat (2 * BITSIZE_DWORD mod_bits)) base) = b \<and>
     nat (2 * BITSIZE_DWORD exp_bits) \<le> length exp \<and>
     words_val (take (nat (2 * BITSIZE_DWORD exp_bits)) exp) = e \<and>
     odd m \<and> 1 < m \<and> m < 2 ^ nat mod_bits \<and> b < m \<and> e < 2 ^ nat exp_bits"

definition mbx_ok :: "('b, 'z) ipp_me_scheme \<Rightarrow> bool" where
  "mbx_ok I \<longleftrightarrow> (\<forall>bases exps exp_bits mods mod_bits size i b e m.
     length bases = 8 \<and> length exps = 8 \<and> length mods = 8 \<and> i < 8 \<and>
     mbx_exp_BufferSize I mod_bits \<le> size \<and>
     mbx_lane (bases ! i) (exps ! i) exp_bits (mods ! i) mod_bits b e m \<longrightarrow>
     (let (st, outs) = mbx_exp_mb8 I bases exps exp_bits mods mod_bits size
      in MBX_GET_STS I st i = MBX_STATUS_OK \<and> length outs = 8 \<and>
         length (outs ! i) = nat (2 * BITSIZE_DWORD mod_bits) \<and>
         words_val (outs ! i) = b ^ e mod m))"

definition ipp_me_ok :: "('b, 'z) ipp_me_scheme \<Rightarrow> bool" where
  "ipp_me_ok I \<longleftrightarrow> ipp_ok I \<and> mont_set_ok I \<and> mont_form_ok I \<and> mont_exp_ok I \<and>
     mont_mul_ok I \<and> mbx_ok I"

lemma ipp_me_ok_ipp_ok [simp]: "ipp_me_ok I \<Longrightarrow> ipp_ok I"
  by (simp add: ipp_me_ok_def)

end
