(* ===== verification/BigNumber.thy ===== *)
theory BigNumber
  imports IppCrypto
begin

unbundle bit_operations_syntax

text \<open>
  The class \<open>BigNumber\<close> of \<open>src/ipcl/bignum.cpp\<close> and \<open>src/ipcl/include/ipcl/bignum.h\<close>: an
  object is the \<open>IppsBigNumState\<close> its pointer owns, an operation is the sequence of library
  calls its body makes, copies and the sizes of the result buffers included. The lemmas show
  that the buffers are large enough for the library's documented contract, so that each
  operation computes its function on integers, and that every result is normalised.
\<close>

section \<open>Construction\<close>

definition create :: "('b, 'z) ipp_scheme \<Rightarrow> u32 list option \<Rightarrow> int \<Rightarrow> IppsBigNumSGN \<Rightarrow> 'b" where
  "create I pData len sg =
     (let m_pBN = BigNumInit I len
      in case pData of None \<Rightarrow> m_pBN | Some ws \<Rightarrow> Set_BN I sg len ws m_pBN)"

definition BigNumber_u32 :: "('b, 'z) ipp_scheme \<Rightarrow> u32 \<Rightarrow> 'b" where
  "BigNumber_u32 I value = create I (Some [value]) 1 IppsBigNumPOS"

text \<open>The argument of the \<open>Ipp32s\<close> constructor is the word of a 32-bit signed integer;
  \<open>abs\<close> leaves the smallest one as it is.\<close>

definition BigNumber_s32 :: "('b, 'z) ipp_scheme \<Rightarrow> u32 \<Rightarrow> 'b" where
  "BigNumber_s32 I value =
     (let avalue = (if sint value < 0 then - value else value)
      in create I (Some [avalue]) 1 (if sint value < 0 then IppsBigNumNEG else IppsBigNumPOS))"

definition BigNumber_data :: "('b, 'z) ipp_scheme \<Rightarrow> u32 list option \<Rightarrow> int \<Rightarrow> IppsBigNumSGN \<Rightarrow> 'b" where
  "BigNumber_data I pData len sg = create I pData len sg"

text \<open>\<open>BigNumber result(0, length)\<close>: no data, room for \<open>length\<close> words.\<close>

abbreviation BigNumber_room :: "('b, 'z) ipp_scheme \<Rightarrow> int \<Rightarrow> 'b" where
  "BigNumber_room I len \<equiv> BigNumber_data I None len IppsBigNumPOS"

definition BigNumber_copy :: "('b, 'z) ipp_scheme \<Rightarrow> 'b \<Rightarrow> 'b" where
  "BigNumber_copy I bn =
     create I (Some (Ref_data I bn)) (BITSIZE_WORD (Ref_bits I bn)) (Ref_sgn I bn)"

definition BigNumber_Set :: "('b, 'z) ipp_scheme \<Rightarrow> u32 list \<Rightarrow> int \<Rightarrow> IppsBigNumSGN \<Rightarrow> 'b \<Rightarrow> 'b" where
  "BigNumber_Set I pData len sg this = Set_BN I sg len pData this"

definition BigNumber_Zero :: "('b, 'z) ipp_scheme \<Rightarrow> 'b" where
  "BigNumber_Zero I = BigNumber_s32 I 0"

definition BigNumber_One :: "('b, 'z) ipp_scheme \<Rightarrow> 'b" where
  "BigNumber_One I = BigNumber_s32 I 1"

definition BigNumber_Two :: "('b, 'z) ipp_scheme \<Rightarrow> 'b" where
  "BigNumber_Two I = BigNumber_s32 I 2"

section \<open>Arithmetic operators\<close>

text \<open>\<open>operator=\<close> with another object copies it.\<close>

definition bn_assign :: "('b, 'z) ipp_scheme \<Rightarrow> 'b \<Rightarrow> 'b" where
  "bn_assign I bn = create I (Some (Ref_data I bn)) (BITSIZE_WORD (Ref_bits I bn)) (Ref_sgn I bn)"

definition bn_plus_assign :: "('b, 'z) ipp_scheme \<Rightarrow> 'b \<Rightarrow> 'b \<Rightarrow> 'b" where
  "bn_plus_assign I this bn =
     (let rBitLen = max (Ref_bits I this) (Ref_bits I bn) + 1;
          result = BigNumber_room I (BITSIZE_WORD rBitLen)
      in bn_assign I (Add_BN I this bn result))"

definition bn_plus_assign_u :: "('b, 'z) ipp_scheme \<Rightarrow> 'b \<Rightarrow> u32 \<Rightarrow> 'b" where
  "bn_plus_assign_u I this n =
     (let rBitLen = max (Ref_bits I this) 32 + 1;
          result = BigNumber_room I (BITSIZE_WORD rBitLen);
          bn = BigNumber_u32 I n
      in bn_assign I (Add_BN I this bn result))"

definition bn_minus_assign :: "('b, 'z) ipp_scheme \<Rightarrow> 'b \<Rightarrow> 'b \<Rightarrow> 'b" where
  "bn_minus_assign I this bn =
     (let rBitLen = max (Ref_bits I this) (Ref_bits I bn);
          result = BigNumber_room I (BITSIZE_WORD rBitLen)
      in bn_assign I (Sub_BN I this bn result))"

definition bn_minus_assign_u :: "('b, 'z) ipp_scheme \<Rightarrow> 'b \<Rightarrow> u32 \<Rightarrow> 'b" where
  "bn_minus_assign_u I this n =
     (let rBitLen = max (Ref_bits I this) 32;
          result = BigNumber_room I (BITSIZE_WORD rBitLen);
          bn = BigNumber_u32 I n
      in bn_assign I (Sub_BN I this bn result))"

definition bn_times_assign :: "('b, 'z) ipp_scheme \<Rightarrow> 'b \<Rightarrow> 'b \<Rightarrow> 'b" where
  "bn_times_assign I this bn =
     (let rBitLen = Ref_bits I this + Ref_bits I bn;
          result = BigNumber_room I (BITSIZE_WORD rBitLen)
      in bn_assign I (Mul_BN I this bn result))"

definition bn_times_assign_u :: "('b, 'z) ipp_scheme \<Rightarrow> 'b \<Rightarrow> u32 \<Rightarrow> 'b" where
  "bn_times_assign_u I this n =
     (let result = BigNumber_room I (BITSIZE_WORD (Ref_bits I this + 32));
          bn = BigNumber_u32 I n
      in bn_assign I (Mul_BN I this bn result))"

definition bn_mod_assign :: "('b, 'z) ipp_scheme \<Rightarrow> 'b \<Rightarrow> 'b \<Rightarrow> 'b" where
  "bn_mod_assign I this bn =
     (let remainder = BigNumber_copy I bn in bn_assign I (Mod_BN I this bn remainder))"

definition bn_mod_assign_u :: "('b, 'z) ipp_scheme \<Rightarrow> 'b \<Rightarrow> u32 \<Rightarrow> 'b" where
  "bn_mod_assign_u I this n =
     (let result = BigNumber_room I (BITSIZE_WORD (Ref_bits I this));
          bn = BigNumber_u32 I n
      in bn_assign I (Mod_BN I this bn result))"

definition bn_div_assign :: "('b, 'z) ipp_scheme \<Rightarrow> 'b \<Rightarrow> 'b \<Rightarrow> 'b" where
  "bn_div_assign I this bn =
     (let quotient = BigNumber_copy I this;
          remainder = BigNumber_copy I bn
      in bn_assign I (fst (Div_BN I this bn quotient remainder)))"

definition bn_div_assign_u :: "('b, 'z) ipp_scheme \<Rightarrow> 'b \<Rightarrow> u32 \<Rightarrow> 'b" where
  "bn_div_assign_u I this n =
     (let quotient = BigNumber_copy I this;
          bn = BigNumber_u32 I n;
          remainder = BigNumber_copy I bn
      in bn_assign I (fst (Div_BN I this bn quotient remainder)))"

text \<open>The binary operators copy their left argument, update the copy and return a copy of it;
  the two \<open>%\<close> operators call the library on a copy that only gives the size.\<close>

definition bn_plus :: "('b, 'z) ipp_scheme \<Rightarrow> 'b \<Rightarrow> 'b \<Rightarrow> 'b" where
  "bn_plus I a b = BigNumber_copy I (bn_plus_assign I (BigNumber_copy I a) b)"

definition bn_plus_u :: "('b, 'z) ipp_scheme \<Rightarrow> 'b \<Rightarrow> u32 \<Rightarrow> 'b" where
  "bn_plus_u I a n = BigNumber_copy I (bn_plus_assign_u I (BigNumber_copy I a) n)"

definition bn_minus :: "('b, 'z) ipp_scheme \<Rightarrow> 'b \<Rightarrow> 'b \<Rightarrow> 'b" where
  "bn_minus I a b = BigNumber_copy I (bn_minus_assign I (BigNumber_copy I a) b)"

definition bn_minus_u :: "('b, 'z) ipp_scheme \<Rightarrow> 'b \<Rightarrow> u32 \<Rightarrow> 'b" where
  "bn_minus_u I a n = BigNumber_copy I (bn_minus_assign_u I (BigNumber_copy I a) n)"

definition bn_times :: "('b, 'z) ipp_scheme \<Rightarrow> 'b \<Rightarrow> 'b \<Rightarrow> 'b" where
  "bn_times I a b = BigNumber_copy I (bn_times_assign I (BigNumber_copy I a) b)"

definition bn_times_u :: "('b, 'z) ipp_scheme \<Rightarrow> 'b \<Rightarrow> u32 \<Rightarrow> 'b" where
  "bn_times_u I a n = BigNumber_copy I (bn_times_assign_u I (BigNumber_copy I a) n)"

definition bn_div :: "('b, 'z) ipp_scheme \<Rightarrow> 'b \<Rightarrow> 'b \<Rightarrow> 'b" where
  "bn_div I a b = BigNumber_copy I (bn_div_assign I (BigNumber_copy I a) b)"

definition bn_div_u :: "('b, 'z) ipp_scheme \<Rightarrow> 'b \<Rightarrow> u32 \<Rightarrow> 'b" where
  "bn_div_u I a n = BigNumber_copy I (bn_div_assign_u I (BigNumber_copy I a) n)"

definition bn_mod :: "('b, 'z) ipp_scheme \<Rightarrow> 'b \<Rightarrow> 'b \<Rightarrow> 'b" where
  "bn_mod I a b = Mod_BN I a b (BigNumber_copy I b)"

definition bn_mod_u :: "('b, 'z) ipp_scheme \<Rightarrow> 'b \<Rightarrow> u32 \<Rightarrow> 'b" where
  "bn_mod_u I a n = Mod_BN I a (BigNumber_u32 I n) (BigNumber_copy I a)"

section \<open>Comparison\<close>

definition bn_compare :: "('b, 'z) ipp_scheme \<Rightarrow> 'b \<Rightarrow> 'b \<Rightarrow> int" where
  "bn_compare I this bn =
     (let tmp = bn_minus I this bn; result = CmpZero_BN I tmp
      in if result = IS_ZERO then 0 else if result = GREATER_THAN_ZERO then 1 else - 1)"

definition bn_less :: "('b, 'z) ipp_scheme \<Rightarrow> 'b \<Rightarrow> 'b \<Rightarrow> bool" where
  "bn_less I a b \<longleftrightarrow> bn_compare I a b < 0"

definition bn_greater :: "('b, 'z) ipp_scheme \<Rightarrow> 'b \<Rightarrow> 'b \<Rightarrow> bool" where
  "bn_greater I a b \<longleftrightarrow> bn_compare I a b > 0"

definition bn_eq :: "('b, 'z) ipp_scheme \<Rightarrow> 'b \<Rightarrow> 'b \<Rightarrow> bool" where
  "bn_eq I a b \<longleftrightarrow> 0 = bn_compare I a b"

definition bn_neq :: "('b, 'z) ipp_scheme \<Rightarrow> 'b \<Rightarrow> 'b \<Rightarrow> bool" where
  "bn_neq I a b \<longleftrightarrow> 0 \<noteq> bn_compare I a b"

definition bn_le :: "('b, 'z) ipp_scheme \<Rightarrow> 'b \<Rightarrow> 'b \<Rightarrow> bool" where
  "bn_le I a b \<longleftrightarrow> \<not> bn_greater I a b"

definition bn_ge :: "('b, 'z) ipp_scheme \<Rightarrow> 'b \<Rightarrow> 'b \<Rightarrow> bool" where
  "bn_ge I a b \<longleftrightarrow> \<not> bn_less I a b"

section \<open>Modular arithmetic\<close>

text \<open>The receiver of these methods is the modulus.\<close>

definition bn_Modulo :: "('b, 'z) ipp_scheme \<Rightarrow> 'b \<Rightarrow> 'b \<Rightarrow> 'b" where
  "bn_Modulo I this a = bn_mod I a this"

definition bn_InverseAdd :: "('b, 'z) ipp_scheme \<Rightarrow> 'b \<Rightarrow> 'b \<Rightarrow> 'b" where
  "bn_InverseAdd I this a =
     (let t = bn_Modulo I this a
      in if bn_eq I t (BigNumber_Zero I) then t else bn_minus I this t)"

definition bn_InverseMul :: "('b, 'z) ipp_scheme \<Rightarrow> 'b \<Rightarrow> 'b \<Rightarrow> 'b" where
  "bn_InverseMul I this a = ModInv_BN I a this (BigNumber_copy I this)"

definition bn_ModAdd :: "('b, 'z) ipp_scheme \<Rightarrow> 'b \<Rightarrow> 'b \<Rightarrow> 'b \<Rightarrow> 'b" where
  "bn_ModAdd I this a b = bn_Modulo I this (bn_plus I a b)"

definition bn_ModSub :: "('b, 'z) ipp_scheme \<Rightarrow> 'b \<Rightarrow> 'b \<Rightarrow> 'b \<Rightarrow> 'b" where
  "bn_ModSub I this a b = bn_Modulo I this (bn_plus I a (bn_InverseAdd I this b))"

definition bn_ModMul :: "('b, 'z) ipp_scheme \<Rightarrow> 'b \<Rightarrow> 'b \<Rightarrow> 'b \<Rightarrow> 'b" where
  "bn_ModMul I this a b = bn_Modulo I this (bn_times I a b)"

definition bn_gcd :: "('b, 'z) ipp_scheme \<Rightarrow> 'b \<Rightarrow> 'b \<Rightarrow> 'b" where
  "bn_gcd I this q = Gcd_BN I this q (BigNumber_copy I this)"

section \<open>The buffers are large enough\<close>

named_theorems bn_simps "values of the BigNumber operations under the library's contract"

lemma fits_bits: "\<bar>v\<bar> < 2 ^ nat k \<Longrightarrow> k \<le> 32 * Room I r \<Longrightarrow> fits I v r"
  unfolding fits_def by (erule order_less_le_trans) (simp add: nat_mono power_increasing)

lemma create_Some:
  assumes "ipp_ok I" "1 \<le> len" "len \<le> int (length ws)"
  shows "bn_val I (create I (Some ws) len s) = signed s (words_val (take (nat len) ws))"
    and "bn_norm I (create I (Some ws) len s)"
    and "len \<le> Room I (create I (Some ws) len s)"
proof -
  let ?x = "BigNumInit I len"
  have r: "len \<le> Room I ?x"
    using assms by (simp add: ipp_ok_def init_ok_def)
  then have "bn_out I (Set_BN I s len ws ?x) (signed s (words_val (take (nat len) ws))) ?x"
    using assms by (simp add: ipp_ok_def set_ok_def)
  with r show "bn_val I (create I (Some ws) len s) = signed s (words_val (take (nat len) ws))"
    and "bn_norm I (create I (Some ws) len s)"
    and "len \<le> Room I (create I (Some ws) len s)"
    by (simp_all add: create_def bn_out_def)
qed

lemma room_BigNumber_room: "ipp_ok I \<Longrightarrow> 1 \<le> len \<Longrightarrow> len \<le> Room I (BigNumber_room I len)"
  by (simp add: BigNumber_data_def create_def ipp_ok_def init_ok_def)

lemma bn_assign_copy: "bn_assign = BigNumber_copy"
  by (intro ext) (simp add: bn_assign_def BigNumber_copy_def)

lemma copy_val [bn_simps]: "ipp_ok I \<Longrightarrow> bn_val I (BigNumber_copy I x) = bn_val I x"
  and copy_norm [bn_simps]: "ipp_ok I \<Longrightarrow> bn_norm I (BigNumber_copy I x)"
  and copy_room: "ipp_ok I \<Longrightarrow> int (bn_nw I x) \<le> Room I (BigNumber_copy I x)"
  using create_Some [of I "BITSIZE_WORD (Ref_bits I x)" "Ref_data I x" "Ref_sgn I x"]
    bn_nw_pos [of I x] bn_data_length [of I x] int_bn_nw [of I x]
  by (simp_all add: BigNumber_copy_def signed_bn_mag flip: bn_nw_def bn_mag_def)

lemma copy_bits: "ipp_ok I \<Longrightarrow> Ref_bits I (BigNumber_copy I x) \<le> Ref_bits I x"
  by (rule bn_norm_bits_mono) (simp_all add: bn_simps)

lemma copy_nw: "ipp_ok I \<Longrightarrow> bn_nw I (BigNumber_copy I x) \<le> bn_nw I x"
  unfolding bn_nw_def by (simp add: copy_bits BITSIZE_WORD_mono nat_mono)

lemma copy_id_norm:
  assumes "ipp_ok I" "bn_norm I x"
  shows "Ref_bits I (BigNumber_copy I x) = Ref_bits I x"
  using bn_norm_bits_mono [OF assms, of "BigNumber_copy I x"] copy_bits [OF assms(1), of x] assms(1)
  by (simp add: bn_simps)

lemma u32_val [bn_simps]: "ipp_ok I \<Longrightarrow> bn_val I (BigNumber_u32 I n) = int (unat n)"
  and u32_norm [bn_simps]: "ipp_ok I \<Longrightarrow> bn_norm I (BigNumber_u32 I n)"
  and u32_room: "ipp_ok I \<Longrightarrow> 1 \<le> Room I (BigNumber_u32 I n)"
  using create_Some [of I 1 "[n]" IppsBigNumPOS] by (simp_all add: BigNumber_u32_def)

lemma u32_bits: "ipp_ok I \<Longrightarrow> Ref_bits I (BigNumber_u32 I n) \<le> 32"
proof -
  assume ok: "ipp_ok I"
  let ?x = "BigNumber_u32 I n"
  have m: "bn_mag I ?x = unat n"
    using u32_val [OF ok, of n] abs_bn_val [of I ?x] by (metis abs_of_nat of_nat_eq_iff)
  have "nat_bits (unat n) \<le> 32"
  proof (cases "unat n = 0")
    case False
    then have "2 ^ (nat_bits (unat n) - 1) \<le> unat n" by (intro nat_bits_lower) simp
    also have "\<dots> < 2 ^ 32" by simp
    finally have "nat_bits (unat n) - 1 < 32" by (simp only: power_strict_increasing_iff)
    then show ?thesis by simp
  qed simp
  then show ?thesis
    using bn_norm_bits [OF ok u32_norm [OF ok, of n]] by (simp add: m)
qed

lemma u32_nw: "ipp_ok I \<Longrightarrow> bn_nw I (BigNumber_u32 I n) = 1"
  using BITSIZE_WORD_mono [OF u32_bits [of I n]] bn_nw_pos [of I "BigNumber_u32 I n"]
  by (simp add: bn_nw_def BITSIZE_WORD_div)

lemma s32_val [bn_simps]:
  assumes "ipp_ok I"
  shows "bn_val I (BigNumber_s32 I n) = sint n"
proof -
  have u: "uint n = sint n mod 2 ^ 32"
    using uint_sint [of n] by (simp add: take_bit_eq_mod)
  have r: "- (2 ^ 31) \<le> sint n" "sint n < 2 ^ 31"
    using sint_range_size [of n] by (simp_all add: word_size)
  have "int (unat (- n)) = - sint n" if "sint n < 0"
  proof -
    have "uint (- n) = (- uint n) mod 2 ^ 32"
      by (simp add: uint_word_ariths)
    also have "\<dots> = (- sint n) mod 2 ^ 32"
      unfolding u by (rule mod_minus_eq)
    also have "\<dots> = - sint n"
      using that r by simp
    finally show ?thesis by simp
  qed
  moreover have "int (unat n) = sint n" if "\<not> sint n < 0"
    using that r u by simp
  ultimately show ?thesis
    using create_Some [OF assms, of 1 "[if sint n < 0 then - n else n]"]
    by (simp add: BigNumber_s32_def Let_def)
qed

lemma s32_norm [bn_simps]: "ipp_ok I \<Longrightarrow> bn_norm I (BigNumber_s32 I n)"
  by (simp add: BigNumber_s32_def Let_def create_Some)

lemma const_val [bn_simps]:
  assumes "ipp_ok I"
  shows "bn_val I (BigNumber_Zero I) = 0" "bn_val I (BigNumber_One I) = 1"
    "bn_val I (BigNumber_Two I) = 2"
  using assms by (simp_all add: BigNumber_Zero_def BigNumber_One_def BigNumber_Two_def bn_simps)

section \<open>The operators compute on integers\<close>

lemma abs_val_bits_le: "ipp_ok I \<Longrightarrow> Ref_bits I a \<le> k \<Longrightarrow> \<bar>bn_val I a\<bar> < 2 ^ nat k"
  by (rule order_less_le_trans [OF abs_bn_val_bits]) (simp_all add: nat_mono power_increasing)

lemma nw_le_room:
  assumes "ipp_ok I" "Ref_bits I a \<le> k" "BITSIZE_WORD k \<le> Room I r"
  shows "int (bn_nw I a) \<le> Room I r"
  using BITSIZE_WORD_mono [OF assms(2)] assms(3) int_bn_nw [OF assms(1), of a] by simp

lemma room_ge:
  assumes "ipp_ok I" "1 \<le> k"
  shows "BITSIZE_WORD k \<le> Room I (BigNumber_room I (BITSIZE_WORD k))"
    and "k \<le> 32 * Room I (BigNumber_room I (BITSIZE_WORD k))"
proof -
  show r: "BITSIZE_WORD k \<le> Room I (BigNumber_room I (BITSIZE_WORD k))"
    using assms BITSIZE_WORD_pos [of k] by (simp add: room_BigNumber_room)
  then show "k \<le> 32 * Room I (BigNumber_room I (BITSIZE_WORD k))"
    using BITSIZE_WORD_ge [of k] by linarith
qed

lemma add_into:
  assumes ok: "ipp_ok I" and k: "Ref_bits I a \<le> k" "Ref_bits I b \<le> k"
  shows "bn_out I (Add_BN I a b (BigNumber_room I (BITSIZE_WORD (k + 1))))
    (bn_val I a + bn_val I b) (BigNumber_room I (BITSIZE_WORD (k + 1)))"
proof -
  let ?r = "BigNumber_room I (BITSIZE_WORD (k + 1))"
  have k1: "1 \<le> k" using bn_bits_pos [OF ok, of a] k(1) by simp
  then have r: "BITSIZE_WORD (k + 1) \<le> Room I ?r" "k + 1 \<le> 32 * Room I ?r"
    using room_ge [OF ok, of "k + 1"] by simp_all
  have "\<bar>bn_val I a + bn_val I b\<bar> < 2 * 2 ^ nat k"
    using abs_val_bits_le [OF ok k(1)] abs_val_bits_le [OF ok k(2)] by linarith
  then have "fits I (bn_val I a + bn_val I b) ?r"
    by (intro fits_bits [OF _ r(2)]) (use k1 in \<open>simp add: nat_add_distrib\<close>)
  moreover have "int (bn_nw I a) \<le> Room I ?r" "int (bn_nw I b) \<le> Room I ?r"
    by (rule nw_le_room [OF ok _ r(1)]; use k in simp)+
  ultimately show ?thesis
    using ok by (simp add: ipp_ok_def add_ok_def)
qed

lemma sub_into:
  assumes ok: "ipp_ok I" and k: "Ref_bits I a \<le> k" "Ref_bits I b \<le> k"
    and s: "0 \<le> bn_val I a * bn_val I b"
  shows "bn_out I (Sub_BN I a b (BigNumber_room I (BITSIZE_WORD k)))
    (bn_val I a - bn_val I b) (BigNumber_room I (BITSIZE_WORD k))"
proof -
  let ?r = "BigNumber_room I (BITSIZE_WORD k)"
  have "1 \<le> k" using bn_bits_pos [OF ok, of a] k(1) by simp
  then have r: "BITSIZE_WORD k \<le> Room I ?r" "k \<le> 32 * Room I ?r"
    using room_ge [OF ok] by simp_all
  have "\<bar>bn_val I a - bn_val I b\<bar> \<le> max \<bar>bn_val I a\<bar> \<bar>bn_val I b\<bar>"
    using s by (auto simp: zero_le_mult_iff)
  then have "\<bar>bn_val I a - bn_val I b\<bar> < 2 ^ nat k"
    using abs_val_bits_le [OF ok k(1)] abs_val_bits_le [OF ok k(2)] by linarith
  then have "fits I (bn_val I a - bn_val I b) ?r"
    by (rule fits_bits) (rule r(2))
  moreover have "int (bn_nw I a) \<le> Room I ?r" "int (bn_nw I b) \<le> Room I ?r"
    using nw_le_room [OF ok _ r(1)] k by simp_all
  ultimately show ?thesis
    using ok by (simp add: ipp_ok_def sub_ok_def)
qed

lemma mul_into:
  assumes ok: "ipp_ok I" and k: "Ref_bits I a + Ref_bits I b \<le> k"
  shows "bn_out I (Mul_BN I a b (BigNumber_room I (BITSIZE_WORD k)))
    (bn_val I a * bn_val I b) (BigNumber_room I (BITSIZE_WORD k))"
proof -
  have "1 \<le> k" using bn_bits_pos [OF ok, of a] bn_bits_pos [OF ok, of b] k by linarith
  then have "k \<le> 32 * Room I (BigNumber_room I (BITSIZE_WORD k))"
    by (rule room_ge [OF ok])
  with k show ?thesis
    using ok by (simp add: ipp_ok_def mul_ok_def)
qed

lemma out_assign:
  assumes "ipp_ok I" "bn_out I y v r"
  shows "bn_val I (bn_assign I y) = v \<and> bn_norm I (bn_assign I y)"
  using assms by (simp add: bn_assign_copy bn_simps bn_out_def)

lemma plus_assign_val:
  "ipp_ok I \<Longrightarrow> bn_val I (bn_plus_assign I a b) = bn_val I a + bn_val I b \<and>
    bn_norm I (bn_plus_assign I a b)"
  unfolding bn_plus_assign_def Let_def
  by (rule out_assign, assumption, rule add_into) simp_all

lemma minus_assign_val:
  "ipp_ok I \<Longrightarrow> 0 \<le> bn_val I a * bn_val I b \<Longrightarrow>
    bn_val I (bn_minus_assign I a b) = bn_val I a - bn_val I b \<and> bn_norm I (bn_minus_assign I a b)"
  unfolding bn_minus_assign_def Let_def
  by (rule out_assign, assumption, rule sub_into) simp_all

lemma times_assign_val:
  "ipp_ok I \<Longrightarrow> bn_val I (bn_times_assign I a b) = bn_val I a * bn_val I b \<and>
    bn_norm I (bn_times_assign I a b)"
  unfolding bn_times_assign_def Let_def
  by (rule out_assign, assumption, rule mul_into) simp_all

lemma plus_assign_u_val:
  assumes ok: "ipp_ok I"
  shows "bn_val I (bn_plus_assign_u I a n) = bn_val I a + int (unat n) \<and>
    bn_norm I (bn_plus_assign_u I a n)"
  using out_assign [OF ok add_into [OF ok, of a "max (Ref_bits I a) 32" "BigNumber_u32 I n"]]
    u32_bits [OF ok, of n]
  by (simp add: bn_plus_assign_u_def Let_def u32_val [OF ok])

lemma minus_assign_u_val:
  assumes ok: "ipp_ok I" and a: "0 \<le> bn_val I a"
  shows "bn_val I (bn_minus_assign_u I a n) = bn_val I a - int (unat n) \<and>
    bn_norm I (bn_minus_assign_u I a n)"
  using out_assign [OF ok sub_into [OF ok, of a "max (Ref_bits I a) 32" "BigNumber_u32 I n"]]
    u32_bits [OF ok, of n] a
  by (simp add: bn_minus_assign_u_def Let_def u32_val [OF ok])

lemma times_assign_u_val:
  assumes ok: "ipp_ok I"
  shows "bn_val I (bn_times_assign_u I a n) = bn_val I a * int (unat n) \<and>
    bn_norm I (bn_times_assign_u I a n)"
  using out_assign [OF ok mul_into [OF ok, of a "BigNumber_u32 I n" "Ref_bits I a + 32"]]
    u32_bits [OF ok, of n]
  by (simp add: bn_times_assign_u_def Let_def u32_val [OF ok])

lemma mod_BN_val:
  assumes ok: "ipp_ok I" and b: "0 < bn_val I b" and r: "int (bn_nw I b) \<le> Room I r"
  shows "bn_out I (Mod_BN I a b r) (bn_val I a mod bn_val I b) r"
  using assms by (simp add: ipp_ok_def mod_ok_def)

lemma div_BN_val:
  assumes ok: "ipp_ok I" and b: "bn_val I b \<noteq> 0"
  shows "bn_out I (fst (Div_BN I a b (BigNumber_copy I a) (BigNumber_copy I b)))
    (tdiv (bn_val I a) (bn_val I b)) (BigNumber_copy I a)"
  using ok b copy_room [OF ok, of a] copy_room [OF ok, of b]
  by (simp add: ipp_ok_def div_ok_def)

lemma mod_assign_val:
  "ipp_ok I \<Longrightarrow> 0 < bn_val I b \<Longrightarrow>
    bn_val I (bn_mod_assign I a b) = bn_val I a mod bn_val I b \<and> bn_norm I (bn_mod_assign I a b)"
  unfolding bn_mod_assign_def Let_def
  by (rule out_assign, assumption, rule mod_BN_val) (simp_all add: copy_room)

lemma mod_assign_u_val:
  assumes ok: "ipp_ok I" and n: "0 < n"
  shows "bn_val I (bn_mod_assign_u I a n) = bn_val I a mod int (unat n) \<and>
    bn_norm I (bn_mod_assign_u I a n)"
proof -
  let ?r = "BigNumber_room I (BITSIZE_WORD (Ref_bits I a))"
  have "1 \<le> Room I ?r"
    using room_ge(1) [OF ok bn_bits_pos [OF ok, of a]] BITSIZE_WORD_pos [OF bn_bits_pos [OF ok, of a]]
    by linarith
  then have "bn_out I (Mod_BN I a (BigNumber_u32 I n) ?r) (bn_val I a mod bn_val I (BigNumber_u32 I n)) ?r"
    using ok n by (intro mod_BN_val) (simp_all add: u32_val u32_nw word_less_def)
  from out_assign [OF ok this] show ?thesis
    by (simp add: bn_mod_assign_u_def Let_def u32_val [OF ok])
qed

lemma div_assign_val:
  "ipp_ok I \<Longrightarrow> bn_val I b \<noteq> 0 \<Longrightarrow>
    bn_val I (bn_div_assign I a b) = tdiv (bn_val I a) (bn_val I b) \<and> bn_norm I (bn_div_assign I a b)"
  unfolding bn_div_assign_def Let_def
  by (rule out_assign, assumption, rule div_BN_val) simp_all

lemma div_assign_u_val:
  assumes ok: "ipp_ok I" and n: "0 < n"
  shows "bn_val I (bn_div_assign_u I a n) = tdiv (bn_val I a) (int (unat n)) \<and>
    bn_norm I (bn_div_assign_u I a n)"
proof -
  have "bn_val I (BigNumber_u32 I n) \<noteq> 0"
    using n by (simp add: u32_val [OF ok] word_less_def)
  from out_assign [OF ok div_BN_val [OF ok this, of a]] show ?thesis
    by (simp add: bn_div_assign_u_def Let_def u32_val [OF ok])
qed

lemma plus_val [bn_simps]: "ipp_ok I \<Longrightarrow> bn_val I (bn_plus I a b) = bn_val I a + bn_val I b"
  and plus_u_val [bn_simps]: "ipp_ok I \<Longrightarrow> bn_val I (bn_plus_u I a n) = bn_val I a + int (unat n)"
  and times_val [bn_simps]: "ipp_ok I \<Longrightarrow> bn_val I (bn_times I a b) = bn_val I a * bn_val I b"
  and times_u_val [bn_simps]: "ipp_ok I \<Longrightarrow> bn_val I (bn_times_u I a n) = bn_val I a * int (unat n)"
  by (simp_all add: bn_plus_def bn_plus_u_def bn_times_def bn_times_u_def copy_val
      plus_assign_val plus_assign_u_val times_assign_val times_assign_u_val)

lemma minus_val [bn_simps]:
    "ipp_ok I \<Longrightarrow> 0 \<le> bn_val I a * bn_val I b \<Longrightarrow> bn_val I (bn_minus I a b) = bn_val I a - bn_val I b"
  and minus_u_val [bn_simps]:
    "ipp_ok I \<Longrightarrow> 0 \<le> bn_val I a \<Longrightarrow> bn_val I (bn_minus_u I a n) = bn_val I a - int (unat n)"
  by (simp_all add: bn_minus_def bn_minus_u_def copy_val minus_assign_val minus_assign_u_val)

lemma div_val [bn_simps]:
    "ipp_ok I \<Longrightarrow> bn_val I b \<noteq> 0 \<Longrightarrow> bn_val I (bn_div I a b) = tdiv (bn_val I a) (bn_val I b)"
  and div_u_val [bn_simps]:
    "ipp_ok I \<Longrightarrow> 0 < n \<Longrightarrow> bn_val I (bn_div_u I a n) = tdiv (bn_val I a) (int (unat n))"
  by (simp_all add: bn_div_def bn_div_u_def copy_val div_assign_val div_assign_u_val)

lemma ops_norm [bn_simps]:
  assumes "ipp_ok I"
  shows "bn_norm I (bn_plus I a b)" "bn_norm I (bn_plus_u I a n)" "bn_norm I (bn_minus I a b)"
    "bn_norm I (bn_minus_u I a n)" "bn_norm I (bn_times I a b)" "bn_norm I (bn_times_u I a n)"
    "bn_norm I (bn_div I a b)" "bn_norm I (bn_div_u I a n)"
  by (simp_all add: bn_plus_def bn_plus_u_def bn_minus_def bn_minus_u_def bn_times_def
      bn_times_u_def bn_div_def bn_div_u_def copy_norm assms)

lemma mod_val [bn_simps]:
    "ipp_ok I \<Longrightarrow> 0 < bn_val I b \<Longrightarrow> bn_val I (bn_mod I a b) = bn_val I a mod bn_val I b"
  and mod_norm [bn_simps]: "ipp_ok I \<Longrightarrow> 0 < bn_val I b \<Longrightarrow> bn_norm I (bn_mod I a b)"
  using mod_BN_val [of I b "BigNumber_copy I b" a] copy_room [of I b]
  by (simp_all add: bn_mod_def bn_out_def)

lemma mod_u_val [bn_simps]:
  assumes ok: "ipp_ok I" and n: "0 < n"
  shows "bn_val I (bn_mod_u I a n) = bn_val I a mod int (unat n)"
    and "bn_norm I (bn_mod_u I a n)"
proof -
  have "bn_out I (bn_mod_u I a n) (bn_val I a mod bn_val I (BigNumber_u32 I n)) (BigNumber_copy I a)"
    unfolding bn_mod_u_def
    using ok n copy_room [OF ok, of a] bn_nw_pos [OF ok, of a]
    by (intro mod_BN_val) (simp_all add: u32_val u32_nw word_less_def)
  then show "bn_val I (bn_mod_u I a n) = bn_val I a mod int (unat n)"
    and "bn_norm I (bn_mod_u I a n)"
    by (simp_all add: bn_out_def u32_val [OF ok])
qed

text \<open>Comparison is that of integers when the operands do not have opposite signs.\<close>

lemma compare_val:
  assumes "ipp_ok I" "0 \<le> bn_val I a * bn_val I b"
  shows "bn_compare I a b = sgn (bn_val I a - bn_val I b)"
proof -
  have "CmpZero_BN I x = (if bn_val I x = 0 then IS_ZERO
      else if 0 < bn_val I x then GREATER_THAN_ZERO else LESS_THAN_ZERO)" for x
    using assms(1) by (simp add: ipp_ok_def cmp_ok_def)
  then show ?thesis
    using assms by (simp add: bn_compare_def Let_def minus_val sgn_if)
qed

lemma comparison_val [bn_simps]:
  assumes "ipp_ok I" "0 \<le> bn_val I a * bn_val I b"
  shows "bn_less I a b \<longleftrightarrow> bn_val I a < bn_val I b"
    "bn_greater I a b \<longleftrightarrow> bn_val I b < bn_val I a"
    "bn_eq I a b \<longleftrightarrow> bn_val I a = bn_val I b"
    "bn_neq I a b \<longleftrightarrow> bn_val I a \<noteq> bn_val I b"
    "bn_le I a b \<longleftrightarrow> bn_val I a \<le> bn_val I b"
    "bn_ge I a b \<longleftrightarrow> bn_val I b \<le> bn_val I a"
  using compare_val [OF assms]
  by (auto simp: bn_less_def bn_greater_def bn_eq_def bn_neq_def bn_le_def bn_ge_def sgn_if)

section \<open>The arithmetic interface\<close>

text \<open>
  What the key and ciphertext classes use of \<open>BigNumber\<close>, as an interface: operations on an
  abstract number type with the integer they stand for. Its laws hold whenever the library
  meets its contract (\<open>ok\<close>).
\<close>

locale bn_arith =
  fixes ok :: "'i \<Rightarrow> bool"
    and val :: "'i \<Rightarrow> 'b \<Rightarrow> int"
    and add sub mul quo rem :: "'i \<Rightarrow> 'b \<Rightarrow> 'b \<Rightarrow> 'b"
    and add_u sub_u :: "'i \<Rightarrow> 'b \<Rightarrow> u32 \<Rightarrow> 'b"
  assumes add_val: "ok I \<Longrightarrow> val I (add I a b) = val I a + val I b"
    and add_u_val: "ok I \<Longrightarrow> val I (add_u I a n) = val I a + int (unat n)"
    and mul_val: "ok I \<Longrightarrow> val I (mul I a b) = val I a * val I b"
    and sub_val: "ok I \<Longrightarrow> 0 \<le> val I a \<Longrightarrow> 0 \<le> val I b \<Longrightarrow> val I (sub I a b) = val I a - val I b"
    and sub_u_val: "ok I \<Longrightarrow> 0 \<le> val I a \<Longrightarrow> val I (sub_u I a n) = val I a - int (unat n)"
    and quo_val: "ok I \<Longrightarrow> val I b \<noteq> 0 \<Longrightarrow> val I (quo I a b) = tdiv (val I a) (val I b)"
    and rem_val: "ok I \<Longrightarrow> 0 < val I b \<Longrightarrow> val I (rem I a b) = val I a mod val I b"
begin

lemma add_rem_val:
  "ok I \<Longrightarrow> 0 < val I m \<Longrightarrow> val I (rem I (add I a b) m) = (val I a + val I b) mod val I m"
  by (simp add: rem_val add_val)

lemma mul_rem_val:
  "ok I \<Longrightarrow> 0 < val I m \<Longrightarrow> val I (rem I (mul I a b) m) = (val I a * val I b) mod val I m"
  by (simp add: rem_val mul_val)

lemma affine_rem_val:
  "ok I \<Longrightarrow> 0 < val I m \<Longrightarrow>
    val I (rem I (add_u I (mul I a b) 1) m) = (val I a * val I b + 1) mod val I m"
  by (simp add: rem_val mul_val add_u_val)

text \<open>The Paillier function \<open>L\<close>, and the recombination of two residues.\<close>

lemma L_val:
  "ok I \<Longrightarrow> 1 \<le> val I a \<Longrightarrow> 0 < val I b \<Longrightarrow>
    val I (quo I (sub_u I a 1) b) = (val I a - 1) div val I b"
  by (simp add: quo_val sub_u_val tdiv_def sgn_if)

lemma crt_val:
  assumes "ok I" "0 \<le> val I mp" "0 \<le> val I mq" "0 < val I q"
  shows "val I (add I mp (mul I (rem I (mul I (sub I mq mp) pinv) q) p))
    = val I mp + ((val I mq - val I mp) * val I pinv mod val I q) * val I p"
  using assms by (simp add: add_val mul_val rem_val sub_val)

end

interpretation bn: bn_arith ipp_ok bn_val bn_plus bn_minus bn_times bn_div bn_mod
  bn_plus_u bn_minus_u
  by unfold_locales (simp_all add: bn_simps)

section \<open>The modular methods\<close>

lemma Modulo_val [bn_simps]:
    "ipp_ok I \<Longrightarrow> 0 < bn_val I m \<Longrightarrow> bn_val I (bn_Modulo I m a) = bn_val I a mod bn_val I m"
  and ModAdd_val [bn_simps]: "ipp_ok I \<Longrightarrow> 0 < bn_val I m \<Longrightarrow>
    bn_val I (bn_ModAdd I m a b) = (bn_val I a + bn_val I b) mod bn_val I m"
  and ModMul_val [bn_simps]: "ipp_ok I \<Longrightarrow> 0 < bn_val I m \<Longrightarrow>
    bn_val I (bn_ModMul I m a b) = (bn_val I a * bn_val I b) mod bn_val I m"
  by (simp_all add: bn_Modulo_def bn_ModAdd_def bn_ModMul_def bn.rem_val bn.add_val
      bn.mul_val)

lemma modular_norm [bn_simps]:
  assumes "ipp_ok I" "0 < bn_val I m"
  shows "bn_norm I (bn_Modulo I m a)" "bn_norm I (bn_ModAdd I m a b)" "bn_norm I (bn_ModMul I m a b)"
  using assms by (simp_all add: bn_Modulo_def bn_ModAdd_def bn_ModMul_def mod_norm)

lemma InverseAdd_val [bn_simps]:
  assumes "ipp_ok I" "0 < bn_val I m"
  shows "bn_val I (bn_InverseAdd I m a) = (- bn_val I a) mod bn_val I m"
  using assms by (simp add: bn_InverseAdd_def Let_def bn_simps zmod_zminus1_eq_if)

lemma ModSub_val [bn_simps]:
  assumes "ipp_ok I" "0 < bn_val I m"
  shows "bn_val I (bn_ModSub I m a b) = (bn_val I a - bn_val I b) mod bn_val I m"
  using assms by (simp add: bn_ModSub_def bn_simps mod_add_right_eq)

lemma InverseMul_val:
  assumes "ipp_ok I" "0 < bn_val I a" "bn_val I a < bn_val I m" "coprime (bn_val I a) (bn_val I m)"
  shows "0 \<le> bn_val I (bn_InverseMul I m a) \<and> bn_val I (bn_InverseMul I m a) < bn_val I m \<and>
    bn_val I a * bn_val I (bn_InverseMul I m a) mod bn_val I m = 1 mod bn_val I m \<and>
    bn_norm I (bn_InverseMul I m a)"
proof -
  obtain v where "0 \<le> v" "v < bn_val I m" "bn_val I a * v mod bn_val I m = 1 mod bn_val I m"
    and "bn_out I (bn_InverseMul I m a) v (BigNumber_copy I m)"
    using assms copy_room [OF assms(1), of m]
    unfolding bn_InverseMul_def ipp_ok_def modinv_ok_def by meson
  then show ?thesis by (simp add: bn_out_def)
qed

lemma gcd_val [bn_simps]:
  assumes "ipp_ok I" "0 < bn_val I a" "0 < bn_val I b"
  shows "bn_val I (bn_gcd I a b) = gcd (bn_val I a) (bn_val I b)"
    and "bn_norm I (bn_gcd I a b)"
proof -
  have "bn_out I (bn_gcd I a b) (gcd (bn_val I a) (bn_val I b)) (BigNumber_copy I a)"
    using assms copy_room [OF assms(1), of a] by (simp add: ipp_ok_def gcd_ok_def bn_gcd_def)
  then show "bn_val I (bn_gcd I a b) = gcd (bn_val I a) (bn_val I b)" "bn_norm I (bn_gcd I a b)"
    by (simp_all add: bn_out_def)
qed

end
