(* ===== verification/BigNumberConv.thy ===== *)
theory BigNumberConv
  imports BigNumber
begin

unbundle bit_operations_syntax

text \<open>
  The queries and conversions of \<open>BigNumber\<close>: bit tests, bit scans and sizes, the word vector,
  hexadecimal output, the constructor from a string, and the serialised form. Each is related
  to the integer the object stands for; printing followed by parsing, and saving followed by
  loading, give the number back.
\<close>

section \<open>Word vector and serialised form\<close>

definition num2vec :: "('b, 'z) ipp_scheme \<Rightarrow> 'b \<Rightarrow> u32 list" where
  "num2vec I this =
     (let bnBitLen = Ref_bits I this; bnData = Ref_data I this; len = BITSIZE_WORD bnBitLen
      in map (\<lambda>n. bnData ! n) [0..<nat len])"

text \<open>The archive holds the word vector and the sign, in this order.\<close>

definition bn_save :: "('b, 'z) ipp_scheme \<Rightarrow> 'b \<Rightarrow> u32 list \<times> IppsBigNumSGN" where
  "bn_save I this = (num2vec I this, Ref_sgn I this)"

definition bn_load :: "('b, 'z) ipp_scheme \<Rightarrow> u32 list \<times> IppsBigNumSGN \<Rightarrow> 'b" where
  "bn_load I ar = (let (vec, sign) = ar in create I (Some vec) (int (length vec)) sign)"

section \<open>Bit tests\<close>

definition IsOdd :: "('b, 'z) ipp_scheme \<Rightarrow> 'b \<Rightarrow> bool" where
  "IsOdd I this \<longleftrightarrow> (Ref_data I this ! 0) AND 1 \<noteq> 0"

definition IsEven :: "('b, 'z) ipp_scheme \<Rightarrow> 'b \<Rightarrow> bool" where
  "IsEven I this \<longleftrightarrow> \<not> IsOdd I this"

text \<open>A negative index shifts by a negative count or reads before the data.\<close>

definition TestBit :: "('b, 'z) ipp_scheme \<Rightarrow> 'b \<Rightarrow> int \<Rightarrow> bool result" where
  "TestBit I this index =
     (if index < 0 then Inl (Undefined ''TestBit: negative index'')
      else let bnIndex = index div 32; shift = index mod 32;
               bnData = Ref_data I this; aBitLen = Ref_bits I this
           in if index > aBitLen then Inr False
              else bindR (vec_at bnData (nat bnIndex)) (\<lambda>w.
                     Inr (drop_bit (nat shift) w AND 1 \<noteq> 0)))"

text \<open>\<open>Bit(v, n)\<close>, a bit of a word vector.\<close>

definition Bit :: "u32 list \<Rightarrow> int \<Rightarrow> int result" where
  "Bit v n =
     (if n < 0 then Inl (Undefined ''Bit: negative index'')
      else bindR (vec_at v (nat (drop_bit 5 n))) (\<lambda>w.
             Inr (if w AND push_bit (nat (n AND 31)) 1 \<noteq> 0 then 1 else 0)))"

section \<open>Bit scans\<close>

text \<open>
  The inner loops run on a nonzero word only; on zero, where the source's loops would not
  end, the functions return their count.
\<close>

function lsb_while :: "u32 \<Rightarrow> int \<Rightarrow> int" where
  "lsb_while x lsb =
     (if x \<noteq> 0 \<and> x AND 1 = 0 then lsb_while (drop_bit 1 x) (lsb + 1) else lsb)"
  by pat_completeness auto
termination
proof (relation "measure (\<lambda>(x, lsb). unat x)")
  fix x :: u32 and lsb :: int
  assume "x \<noteq> 0 \<and> x AND 1 = 0"
  then have "0 < unat x" by (simp add: unat_gt_0)
  then have "unat (drop_bit 1 x) < unat x"
    by (simp only: unat_drop_bit) simp
  then show "((drop_bit 1 x, lsb + 1), x, lsb) \<in> measure (\<lambda>(x, lsb). unat x)"
    by simp
qed simp

fun lsb_loop :: "u32 list \<Rightarrow> int \<Rightarrow> int" where
  "lsb_loop [] lsb = lsb"
| "lsb_loop (x # v) lsb = (if x = 0 then lsb_loop v (lsb + 32) else lsb_while x lsb)"

definition LSB :: "('b, 'z) ipp_scheme \<Rightarrow> 'b \<Rightarrow> int" where
  "LSB I this =
     (if bn_eq I this (BigNumber_Zero I) then 0 else lsb_loop (num2vec I this) 0)"

function msb_while :: "u32 \<Rightarrow> int \<Rightarrow> int" where
  "msb_while x msb =
     (if x \<noteq> 0 \<and> x AND 0x80000000 = 0 then msb_while (push_bit 1 x) (msb - 1) else msb)"
  by pat_completeness auto
termination
proof (relation "measure (\<lambda>(x, msb). 2 ^ 32 - unat x)")
  fix x :: u32 and msb :: int
  assume "x \<noteq> 0 \<and> x AND 0x80000000 = 0"
  then have "0 < unat x" "unat x < 2 ^ 31"
    by (simp_all add: unat_gt_0 top_bit_clear)
  then have "unat x < unat (push_bit 1 x)" "unat x < 2 ^ 32"
    by (simp_all only: unat_push_bit_1) simp_all
  then show "((push_bit 1 x, msb - 1), x, msb) \<in> measure (\<lambda>(x, msb). 2 ^ 32 - unat x)"
    by (simp add: diff_less_mono2)
qed simp

fun msb_loop :: "u32 list \<Rightarrow> int \<Rightarrow> int" where
  "msb_loop [] msb = msb"
| "msb_loop (x # v) msb = (if x = 0 then msb_loop v (msb - 32) else msb_while x msb)"

definition MSB :: "('b, 'z) ipp_scheme \<Rightarrow> 'b \<Rightarrow> int" where
  "MSB I this =
     (if bn_eq I this (BigNumber_Zero I) then 0
      else let v = num2vec I this in msb_loop (rev v) (int (length v) * 32 - 1))"

definition BitSize :: "('b, 'z) ipp_scheme \<Rightarrow> 'b \<Rightarrow> int" where
  "BitSize I this = MSB I this + 1"

definition DwordSize :: "('b, 'z) ipp_scheme \<Rightarrow> 'b \<Rightarrow> int" where
  "DwordSize I this = drop_bit 5 (BitSize I this + 31)"

declare lsb_while.simps [simp del] msb_while.simps [simp del]

section \<open>Hexadecimal output and the constructor from a string\<close>

text \<open>
  The list of the sixteen digits is an argument of what follows, because the accelerator's library
  has a copy of this code with another list.
\<close>

definition HexDigitList :: string where
  "HexDigitList = ''0123456789abcdef''"

definition word_digits :: "string \<Rightarrow> u32 \<Rightarrow> string" where
  "word_digits D x = map (\<lambda>nd. D ! unat (drop_bit ((nd - 1) * 4) x AND 0xF)) (rev [1..<9])"

text \<open>One step of the inner loop: leading zero digits are not appended.\<close>

definition hex_step :: "char \<Rightarrow> bool \<times> string \<Rightarrow> bool \<times> string" where
  "hex_step c st =
     (let (first_no_zero, s) = st
      in if c \<noteq> CHR ''0'' \<or> first_no_zero then (True, s @ [c]) else (first_no_zero, s))"

definition num2hex :: "('b, 'z) ipp_scheme \<Rightarrow> 'b \<Rightarrow> string" where
  "num2hex I this =
     (let bnSgn = Ref_sgn I this; bnBitLen = Ref_bits I this; bnData = Ref_data I this;
          len = nat (BITSIZE_WORD bnBitLen);
          s = (if bnSgn = IppsBigNumNEG then ''-'' else []) @ ''0x'';
          st = fold (\<lambda>n. fold hex_step (word_digits HexDigitList (bnData ! (n - 1)))) (rev [1..<len + 1]) (False, s)
      in snd st)"

text \<open>\<open>strcspn(HexDigitList, c)\<close>: the index of the character, or the length of the list.\<close>

fun strcspn :: "string \<Rightarrow> char \<Rightarrow> nat" where
  "strcspn [] c = 0"
| "strcspn (d # ds) c = (if d = c then 0 else Suc (strcspn ds c))"

text \<open>A C string: the character after the last is the terminator.\<close>

definition cchar :: "string \<Rightarrow> nat \<Rightarrow> char" where
  "cchar s i = (if i < length s then s ! i else CHR 0x00)"

definition str_step :: "('b, 'z) ipp_scheme \<Rightarrow> string \<Rightarrow> u32 \<Rightarrow> char \<Rightarrow> 'b \<Rightarrow> 'b" where
  "str_step I D base c this =
     (let digit = (of_nat (strcspn D c) :: u32)
      in bn_assign I (bn_plus I (bn_times_u I this base) (BigNumber_u32 I digit)))"

text \<open>
  The number of words the constructor asks for depends on the length of the digits; the library
  has no number without words, and leaves the size of the state it is asked for undefined.
\<close>

definition parse_number :: "('b, 'z) ipp_scheme \<Rightarrow> string \<Rightarrow> (string \<Rightarrow> nat) \<Rightarrow> string \<Rightarrow> 'b result" where
  "parse_number I D strlen s0 =
     (let neg = (CHR ''-'' = cchar s0 0);
          s1 = (if neg then drop 1 s0 else s0);
          hex = (CHR ''0'' = cchar s1 0 \<and> (CHR ''x'' = cchar s1 1 \<or> CHR ''X'' = cchar s1 1));
          s2 = (if hex then drop 2 s1 else s1);
          base = (if hex then 0x10 else 10);
          dataLen = (if hex then (strlen s2 + 7) div 8 else (strlen s2 + 9) div 10)
      in if dataLen = 0 then Inl (Undefined ''a number without words'')
         else let this = bn_assign I (BigNumber_Zero I);
                  this = fold (str_step I D base) s2 this
              in Inr (if neg then bn_assign I (bn_minus I (BigNumber_Zero I) this) else this))"

definition BigNumber_str :: "('b, 'z) ipp_scheme \<Rightarrow> string \<Rightarrow> 'b result" where
  "BigNumber_str I s0 = parse_number I HexDigitList length s0"

section \<open>The word vector\<close>

lemma num2vec_take: "ipp_ok I \<Longrightarrow> num2vec I x = take (bn_nw I x) (Ref_data I x)"
  using bn_data_length [of I x] by (simp add: num2vec_def Let_def bn_nw_def list_eq_iff_nth_eq)

lemma length_num2vec: "ipp_ok I \<Longrightarrow> length (num2vec I x) = bn_nw I x"
  by (simp add: num2vec_take bn_data_length min_absorb2)

lemma words_val_num2vec: "ipp_ok I \<Longrightarrow> words_val (num2vec I x) = bn_mag I x"
  by (simp add: num2vec_take bn_mag_def)

lemma load_save:
  assumes "ipp_ok I"
  shows "bn_val I (bn_load I (bn_save I x)) = bn_val I x" "bn_norm I (bn_load I (bn_save I x))"
proof -
  have "1 \<le> int (length (num2vec I x))"
    using bn_nw_pos [OF assms, of x] by (simp add: length_num2vec [OF assms])
  then show "bn_val I (bn_load I (bn_save I x)) = bn_val I x" "bn_norm I (bn_load I (bn_save I x))"
    using create_Some [OF assms, of "int (length (num2vec I x))" "num2vec I x" "Ref_sgn I x"]
    by (simp_all add: bn_load_def bn_save_def words_val_num2vec [OF assms] signed_bn_mag)
qed

section \<open>Parity and bit tests\<close>

lemma odd_words_val: "ws \<noteq> [] \<Longrightarrow> odd (words_val ws) \<longleftrightarrow> odd (unat (ws ! 0))"
  by (cases ws) simp_all

lemma IsOdd_val:
  assumes "ipp_ok I"
  shows "IsOdd I x \<longleftrightarrow> odd (bn_val I x)"
proof -
  let ?ws = "take (bn_nw I x) (Ref_data I x)"
  have "?ws \<noteq> []" "?ws ! 0 = Ref_data I x ! 0"
    using bn_nw_pos [OF assms, of x] bn_data_length [OF assms, of x] by auto
  then have "IsOdd I x \<longleftrightarrow> odd (bn_mag I x)"
    using odd_words_val [of ?ws] by (simp add: IsOdd_def unat_and_1 bn_mag_def)
  also have "\<dots> \<longleftrightarrow> odd \<bar>bn_val I x\<bar>" by (simp add: abs_bn_val)
  finally show ?thesis by simp
qed

lemma drop_bit_and_1: "drop_bit s (w :: u32) AND 1 \<noteq> 0 \<longleftrightarrow> bit w s"
  by (simp add: bit_iff_odd_drop_bit and_one_eq even_iff_mod_2_eq_zero)

lemma div_32_less:
  assumes "i \<le> b" "i \<noteq> b \<or> \<not> 32 dvd (i :: int)"
  shows "i div 32 < (b + 31) div 32"
proof (cases "i = b")
  case True
  then have "0 < b mod 32"
    using assms(2) by (simp add: order_less_le dvd_eq_mod_eq_0)
  then have "b div 32 < (b + 31) div 32" by presburger
  then show ?thesis using True by simp
next
  case False
  then have "i + 32 \<le> b + 31" using assms(1) by simp
  then have "(i + 32) div 32 \<le> (b + 31) div 32" by (rule zdiv_mono1) simp
  then show ?thesis by simp
qed

lemma TestBit_val:
  assumes ok: "ipp_ok I" and i: "0 \<le> i" "i \<noteq> Ref_bits I x \<or> \<not> 32 dvd i"
  shows "TestBit I x i = Inr (odd (bn_mag I x div 2 ^ nat i))"
proof (cases "i > Ref_bits I x")
  case True
  then have "nat (Ref_bits I x) \<le> nat i" by simp
  then have "bn_mag I x < 2 ^ nat i"
    using bn_mag_bits [OF ok, of x] by (meson order_less_le_trans power_increasing one_le_numeral)
  with True i show ?thesis by (simp add: TestBit_def)
next
  case False
  let ?ws = "take (bn_nw I x) (Ref_data I x)"
  have "i div 32 < BITSIZE_WORD (Ref_bits I x)"
    using div_32_less [of i "Ref_bits I x"] False i by (simp add: BITSIZE_WORD_div)
  moreover have "int (nat i div 32) = i div 32"
    using i(1) by (simp add: zdiv_int)
  ultimately have k: "nat i div 32 < length ?ws"
    using bn_data_length [OF ok, of x] int_bn_nw [OF ok, of x] by simp
  have "TestBit I x i = Inr (bit (Ref_data I x ! (nat i div 32)) (nat i mod 32))"
    using False i(1) k by (simp add: TestBit_def Let_def drop_bit_and_1 nat_div_distrib nat_mod_distrib)
  also have "\<dots> = Inr (bit (?ws ! (nat i div 32)) (nat i mod 32))"
    using k by simp
  also have "\<dots> = Inr (odd (bn_mag I x div 2 ^ nat i))"
    using k by (simp add: bn_mag_def bit_words_val)
  finally show ?thesis .
qed

section \<open>Bit scans\<close>

lemma lsb_while_val:
  "x \<noteq> 0 \<Longrightarrow> \<exists>k. lsb_while x l = l + int k \<and> 2 ^ k dvd unat x \<and> odd (unat x div 2 ^ k)"
proof (induction x l rule: lsb_while.induct)
  case (1 x l)
  show ?case
  proof (cases "x AND 1 = 0")
    case True
    then obtain y where y: "unat x = 2 * y" by (auto simp: unat_and_1)
    have d: "unat (drop_bit 1 x) = y" by (simp only: unat_drop_bit y) simp
    have "drop_bit 1 x \<noteq> 0"
      using d y 1(2) by (metis mult_0_right unat_0 unat_eq_zero)
    then obtain k where k: "lsb_while (drop_bit 1 x) (l + 1) = l + 1 + int k"
      "2 ^ k dvd y" "odd (y div 2 ^ k)"
      using 1 True d by auto
    then have "lsb_while x l = l + int (Suc k) \<and> 2 ^ Suc k dvd unat x \<and> odd (unat x div 2 ^ Suc k)"
      using 1(2) True y by (simp add: lsb_while.simps [of x])
    then show ?thesis by blast
  next
    case False
    then have "lsb_while x l = l + int 0 \<and> 2 ^ 0 dvd unat x \<and> odd (unat x div 2 ^ 0)"
      by (simp add: lsb_while.simps [of x] unat_and_1)
    then show ?thesis by blast
  qed
qed

lemma lsb_loop_val:
  "words_val ws \<noteq> 0 \<Longrightarrow>
    \<exists>k. lsb_loop ws l = l + int k \<and> 2 ^ k dvd words_val ws \<and> odd (words_val ws div 2 ^ k)"
proof (induction ws arbitrary: l)
  case Nil
  then show ?case by simp
next
  case (Cons w ws)
  show ?case
  proof (cases "w = 0")
    case True
    with Cons obtain k where "lsb_loop ws (l + 32) = l + 32 + int k"
      "2 ^ k dvd words_val ws" "odd (words_val ws div 2 ^ k)"
      by (metis add_0 mult_0_right unat_0 words_val.simps(2))
    with True have "lsb_loop (w # ws) l = l + int (32 + k) \<and> 2 ^ (32 + k) dvd words_val (w # ws)
        \<and> odd (words_val (w # ws) div 2 ^ (32 + k))"
      by (simp add: power_add del: power_numeral)
    then show ?thesis by blast
  next
    case False
    then obtain k where k: "lsb_while w l = l + int k" "2 ^ k dvd unat w" "odd (unat w div 2 ^ k)"
      using lsb_while_val by blast
    have k32: "k < 32"
    proof (rule ccontr)
      assume "\<not> k < 32"
      then have "(2::nat) ^ 32 \<le> 2 ^ k" by (intro power_increasing) simp_all
      then have "4294967296 \<le> (2::nat) ^ k" by simp
      then have "unat w < 2 ^ k" by (rule order_less_le_trans [OF unat_u32_lt])
      then have "unat w div 2 ^ k = 0" by simp
      with k(3) show False by simp
    qed
    then have "(2::nat) ^ k dvd 2 ^ 32 * words_val ws"
      by (simp add: le_imp_power_dvd dvd_mult2 del: power_numeral)
    with k have "2 ^ k dvd words_val (w # ws)" by (simp del: power_numeral)
    moreover have "odd (words_val (w # ws) div 2 ^ k)"
      using k(3) k32 by (simp add: bit_words_cons del: power_numeral)
    ultimately show ?thesis using False k(1) by (intro exI [of _ k]) simp
  qed
qed

lemma bn_mag_0_iff: "bn_mag I x = 0 \<longleftrightarrow> bn_val I x = 0"
  using abs_bn_val [of I x] by auto

lemma eq_Zero: "ipp_ok I \<Longrightarrow> bn_eq I x (BigNumber_Zero I) \<longleftrightarrow> bn_val I x = 0"
  by (simp add: bn_simps)

lemma LSB_val:
  assumes ok: "ipp_ok I" and nz: "bn_val I x \<noteq> 0"
  obtains k where "LSB I x = int k" "2 ^ k dvd bn_mag I x" "odd (bn_mag I x div 2 ^ k)"
proof -
  have "words_val (num2vec I x) \<noteq> 0"
    using nz by (simp add: words_val_num2vec [OF ok] bn_mag_0_iff)
  from lsb_loop_val [OF this, of 0] show ?thesis
    using that nz by (auto simp: LSB_def eq_Zero [OF ok] words_val_num2vec [OF ok])
qed

lemma msb_while_val:
  "x \<noteq> 0 \<Longrightarrow> \<exists>k \<le> 31. msb_while x m = m - int k \<and> 2 ^ (31 - k) \<le> unat x \<and> unat x < 2 ^ (32 - k)"
proof (induction x m rule: msb_while.induct)
  case (1 x m)
  have pos: "0 < unat x" using 1(2) by (simp add: unat_gt_0)
  show ?case
  proof (cases "unat x < 2 ^ 31")
    case True
    let ?y = "push_bit 1 x"
    have y: "unat ?y = 2 * unat x" by (rule unat_push_bit_1 [OF True])
    then have "?y \<noteq> 0" using pos by (metis mult_eq_0_iff not_gr_zero unat_0 zero_neq_numeral)
    moreover have clear: "x \<noteq> 0 \<and> x AND 0x80000000 = 0"
      using True 1(2) by (simp only: top_bit_clear) simp
    ultimately obtain k where k: "k \<le> 31" "msb_while ?y (m - 1) = m - 1 - int k"
      "2 ^ (31 - k) \<le> unat ?y" "unat ?y < 2 ^ (32 - k)"
      using 1(1) by blast
    have "k < 31"
    proof (rule ccontr)
      assume "\<not> k < 31"
      with k(1) have "k = 31" by simp
      with k(4) y pos show False by simp
    qed
    then have e: "31 - k = Suc (31 - Suc k)" "32 - k = Suc (32 - Suc k)" by simp_all
    have "2 ^ (31 - Suc k) \<le> unat x" "unat x < 2 ^ (32 - Suc k)"
      using k(3,4) by (simp_all only: y e power_Suc)
    moreover have "msb_while x m = m - int (Suc k)"
      using clear k(2) by (subst msb_while.simps) simp
    ultimately show ?thesis using \<open>k < 31\<close> by (intro exI [of _ "Suc k"]) simp
  next
    case False
    then have "\<not> (x \<noteq> 0 \<and> x AND 0x80000000 = 0)" by (simp only: top_bit_clear) simp
    then have "msb_while x m = m" by (subst msb_while.simps) (rule if_not_P)
    then show ?thesis using False unat_u32_lt [of x] by (intro exI [of _ 0]) simp
  qed
qed

lemma msb_loop_val:
  "words_val (rev ws) \<noteq> 0 \<Longrightarrow>
    \<exists>k. msb_loop ws (int (length ws) * 32 - 1) = int k \<and>
        2 ^ k \<le> words_val (rev ws) \<and> words_val (rev ws) < 2 ^ Suc k"
proof (induction ws)
  case Nil
  then show ?case by simp
next
  case (Cons w ws)
  have v: "words_val (rev (w # ws)) = words_val (rev ws) + 2 ^ (32 * length ws) * unat w"
    by (simp add: words_val_append)
  show ?case
  proof (cases "w = 0")
    case True
    with v Cons show ?thesis by (simp add: algebra_simps)
  next
    case False
    let ?n = "32 * length ws"
    from False obtain j where j: "j \<le> 31" "2 ^ (31 - j) \<le> unat w" "unat w < 2 ^ (32 - j)"
      and m: "msb_while w (int (length (w # ws)) * 32 - 1) = int (length (w # ws)) * 32 - 1 - int j"
      using msb_while_val by blast
    let ?k = "?n + (31 - j)"
    have "2 ^ ?k \<le> 2 ^ ?n * unat w"
      using j(2) by (simp add: power_add)
    then have lo: "2 ^ ?k \<le> words_val (rev ws) + 2 ^ ?n * unat w" by (rule trans_le_add2)
    have "words_val (rev ws) + 2 ^ ?n * unat w < 2 ^ ?n * (unat w + 1)"
      using words_val_bound [of "rev ws"] by simp
    also have "\<dots> \<le> 2 ^ ?n * 2 ^ (32 - j)"
      using j(3) by (intro mult_le_mono2) simp
    also have "\<dots> = 2 ^ Suc ?k"
      using j(1) by (simp add: power_add [symmetric] Suc_diff_le [symmetric])
    finally have hi: "words_val (rev ws) + 2 ^ ?n * unat w < 2 ^ Suc ?k" .
    have "msb_loop (w # ws) (int (length (w # ws)) * 32 - 1) = int ?k"
      using False m j(1) by (simp add: of_nat_diff)
    then show ?thesis unfolding v using lo hi by blast
  qed
qed

lemma MSB_val:
  assumes ok: "ipp_ok I" and nz: "bn_val I x \<noteq> 0"
  obtains k where "MSB I x = int k" "2 ^ k \<le> bn_mag I x" "bn_mag I x < 2 ^ Suc k"
proof -
  let ?v = "num2vec I x"
  have "words_val (rev (rev ?v)) \<noteq> 0"
    using nz by (simp add: words_val_num2vec [OF ok] bn_mag_0_iff)
  from msb_loop_val [OF this] show ?thesis
    using that nz by (auto simp: MSB_def Let_def eq_Zero [OF ok] words_val_num2vec [OF ok])
qed

lemma BitSize_val:
  assumes ok: "ipp_ok I" and nz: "bn_val I x \<noteq> 0"
  shows "BitSize I x = int (nat_bits (bn_mag I x))"
proof -
  obtain k where k: "MSB I x = int k" "2 ^ k \<le> bn_mag I x" "bn_mag I x < 2 ^ Suc k"
    using MSB_val [OF ok nz] .
  have pos: "0 < bn_mag I x" using nz by (metis bn_mag_0_iff gr0I)
  let ?b = "nat_bits (bn_mag I x) - 1"
  have b: "nat_bits (bn_mag I x) = Suc ?b" using nat_bits_pos [OF pos] by simp
  have "k = ?b"
  proof (rule bit_length_unique [OF k(2,3)])
    show "2 ^ ?b \<le> bn_mag I x" by (rule nat_bits_lower [OF pos])
    show "bn_mag I x < 2 ^ Suc ?b" using nat_bits_upper [of "bn_mag I x"] b by simp
  qed
  then show ?thesis using k(1) b by (simp add: BitSize_def)
qed

lemma BitSize_0: "ipp_ok I \<Longrightarrow> bn_val I x = 0 \<Longrightarrow> BitSize I x = 1"
  by (simp add: BitSize_def MSB_def eq_Zero)

section \<open>Hexadecimal digits\<close>

definition digit_list :: "string \<Rightarrow> bool" where
  "digit_list D \<longleftrightarrow> length D = 16 \<and> distinct D \<and> D ! 0 = CHR ''0''"

lemma HexDigitList_ok: "digit_list HexDigitList"
  by (simp add: digit_list_def HexDigitList_def)

lemma strcspn_nth: "distinct D \<Longrightarrow> d < length D \<Longrightarrow> strcspn D (D ! d) = d"
proof (induction D arbitrary: d)
  case (Cons c D)
  then show ?case by (cases d) auto
qed simp

lemma strcspn_le: "strcspn ds c \<le> length ds"
  by (induction ds) simp_all

lemma strcspn_0: "digit_list D \<Longrightarrow> strcspn D c = 0 \<longleftrightarrow> c = CHR ''0''"
  by (cases D) (auto simp: digit_list_def)

lemma unat_and_15: "unat (w AND 15 :: u32) = unat w mod 16"
proof -
  have "(15 :: u32) = mask 4" by (simp add: mask_eq_exp_minus_1)
  then have "w AND 15 = take_bit 4 w" by (simp add: take_bit_eq_mask)
  then show ?thesis
    by (simp add: unsigned_take_bit_eq take_bit_eq_mod [of 4 "unat w"])
qed

lemma word_digit: "D ! unat (drop_bit k w AND 0xF) = D ! (unat (w :: u32) div 2 ^ k mod 16)"
  by (simp add: unat_and_15 unat_drop_bit del: drop_bit_eq_div)

text \<open>Reading digits from the left.\<close>

definition horner :: "string \<Rightarrow> int \<Rightarrow> string \<Rightarrow> int \<Rightarrow> int" where
  "horner D base s v = fold (\<lambda>c v. v * base + int (strcspn D c)) s v"

lemma horner_append: "horner D base (s @ t) v = horner D base t (horner D base s v)"
  by (simp add: horner_def)

lemma horner_Cons: "horner D base (c # s) v = horner D base s (v * base + int (strcspn D c))"
  by (simp add: horner_def)

lemma horner_Nil [simp]: "horner D base [] v = v"
  by (simp add: horner_def)

lemma horner_grows: "1 \<le> base \<Longrightarrow> 0 \<le> v \<Longrightarrow> v \<le> horner D base s v"
proof (induction s arbitrary: v)
  case (Cons c s)
  have "v * 1 \<le> v * base" using Cons.prems by (intro mult_left_mono)
  then have "v \<le> v * base + int (strcspn D c)" by simp
  then show ?case using Cons.IH [of "v * base + int (strcspn D c)"] Cons.prems by (simp add: horner_Cons)
qed simp

fun nibbles :: "string \<Rightarrow> nat \<Rightarrow> nat \<Rightarrow> string" where
  "nibbles D 0 x = []"
| "nibbles D (Suc k) x = D ! (x div 16 ^ k mod 16) # nibbles D k x"

lemma horner_nibbles: "digit_list D \<Longrightarrow> horner D 16 (nibbles D k x) v = v * 16 ^ k + int (x mod 16 ^ k)"
proof (induction k arbitrary: v)
  case 0
  then show ?case by simp
next
  case (Suc k)
  have "x mod 16 ^ Suc k = 16 ^ k * (x div 16 ^ k mod 16) + x mod 16 ^ k"
    by (metis mod_mult2_eq mult.commute power_Suc)
  then show ?case
    using strcspn_nth [of D "x div 16 ^ k mod 16"] Suc.prems
    by (simp add: Suc horner_Cons algebra_simps digit_list_def)
qed

lemma nibbles_map: "nibbles D k x = map (\<lambda>j. D ! (x div 16 ^ j mod 16)) (rev [0..<k])"
  by (induction k) simp_all

lemma word_digits_nibbles: "word_digits D w = nibbles D 8 (unat w)"
proof -
  have e: "rev [1..<9] = map Suc (rev [0..<8])" by code_simp
  have p: "(16::nat) ^ k = 2 ^ (k * 4)" for k
    by (simp add: power_mult mult.commute [of k])
  show ?thesis
    unfolding word_digits_def e nibbles_map map_map
    by (rule map_cong [OF refl]) (simp only: o_apply diff_Suc_1 word_digit p)
qed

lemma horner_word_digits: "digit_list D \<Longrightarrow> horner D 16 (word_digits D w) v = v * 2 ^ 32 + int (unat w)"
  using unat_u32_lt [of w] by (simp add: word_digits_nibbles horner_nibbles)

lemma horner_words:
  assumes "digit_list D"
  shows "horner D 16 (concat (map (word_digits D) ws)) v = v * 2 ^ (32 * length ws) + int (words_val (rev ws))"
proof (induction ws arbitrary: v)
  case Nil
  then show ?case by simp
next
  case (Cons w ws)
  let ?n = "32 * length ws"
  have "horner D 16 (concat (map (word_digits D) (w # ws))) v
      = (v * 2 ^ 32 + int (unat w)) * 2 ^ ?n + int (words_val (rev ws))"
    by (simp only: list.map concat.simps horner_append horner_word_digits [OF assms] Cons.IH)
  also have "\<dots> = v * 2 ^ (32 + ?n) + int (words_val (rev ws) + 2 ^ ?n * unat w)"
    unfolding power_add of_nat_add of_nat_mult of_nat_power of_nat_numeral
    by (simp only: distrib_right mult.assoc) (simp only: mult.commute add.assoc add.commute)
  also have "words_val (rev ws) + 2 ^ ?n * unat w = words_val (rev (w # ws))"
    by (simp add: words_val_append)
  finally show ?case by simp
qed

section \<open>Printing and parsing\<close>

lemma hex_step_simps:
  "hex_step c (True, s) = (True, s @ [c])"
  "hex_step c (False, s) = (if c = CHR ''0'' then (False, s) else (True, s @ [c]))"
  by (simp_all add: hex_step_def)

lemma hex_steps_True: "fold hex_step ds (True, s) = (True, s @ ds)"
  by (induction ds arbitrary: s) (simp_all add: hex_step_simps)

lemma hex_steps_False: "snd (fold hex_step ds (False, s)) = s @ dropWhile (\<lambda>c. c = CHR ''0'') ds"
  by (induction ds) (simp_all add: hex_step_simps hex_steps_True)

lemma fold_hex_words:
  "fold (\<lambda>n. fold hex_step (word_digits D (f n))) ns st
    = fold hex_step (concat (map (\<lambda>n. word_digits D (f n)) ns)) st"
  by (induction ns arbitrary: st) simp_all

lemma num2vec_digits:
  "map (\<lambda>n. word_digits D (Ref_data I x ! (n - 1))) (rev [1..<nat (BITSIZE_WORD (Ref_bits I x)) + 1])
    = map (word_digits D) (rev (num2vec I x))"
  by (simp add: num2vec_def Let_def rev_map [symmetric] map_Suc_upt [symmetric] del: upt_Suc)

lemma num2hex_eq:
  "num2hex I x = (if Ref_sgn I x = IppsBigNumNEG then ''-'' else []) @ ''0x'' @
    dropWhile (\<lambda>c. c = CHR ''0'') (concat (map (word_digits HexDigitList) (rev (num2vec I x))))"
  using num2vec_digits [of HexDigitList I x] by (simp add: num2hex_def Let_def fold_hex_words hex_steps_False del: upt_Suc)

lemma horner_dropWhile_0:
  assumes "digit_list D"
  shows "horner D base (dropWhile (\<lambda>c. c = CHR ''0'') ds) 0 = horner D base ds 0"
proof (induction ds)
  case (Cons d ds)
  then show ?case using strcspn_0 [OF assms, of "CHR ''0''"] by (simp add: horner_Cons)
qed simp

text \<open>Without leading zeros, only the number zero has no digit.\<close>

lemma horner_stripped_0:
  assumes "digit_list D" "1 \<le> base"
  shows "horner D base (dropWhile (\<lambda>c. c = CHR ''0'') ds) 0 = 0 \<longleftrightarrow> dropWhile (\<lambda>c. c = CHR ''0'') ds = []"
proof (cases "dropWhile (\<lambda>c. c = CHR ''0'') ds")
  case (Cons c cs)
  then have "strcspn D c \<noteq> 0" using strcspn_0 [OF assms(1)] hd_dropWhile [of "\<lambda>c. c = CHR ''0''" ds] by force
  then show ?thesis using Cons horner_grows [OF assms(2), of "int (strcspn D c)" D cs] by (simp add: horner_Cons)
qed (simp del: dropWhile_eq_Nil_conv)

lemma str_step_val:
  assumes "ipp_ok I" "length D \<le> 16"
  shows "bn_val I (str_step I D base c x) = bn_val I x * int (unat base) + int (strcspn D c)"
    and "bn_norm I (str_step I D base c x)"
proof -
  have "strcspn D c \<le> 16" using strcspn_le [of D c] assms(2) by simp
  then have "unat (of_nat (strcspn D c) :: u32) = strcspn D c"
    by (simp add: unat_of_nat)
  then have "int (unat (of_nat (strcspn D c) :: u32)) = int (strcspn D c)"
    by (rule arg_cong)
  then show "bn_val I (str_step I D base c x) = bn_val I x * int (unat base) + int (strcspn D c)"
    unfolding str_step_def Let_def bn_assign_copy copy_val [OF assms(1)] plus_val [OF assms(1)]
      times_u_val [OF assms(1)] u32_val [OF assms(1)] by (rule arg_cong)
  show "bn_norm I (str_step I D base c x)"
    by (simp add: str_step_def bn_assign_copy copy_norm assms)
qed

lemma str_steps_val:
  "ipp_ok I \<Longrightarrow> length D \<le> 16 \<Longrightarrow> bn_val I (fold (str_step I D base) s x) = horner D (int (unat base)) s (bn_val I x)"
  by (induction s arbitrary: x) (simp_all only: fold_simps o_apply id_apply horner_Cons horner_Nil str_step_val)

lemma parse_unsigned:
  assumes ok: "ipp_ok I" "length D \<le> 16" "strlen s \<noteq> 0" and s: "cchar s 0 \<noteq> CHR ''-''"
    "\<not> (cchar s 0 = CHR ''0'' \<and> (cchar s 1 = CHR ''x'' \<or> cchar s 1 = CHR ''X''))"
  shows "\<exists>y. parse_number I D strlen s = Inr y \<and> bn_val I y = horner D 10 s 0"
proof -
  have "0 < (strlen s + 9) div 10" using ok(3) by (simp add: div_greater_zero_iff)
  then show ?thesis
    using s str_steps_val [OF ok(1,2), of 10 s "bn_assign I (BigNumber_Zero I)"]
    by (auto simp: parse_number_def Let_def bn_assign_copy bn_simps ok)
qed

lemma parse_hex:
  assumes ok: "ipp_ok I" "length D \<le> 16" "strlen ds \<noteq> 0"
  shows "\<exists>y. parse_number I D strlen (''0x'' @ ds) = Inr y \<and> bn_val I y = horner D 16 ds 0"
    and "\<exists>y. parse_number I D strlen (''-0x'' @ ds) = Inr y \<and> bn_val I y = - horner D 16 ds 0"
proof -
  have "0 < (strlen ds + 7) div 8" using ok(3) by (simp add: div_greater_zero_iff)
  then show "\<exists>y. parse_number I D strlen (''0x'' @ ds) = Inr y \<and> bn_val I y = horner D 16 ds 0"
    "\<exists>y. parse_number I D strlen (''-0x'' @ ds) = Inr y \<and> bn_val I y = - horner D 16 ds 0"
    using str_steps_val [OF ok(1,2), of 16 ds "bn_assign I (BigNumber_Zero I)"]
    by (simp_all add: parse_number_def Let_def cchar_def bn_assign_copy bn_simps ok)
qed

lemma parse_no_digits:
  assumes "strlen [] = 0"
  shows "parse_number I D strlen ''0x'' = Inl (Undefined ''a number without words'')"
    "parse_number I D strlen ''-0x'' = Inl (Undefined ''a number without words'')"
    "parse_number I D strlen [] = Inl (Undefined ''a number without words'')"
  using assms by (simp_all add: parse_number_def Let_def cchar_def)

lemma str_num2hex:
  assumes ok: "ipp_ok I"
  shows "if bn_val I x = 0 then BigNumber_str I (num2hex I x) = Inl (Undefined ''a number without words'')
    else \<exists>y. BigNumber_str I (num2hex I x) = Inr y \<and> bn_val I y = bn_val I x"
proof -
  let ?ds = "dropWhile (\<lambda>c. c = CHR ''0'') (concat (map (word_digits HexDigitList) (rev (num2vec I x))))"
  have h: "horner HexDigitList 16 ?ds 0 = int (bn_mag I x)"
    by (simp add: horner_dropWhile_0 horner_words HexDigitList_ok words_val_num2vec [OF ok])
  then have e: "?ds = [] \<longleftrightarrow> bn_mag I x = 0" using horner_stripped_0 [OF HexDigitList_ok, of 16 "concat (map (word_digits HexDigitList) (rev (num2vec I x)))"]
    by (simp del: dropWhile_eq_Nil_conv)
  have z: "bn_val I x = 0 \<longleftrightarrow> bn_mag I x = 0" using abs_bn_val [of I x] by auto
  have l: "length HexDigitList \<le> 16" using HexDigitList_ok by (simp add: digit_list_def)
  show ?thesis
  proof (cases "bn_val I x = 0")
    case True
    then have "?ds = []" by (simp only: e z)
    then have "num2hex I x \<in> {''0x'', ''-0x''}" unfolding num2hex_eq by (simp del: dropWhile_eq_Nil_conv)
    then show ?thesis using True parse_no_digits [of length I HexDigitList] by (auto simp: BigNumber_str_def)
  next
    case False
    then have "length ?ds \<noteq> 0" by (simp only: e z length_0_conv simp_thms)
    from parse_hex [of I HexDigitList length, OF ok l this] h show ?thesis
      using False by (cases "Ref_sgn I x") (simp_all add: num2hex_eq BigNumber_str_def bn_val_def)
  qed
qed

text \<open>Decimal notation.\<close>

definition is_digit :: "char \<Rightarrow> bool" where
  "is_digit c \<longleftrightarrow> 48 \<le> (of_char c :: nat) \<and> (of_char c :: nat) \<le> 57"

definition dec_val :: "string \<Rightarrow> int" where
  "dec_val s = foldl (\<lambda>v c. 10 * v + (of_char c - 48)) 0 s"

lemma strcspn_digit: "is_digit c \<Longrightarrow> int (strcspn HexDigitList c) = of_char c - 48"
proof -
  have "c = char_of (of_char c :: nat)" by simp
  moreover have "\<forall>k \<in> {48..<58::nat}. int (strcspn HexDigitList (char_of k)) = int k - 48"
    by code_simp
  moreover assume "is_digit c"
  then have "(of_char c :: nat) \<in> {48..<58}" by (simp add: is_digit_def)
  ultimately have "int (strcspn HexDigitList c) = int (of_char c) - 48" by metis
  then show ?thesis by (simp add: of_nat_of_char)
qed

lemma horner_10_digits:
  "list_all is_digit s \<Longrightarrow> horner HexDigitList 10 s v = foldl (\<lambda>v c. 10 * v + (of_char c - 48)) v s"
  by (induction s arbitrary: v) (simp_all add: horner_Cons strcspn_digit algebra_simps)

lemma digit_not_sign: "is_digit c \<Longrightarrow> c \<noteq> CHR ''-'' \<and> c \<noteq> CHR ''x'' \<and> c \<noteq> CHR ''X''"
  by (auto simp: is_digit_def)

lemma BigNumber_str_decimal:
  assumes ok: "ipp_ok I" and s: "s \<noteq> []" "list_all is_digit s"
  shows "\<exists>y. BigNumber_str I s = Inr y \<and> bn_val I y = dec_val s"
proof -
  have "is_digit (cchar s 0)" and c: "cchar s 1 = CHR 0x00 \<or> is_digit (cchar s 1)"
    using s by (auto simp: cchar_def list_all_length)
  then have "cchar s 0 \<noteq> CHR ''-''" "\<not> (cchar s 0 = CHR ''0'' \<and> (cchar s 1 = CHR ''x'' \<or> cchar s 1 = CHR ''X''))"
    using digit_not_sign by auto
  then show ?thesis
    using parse_unsigned [OF ok, of HexDigitList length s] s(1) HexDigitList_ok
    by (simp add: BigNumber_str_def horner_10_digits [OF s(2)] dec_val_def digit_list_def)
qed

end
