(* ===== verification/Util.thy ===== *)
theory Util
  imports Prelude
begin

text \<open>
  The constants of \<open>src/ipcl/include/ipcl/utils/util.hpp\<close>: the build configuration, what the
  processor offers, and what follows from both, the choice of the random generator and the
  share of threads a parallel loop gets.
\<close>

section \<open>Configuration\<close>

text \<open>
  The preprocessor symbols the code branches on (\<open>IPCL_USE_QAT\<close>, \<open>IPCL_USE_OMP\<close>,
  \<open>IPCL_RUNTIME_DETECT_CPU_FEATURES\<close>, \<open>IPCL_CRYPTO_MB_MOD_EXP\<close>, \<open>IPCL_RNG_INSTR_RDSEED\<close>,
  \<open>IPCL_RNG_INSTR_RDRAND\<close>, \<open>IPCL_NUM_NODES\<close>, \<open>IPCL_NUM_THREADS\<close>), the processor features that
  are read at run time, and whether the three environment variables are set.
\<close>

record config =
  use_qat :: bool
  use_omp :: bool
  runtime_detect :: bool
  crypto_mb :: bool
  rng_instr_rdseed :: bool
  rng_instr_rdrand :: bool
  num_nodes :: int
  num_threads :: "int option"
  feat_avx512ifma :: bool
  feat_rdseed :: bool
  feat_rdrnd :: bool
  disable_avx512ifma :: bool
  prefer_rdrand :: bool
  prefer_ipp_prng :: bool
  hardware_concurrency :: int

datatype RNGenType = RDSEED | RDRAND | PSEUDO

definition has_avx512ifma :: "config \<Rightarrow> bool" where
  "has_avx512ifma C \<longleftrightarrow> feat_avx512ifma C \<and> \<not> disable_avx512ifma C"

definition use_rdseed :: "config \<Rightarrow> bool" where
  "use_rdseed C \<longleftrightarrow> feat_rdseed C \<and> \<not> prefer_rdrand C \<and> \<not> prefer_ipp_prng C"

definition use_rdrand :: "config \<Rightarrow> bool" where
  "use_rdrand C \<longleftrightarrow> feat_rdrnd C \<and> prefer_rdrand C"

definition kRNGenType :: "config \<Rightarrow> RNGenType" where
  "kRNGenType C =
     (if runtime_detect C then
        (if use_rdseed C then RDSEED else if use_rdrand C then RDRAND else PSEUDO)
      else if rng_instr_rdseed C then RDSEED
      else if rng_instr_rdrand C then RDRAND
      else PSEUDO)"

section \<open>Threads\<close>

text \<open>The second component is the argument passed by reference. The numbers are far from the
  limits of \<open>int\<close>.\<close>

definition assignOMPThreads :: "int \<Rightarrow> int \<Rightarrow> int \<times> int" where
  "assignOMPThreads remaining_threads requested_threads =
     (let retval = (if requested_threads > 0 then requested_threads else 1);
          retval = (if retval > remaining_threads then remaining_threads else retval)
      in if retval > 1 then (retval, remaining_threads - retval) else (1, remaining_threads))"

text \<open>The number of nodes read from \<open>/proc/cpuinfo\<close> is an argument.\<close>

definition getNodes :: "config \<Rightarrow> int \<Rightarrow> int" where
  "getNodes C cpuinfo_nodes = (if runtime_detect C then cpuinfo_nodes else num_nodes C)"

definition getMaxThreads :: "config \<Rightarrow> int \<Rightarrow> int result" where
  "getMaxThreads C cpuinfo_nodes =
     (case num_threads C of Some n \<Rightarrow> Inr n
      | None \<Rightarrow> (let nodes = getNodes C cpuinfo_nodes; cpus = hardware_concurrency C
                 in if nodes = 0 then Inl (Undefined ''division by zero'')
                    else Inr (sgn cpus * sgn nodes * (\<bar>cpus\<bar> div \<bar>nodes\<bar>))))"

text \<open>A loop always gets a thread, and no more than are left; what is left never gets negative.\<close>

lemma assignOMPThreads_bounds:
  assumes "assignOMPThreads rem req = (n, rem')"
  shows "1 \<le> n" "n \<le> max 1 rem" "n \<le> max 1 req" "rem' = (if 1 < n then rem - n else rem)"
    "0 \<le> rem \<Longrightarrow> 0 \<le> rem'"
  using assms by (auto simp: assignOMPThreads_def Let_def split: if_splits)

text \<open>A sequence of requests.\<close>

fun assign_all :: "int \<Rightarrow> int list \<Rightarrow> int list" where
  "assign_all rem [] = []"
| "assign_all rem (req # reqs) = (let (n, rem') = assignOMPThreads rem req in n # assign_all rem' reqs)"

text \<open>The threads beyond the one every loop has are never oversubscribed.\<close>

lemma assign_all_bound:
  "0 \<le> rem \<Longrightarrow> sum_list (filter (\<lambda>n. 1 < n) (assign_all rem reqs)) \<le> rem"
proof (induction reqs arbitrary: rem)
  case (Cons req reqs)
  obtain n rem' where a: "assignOMPThreads rem req = (n, rem')" by force
  note b = assignOMPThreads_bounds [OF a]
  have "sum_list (filter (\<lambda>n. 1 < n) (assign_all rem' reqs)) \<le> rem'"
    by (rule Cons.IH) (use b(5) Cons.prems in simp)
  then show ?case using b(4) by (auto simp: a)
qed simp

end
