(* ===== verification/Hybrid.thy ===== *)
theory Hybrid
  imports Complex_Main Util
begin

text \<open>
  The thread-local hybrid parameters of \<open>src/ipcl/mod_exp.cpp\<close>, which say what share of the
  modular exponentiations goes to the accelerator: the mode, the ratio, and the functions
  that set and read them. The ratio is a C \<open>float\<close>: a rational number, rounded to 24 bits by
  \<open>f32\<close> after every operation.
\<close>

section \<open>Single precision\<close>

definition pow2 :: "int \<Rightarrow> rat" where
  "pow2 e = (if 0 \<le> e then 2 ^ nat e else 1 / 2 ^ nat (- e))"

definition round_half_even :: "rat \<Rightarrow> int" where
  "round_half_even y =
     (let f = \<lfloor>y\<rfloor>; d = y - of_int f
      in if d < 1 / 2 then f else if 1 / 2 < d then f + 1 else if even f then f else f + 1)"

text \<open>The exponent that leaves a 24-bit significand. Subnormal and overflowing values do not
  occur here: the values are zero, or between one hundredth and the length of a vector.\<close>

definition f32_exp :: "rat \<Rightarrow> int" where
  "f32_exp x =
     (let (a, b) = quotient_of x; e = int (nat_bits (nat a)) - int (nat_bits (nat b)) - 24
      in if x < 2 ^ 24 * pow2 e then e else e + 1)"

definition f32_pos :: "rat \<Rightarrow> rat" where
  "f32_pos x = of_int (round_half_even (x * pow2 (- f32_exp x))) * pow2 (f32_exp x)"

definition f32 :: "rat \<Rightarrow> rat" where
  "f32 x = (if x = 0 then 0 else if x < 0 then - f32_pos (- x) else f32_pos x)"

lemma pow2_pos [simp]: "0 < pow2 e"
  by (simp add: pow2_def)

lemma pow2_powi: "pow2 e = 2 powi e"
  unfolding pow2_def power_int_def by (simp add: power_one_over inverse_eq_divide)

lemma pow2_add: "pow2 (a + b) = pow2 a * pow2 b"
  by (simp add: pow2_powi power_int_add)

lemma pow2_minus: "pow2 e * pow2 (- e) = 1"
  by (simp add: pow2_def)

lemma pow2_nat [simp]: "pow2 (int n) = 2 ^ n"
  by (simp add: pow2_def)

lemma pow2_mono: "a \<le> b \<Longrightarrow> pow2 a \<le> pow2 b"
proof -
  assume "a \<le> b"
  then have "b = a + int (nat (b - a))" by simp
  then have "pow2 b = pow2 a * 2 ^ nat (b - a)" by (metis pow2_add pow2_nat)
  moreover have "pow2 a * 1 \<le> pow2 a * 2 ^ nat (b - a)"
    by (rule mult_left_mono) (simp_all add: less_imp_le)
  ultimately show ?thesis by simp
qed

lemma round_int [simp]: "round_half_even (of_int k) = k"
  by (simp add: round_half_even_def Let_def)

lemma round_le: "y \<le> of_int k \<Longrightarrow> round_half_even y \<le> k"
proof -
  assume y: "y \<le> of_int k"
  show ?thesis
  proof (cases "\<lfloor>y\<rfloor> = k")
    case True
    then have "y = of_int k" using y by linarith
    then show ?thesis by simp
  next
    case False
    moreover have "\<lfloor>y\<rfloor> \<le> k" using y by linarith
    ultimately have "\<lfloor>y\<rfloor> + 1 \<le> k" by simp
    then show ?thesis by (simp add: round_half_even_def Let_def)
  qed
qed

lemma round_nonneg: "0 \<le> y \<Longrightarrow> 0 \<le> round_half_even y"
  by (simp add: round_half_even_def Let_def)

text \<open>The scaled value is a 24-bit significand.\<close>

lemma f32_exp_lower:
  assumes "0 < x"
  shows "2 ^ 23 * pow2 (f32_exp x) \<le> x"
proof -
  obtain a b where q: "quotient_of x = (a, b)" by (cases "quotient_of x")
  have x: "x = of_int a / of_int b" and b: "0 < b"
    using q by (simp_all add: quotient_of_div quotient_of_denom_pos)
  with assms have a: "0 < a" by (simp add: zero_less_divide_iff)
  let ?A = "nat_bits (nat a)" and ?B = "nat_bits (nat b)"
  let ?e = "int ?A - int ?B - 24"
  have "2 ^ (?A - 1) \<le> nat a" using a by (intro nat_bits_lower) simp
  then have "(2::int) ^ (?A - 1) \<le> a" using a by (simp add: le_nat_iff)
  then have la: "(2::rat) ^ (?A - 1) \<le> of_int a"
    by (metis of_int_le_iff of_int_numeral of_int_power)
  have "nat b < 2 ^ ?B" by (rule nat_bits_upper)
  then have "b < 2 ^ ?B" using b by (simp add: nat_less_iff)
  then have ub: "of_int b < (2::rat) ^ ?B"
    by (metis of_int_less_iff of_int_numeral of_int_power)
  have "0 < ?A" using a by simp
  then have e: "pow2 (int ?A - 1) = 2 ^ (?A - 1)" by (simp add: pow2_def nat_diff_distrib)
  have "2 ^ 23 * pow2 ?e * of_int b \<le> 2 ^ 23 * pow2 ?e * 2 ^ ?B"
    using ub by simp
  also have "\<dots> = pow2 (23 + ?e + int ?B)"
    unfolding pow2_add by (simp add: pow2_def [of 23])
  also have "23 + ?e + int ?B = int ?A - 1" by simp
  also have "pow2 (int ?A - 1) \<le> of_int a" using la e by simp
  finally have "2 ^ 23 * pow2 ?e \<le> x" using b by (simp add: x pos_le_divide_eq)
  moreover have "2 ^ 24 * pow2 ?e \<le> x \<Longrightarrow> 2 ^ 23 * pow2 (?e + 1) \<le> x"
    unfolding pow2_add by (simp add: pow2_def [of 1])
  ultimately show ?thesis
    by (simp add: f32_exp_def q Let_def)
qed

lemma f32_pos_le:
  assumes "0 < x" "x \<le> of_int n" "n \<le> 2 ^ 24"
  shows "f32_pos x \<le> of_int n" and "x = of_int n \<Longrightarrow> f32_pos x = of_int n"
proof -
  let ?e = "f32_exp x"
  have "\<exists>k. of_int n * pow2 (- ?e) = of_int k"
  proof (cases "?e \<le> 0")
    case True
    then have "of_int n * pow2 (- ?e) = of_int (n * 2 ^ nat (- ?e))" by (simp add: pow2_def)
    then show ?thesis by blast
  next
    case False
    have "2 ^ 23 * pow2 ?e \<le> x" by (rule f32_exp_lower [OF assms(1)])
    also have "x \<le> 2 ^ 24" using assms(2,3) by (metis of_int_le_iff of_int_numeral of_int_power order_trans)
    finally have e: "pow2 ?e \<le> 2" by simp
    have "?e = 1"
    proof (rule ccontr)
      assume "?e \<noteq> 1"
      then have "pow2 2 \<le> pow2 ?e" using False by (intro pow2_mono) simp
      then show False using e by (simp add: pow2_def [of 2])
    qed
    moreover from this have "n = 2 ^ 24"
      using f32_exp_lower [OF assms(1)] assms(2,3) by (simp add: pow2_def)
    ultimately have "of_int n * pow2 (- ?e) = of_int (2 ^ 23)" by (simp add: pow2_def)
    then show ?thesis by blast
  qed
  then obtain k where k: "of_int n * pow2 (- ?e) = of_int k" ..
  have n: "of_int k * pow2 ?e = (of_int n :: rat)"
    unfolding k [symmetric] using pow2_minus [of ?e] by (simp add: mult.assoc mult.commute)
  have "round_half_even (x * pow2 (- ?e)) \<le> k"
    by (rule round_le) (use assms(2) in \<open>simp add: flip: k\<close>)
  then show "f32_pos x \<le> of_int n"
    unfolding f32_pos_def n [symmetric] by simp
  show "f32_pos x = of_int n" if "x = of_int n"
    using that n k by (simp add: f32_pos_def)
qed

lemma f32_le_int: "x \<le> of_int n \<Longrightarrow> 0 \<le> n \<Longrightarrow> n \<le> 2 ^ 24 \<Longrightarrow> f32 x \<le> of_int n"
proof -
  have "0 \<le> f32_pos y" if "0 < y" for y
    using that round_nonneg [of "y * pow2 (- f32_exp y)"] by (simp add: f32_pos_def less_imp_le)
  then have "x < 0 \<Longrightarrow> f32 x \<le> 0" by (simp add: f32_def)
  moreover assume "x \<le> of_int n" "0 \<le> n" "n \<le> 2 ^ 24"
  ultimately show ?thesis using f32_pos_le(1) [of x n] by (force simp: f32_def)
qed

lemma f32_int: "0 \<le> n \<Longrightarrow> n \<le> 2 ^ 24 \<Longrightarrow> f32 (of_int n) = of_int n"
  using f32_pos_le(2) [of "of_int n" n] by (simp add: f32_def)

lemma f32_nonneg: "0 \<le> x \<Longrightarrow> 0 \<le> f32 x"
  using round_nonneg [of "x * pow2 (- f32_exp x)"] by (simp add: f32_def f32_pos_def less_imp_le)

lemma f32_neg: "x < 0 \<Longrightarrow> f32 x \<le> 0"
  using f32_nonneg [of "- x"] by (simp add: f32_def)

section \<open>The hybrid parameters\<close>

datatype HybridMode =
    OPTIMAL | QAT | PREF_QAT90 | PREF_QAT80 | PREF_QAT70 | PREF_QAT60 | HALF
  | PREF_IPP60 | PREF_IPP70 | PREF_IPP80 | PREF_IPP90 | IPP | UNDEFINED

fun mode_value :: "HybridMode \<Rightarrow> int" where
  "mode_value OPTIMAL = 95"
| "mode_value QAT = 100"
| "mode_value PREF_QAT90 = 90"
| "mode_value PREF_QAT80 = 80"
| "mode_value PREF_QAT70 = 70"
| "mode_value PREF_QAT60 = 60"
| "mode_value HALF = 50"
| "mode_value PREF_IPP60 = 40"
| "mode_value PREF_IPP70 = 30"
| "mode_value PREF_IPP80 = 20"
| "mode_value PREF_IPP90 = 10"
| "mode_value IPP = 0"
| "mode_value UNDEFINED = - 1"

text \<open>The global \<open>g_hybrid_params\<close>; the state of the random generators is added to it later.\<close>

record hybrid =
  hyb_ratio :: rat
  hyb_mode :: HybridMode

definition g_hybrid_init :: hybrid where
  "g_hybrid_init = \<lparr>hyb_ratio = 0, hyb_mode = OPTIMAL\<rparr>"

definition scale_down :: "int \<Rightarrow> int \<Rightarrow> rat" where
  "scale_down value scale = f32 (of_int value / of_int scale)"

text \<open>Conversion of a \<open>float\<close> to an integer type truncates.\<close>

definition scale_up :: "rat \<Rightarrow> int \<Rightarrow> int" where
  "scale_up value scale =
     (let y = f32 (value * f32 (of_int scale)) in if 0 \<le> y then \<lfloor>y\<rfloor> else \<lceil>y\<rceil>)"

definition setHybridRatio :: "config \<Rightarrow> rat \<Rightarrow> bool \<Rightarrow> ('z hybrid_scheme, unit) prog" where
  "setHybridRatio C r reset_mode =
     (if use_qat C then
        bindP (liftR (errorCheck (r \<le> 1 \<and> r \<ge> 0)
          ''setHybridRatio: Hybrid modexp qat ratio is NOT correct'')) (\<lambda>_.
        bindP (modifyP (hyb_ratio_update (\<lambda>_. r))) (\<lambda>_.
        if reset_mode then modifyP (hyb_mode_update (\<lambda>_. UNDEFINED)) else retP ()))
      else retP ())"

definition setHybridMode :: "config \<Rightarrow> HybridMode \<Rightarrow> ('z hybrid_scheme, unit) prog" where
  "setHybridMode C md =
     (if use_qat C then
        let mode_value = mode_value md; r = scale_down mode_value 100
        in modifyP (\<lambda>w. w\<lparr>hyb_ratio := r, hyb_mode := md\<rparr>)
      else retP ())"

definition setHybridOff :: "config \<Rightarrow> ('z hybrid_scheme, unit) prog" where
  "setHybridOff C =
     (if use_qat C then modifyP (\<lambda>w. w\<lparr>hyb_ratio := 0, hyb_mode := UNDEFINED\<rparr>) else retP ())"

definition getHybridRatio :: "('z hybrid_scheme, rat) prog" where
  "getHybridRatio = getsP hyb_ratio"

definition getHybridMode :: "('z hybrid_scheme, HybridMode) prog" where
  "getHybridMode = getsP hyb_mode"

definition isHybridOptimal :: "('z hybrid_scheme, bool) prog" where
  "isHybridOptimal = getsP (\<lambda>w. if hyb_mode w = OPTIMAL then True else False)"

text \<open>The ratios the classes set in the optimal mode (\<open>common.hpp\<close>).\<close>

definition IPCL_WORKLOAD_SIZE_THRESHOLD :: nat where
  "IPCL_WORKLOAD_SIZE_THRESHOLD = 128"

definition IPCL_HYBRID_MODEXP_RATIO_FULL :: rat where
  "IPCL_HYBRID_MODEXP_RATIO_FULL = 1"

definition IPCL_HYBRID_MODEXP_RATIO_ENCRYPT :: rat where
  "IPCL_HYBRID_MODEXP_RATIO_ENCRYPT = f32 (1 / 4)"

definition IPCL_HYBRID_MODEXP_RATIO_DECRYPT :: rat where
  "IPCL_HYBRID_MODEXP_RATIO_DECRYPT = f32 (12 / 100)"

definition IPCL_HYBRID_MODEXP_RATIO_MULTIPLY :: rat where
  "IPCL_HYBRID_MODEXP_RATIO_MULTIPLY = f32 (18 / 100)"

text \<open>\<open>static_cast<std::size_t>(g_hybrid_params.ratio * v_size)\<close>.\<close>

definition hybrid_qat_size :: "rat \<Rightarrow> nat \<Rightarrow> nat" where
  "hybrid_qat_size r v_size = nat \<lfloor>f32 (r * f32 (of_nat v_size))\<rfloor>"

text \<open>
  The statements that \<open>encrypt\<close>, \<open>decrypt\<close> and \<open>raw_mul\<close> share: in the optimal mode the ratio
  is set from the size of the workload, and the mode stays.
\<close>

definition optimal_ratio :: "config \<Rightarrow> nat \<Rightarrow> rat \<Rightarrow> ('z hybrid_scheme, unit) prog" where
  "optimal_ratio C n r =
     bindP isHybridOptimal (\<lambda>opt.
       if opt then
         let qat_ratio = (if n \<le> IPCL_WORKLOAD_SIZE_THRESHOLD
                          then IPCL_HYBRID_MODEXP_RATIO_FULL else r)
         in setHybridRatio C qat_ratio False
       else retP ())"

section \<open>The ratio stays in range\<close>

text \<open>The invariant \<open>modExp\<close> checks.\<close>

definition ratio_ok :: "'z hybrid_scheme \<Rightarrow> bool" where
  "ratio_ok w \<longleftrightarrow> 0 \<le> hyb_ratio w \<and> hyb_ratio w \<le> 1"

lemma f32_unit: "0 \<le> x \<Longrightarrow> x \<le> 1 \<Longrightarrow> 0 \<le> f32 x \<and> f32 x \<le> 1"
  using f32_le_int [of x 1] by (simp add: f32_nonneg)

lemma ratios_unit:
  "0 \<le> IPCL_HYBRID_MODEXP_RATIO_FULL" "IPCL_HYBRID_MODEXP_RATIO_FULL \<le> 1"
  "0 \<le> IPCL_HYBRID_MODEXP_RATIO_ENCRYPT" "IPCL_HYBRID_MODEXP_RATIO_ENCRYPT \<le> 1"
  "0 \<le> IPCL_HYBRID_MODEXP_RATIO_DECRYPT" "IPCL_HYBRID_MODEXP_RATIO_DECRYPT \<le> 1"
  "0 \<le> IPCL_HYBRID_MODEXP_RATIO_MULTIPLY" "IPCL_HYBRID_MODEXP_RATIO_MULTIPLY \<le> 1"
  by (simp_all add: IPCL_HYBRID_MODEXP_RATIO_FULL_def IPCL_HYBRID_MODEXP_RATIO_ENCRYPT_def
      IPCL_HYBRID_MODEXP_RATIO_DECRYPT_def IPCL_HYBRID_MODEXP_RATIO_MULTIPLY_def f32_unit)

lemma setHybridRatio_run:
  "setHybridRatio C r b w =
     (if use_qat C then
        (if 0 \<le> r \<and> r \<le> 1
         then (Inr (), if b then w\<lparr>hyb_ratio := r, hyb_mode := UNDEFINED\<rparr> else w\<lparr>hyb_ratio := r\<rparr>)
         else (Inl (RuntimeError ''setHybridRatio: Hybrid modexp qat ratio is NOT correct''), w))
      else (Inr (), w))"
  by (simp add: setHybridRatio_def errorCheck_def)

lemma optimal_ratio_run:
  assumes "0 \<le> r" "r \<le> 1"
  shows "optimal_ratio C n r w =
    (Inr (), if hyb_mode w = OPTIMAL \<and> use_qat C
      then w\<lparr>hyb_ratio := (if n \<le> IPCL_WORKLOAD_SIZE_THRESHOLD
                           then IPCL_HYBRID_MODEXP_RATIO_FULL else r)\<rparr>
      else w)"
  using assms ratios_unit(1,2)
  by (simp add: optimal_ratio_def isHybridOptimal_def Let_def setHybridRatio_run)

lemma optimal_ratio_ok:
  assumes "0 \<le> r" "r \<le> 1"
  obtains w' where "optimal_ratio C n r w = (Inr (), w')" "hyb_mode w' = hyb_mode w"
    "hybrid.more w' = hybrid.more w" "ratio_ok w \<Longrightarrow> ratio_ok w'"
proof -
  show thesis
    by (rule that [OF optimal_ratio_run [OF assms]]) (use assms ratios_unit(1,2) in \<open>auto simp: ratio_ok_def\<close>)
qed

text \<open>Up to \<open>2 ^ 24\<close> elements, where the length converts exactly, the accelerator's share is
  not longer than the vector.\<close>

lemma hybrid_qat_size_le:
  assumes "0 \<le> r" "r \<le> 1" "n \<le> 2 ^ 24"
  shows "hybrid_qat_size r n \<le> n"
proof -
  have n: "f32 (of_nat n) = of_nat n"
    using f32_int [of "int n"] assms(3) by simp
  have "r * of_nat n \<le> of_int (int n)"
    using mult_right_mono [OF assms(2), of "of_nat n"] by simp
  then have "f32 (r * of_nat n) \<le> of_int (int n)"
    by (rule f32_le_int) (use assms(3) in simp_all)
  then have "\<lfloor>f32 (r * of_nat n)\<rfloor> \<le> int n" by linarith
  then show ?thesis by (simp add: hybrid_qat_size_def n nat_le_iff)
qed

lemma hybrid_qat_size_1: "n \<le> 2 ^ 24 \<Longrightarrow> hybrid_qat_size 1 n = n"
  and hybrid_qat_size_0: "hybrid_qat_size 0 n = 0"
  using f32_int [of "int n"] by (simp_all add: hybrid_qat_size_def) (simp add: f32_def)

end
