(* ===== verification/ModExp.thy ===== *)
theory ModExp
  imports BigNumberConv Hybrid
begin

text \<open>
  Modular exponentiation, \<open>src/ipcl/mod_exp.cpp\<close>: the single-buffer path through Montgomery
  form (\<open>ippSBModExp\<close>), the multi-buffer path with its flat buffers (\<open>ippMBModExp\<close>), the
  loops over vectors, and the dispatch between processor and accelerator. The lemmas show
  that each of them computes powers, stated once as the interface \<open>modexp_service\<close>.
\<close>

section \<open>The environment\<close>

text \<open>
  The library, the build configuration and processor features the dispatch reads, and
  \<open>heQatBnModExp_MT\<close>, the batch function of the accelerator (compiled only with
  \<open>IPCL_USE_QAT\<close>), which is a parameter.
\<close>

record 'b ipcl = "'b ipp_me" +
  Config :: config
  heQatBnModExp_MT :: "'b list \<Rightarrow> 'b list \<Rightarrow> 'b list \<Rightarrow> nat \<Rightarrow> 'b list result"

definition IPCL_CRYPTO_MB_SIZE :: nat where
  "IPCL_CRYPTO_MB_SIZE = 8"

definition IPCL_QAT_MODEXP_BATCH_SIZE :: nat where
  "IPCL_QAT_MODEXP_BATCH_SIZE = 1024"

section \<open>Single buffer\<close>

definition ippSBModExp :: "('b, 'z) ipp_me_scheme \<Rightarrow> 'b \<Rightarrow> 'b \<Rightarrow> 'b \<Rightarrow> 'b result" where
  "ippSBModExp I base expo md =
     (let res = BigNumber_copy I md;
          mod_bits = Ref_bits I md; mod_data = Ref_data I md;
          mod_words = BITSIZE_WORD mod_bits;
          (stat, msize) = MontGetSize I mod_words
      in bindR (errorCheck (stat = ippStsNoErr)
           ''ippMontExp: get the size of IppsMontState context error.'') (\<lambda>_.
      let pMont = replicate (nat msize) 0;
          (stat, pMont) = MontInit I mod_words pMont
      in bindR (errorCheck (stat = ippStsNoErr) ''ippMontExp: init Mont context error.'') (\<lambda>_.
      let (stat, pMont) = MontSet I mod_data mod_words pMont
      in bindR (errorCheck (stat = ippStsNoErr) ''ippMontExp: set Mont input error.'') (\<lambda>_.
      let bform = BigNumber_copy I md;
          (stat, bform) = MontForm I base pMont bform
      in bindR (errorCheck (stat = ippStsNoErr)
           ''ippMontExp: convert big number into Mont form error.'') (\<lambda>_.
      let (stat, res) = MontExp I bform expo pMont res
      in bindR (errorCheck (stat = ippStsNoErr) (''ippsMontExp: error code = '' @ to_string stat)) (\<lambda>_.
      let one = BigNumber_s32 I 1;
          (stat, res) = MontMul I res one pMont res
      in bindR (errorCheck (stat = ippStsNoErr) (''ippsMontMul: error code = '' @ to_string stat)) (\<lambda>_.
      Inr res)))))))"

section \<open>Multi buffer\<close>

text \<open>\<open>memcpy\<close> of 32-bit words into a buffer; past its end it is undefined.\<close>

definition memcpy32 :: "u32 list \<Rightarrow> nat \<Rightarrow> u32 list \<Rightarrow> u32 list result" where
  "memcpy32 buf off ws =
     (if off + length ws \<le> length buf then Inr (take off buf @ ws @ drop (off + length ws) buf)
      else Inl (Undefined ''memcpy''))"

text \<open>The loop that copies the bases and the exponents, lane \<open>i\<close> at \<open>i * stride\<close>.\<close>

fun fill_lanes :: "nat \<Rightarrow> nat \<Rightarrow> (u32 list \<times> u32 list) list \<Rightarrow> u32 list \<Rightarrow> u32 list
    \<Rightarrow> (u32 list \<times> u32 list) result" where
  "fill_lanes stride i [] bb eb = Inr (bb, eb)"
| "fill_lanes stride i ((b, e) # rest) bb eb =
     bindR (memcpy32 bb (i * stride) b) (\<lambda>bb.
     bindR (memcpy32 eb (i * stride) e) (\<lambda>eb. fill_lanes stride (Suc i) rest bb eb))"

text \<open>\<open>std::max_element\<close>: the index of the first largest element.\<close>

definition max_element :: "int list \<Rightarrow> nat" where
  "max_element xs = foldl (\<lambda>largest i. if xs ! largest < xs ! i then i else largest) 0 [1..<length xs]"

text \<open>What \<open>memcpy\<close> reads of a number: the words its bit size needs.\<close>

definition bn_words :: "('b, 'z) ipp_scheme \<Rightarrow> 'b \<Rightarrow> u32 list result" where
  "bn_words I x = slice (Ref_data I x) 0 (nat (BITSIZE_WORD (Ref_bits I x)))"

definition ippMBModExp :: "('b, 'z) ipp_me_scheme \<Rightarrow> 'b list \<Rightarrow> 'b list \<Rightarrow> 'b list \<Rightarrow> 'b list result" where
  "ippMBModExp I base expo md =
     (let real_v_size = length base; pow_v_size = length expo; mod_v_size = length md
      in bindR (errorCheck (real_v_size = pow_v_size \<and> pow_v_size = mod_v_size \<and>
             real_v_size \<le> IPCL_CRYPTO_MB_SIZE) ''ippMBModExp: input vector size error'') (\<lambda>_.
      let pad = replicate (IPCL_CRYPTO_MB_SIZE - real_v_size) 0;
          exp_bits_v = map (Ref_bits I) expo @ pad;
          mod_bits_v = map (Ref_bits I) md @ pad;
          longest_mod_idx = max_element mod_bits_v
      in bindR (vec_at md longest_mod_idx) (\<lambda>lm.
      let longest_mod = BigNumber_copy I lm;
          mod_bits = mod_bits_v ! longest_mod_idx;
          exp_bits = exp_bits_v ! max_element exp_bits_v;
          mod_dwords = BITSIZE_DWORD mod_bits;
          num_buff = int IPCL_CRYPTO_MB_SIZE * mod_dwords;
          buff = replicate (2 * nat num_buff) 0;
          stride = 2 * nat mod_dwords
      in bindR (mapR (bn_words I) base) (\<lambda>base_data.
      bindR (mapR (bn_words I) expo) (\<lambda>exp_data.
      bindR (fill_lanes stride 0 (zip base_data exp_data) buff buff) (\<lambda>(base_buff, exp_buff).
      let lanes = [0..<IPCL_CRYPTO_MB_SIZE];
          base_pa = map (\<lambda>i. drop (i * stride) base_buff) lanes;
          exp_pa = map (\<lambda>i. drop (i * stride) exp_buff) lanes;
          mod_data = map (\<lambda>i. if i < real_v_size then Some (Ref_data I (md ! i)) else None) lanes;
          work_buff_size = mbx_exp_BufferSize I mod_bits;
          (st, out_pa) = mbx_exp_mb8 I base_pa exp_pa exp_bits mod_data mod_bits work_buff_size
      in bindR (mapR (\<lambda>i. errorCheck (MBX_STATUS_OK = MBX_GET_STS I st i)
             (''ippMultiBuffExp: error multi buffered expo modules, error code = '' @
              to_string (MBX_GET_STS I st i))) [0..<real_v_size]) (\<lambda>_.
      let res = replicate real_v_size (BigNumber_copy I longest_mod)
      in Inr (map (\<lambda>i. BigNumber_Set I (out_pa ! i) (BITSIZE_WORD mod_bits) IppsBigNumPOS (res ! i))
           [0..<real_v_size]))))))))"

section \<open>Vectors\<close>

text \<open>The chunks of eight: the body of the loop, and the loop. The iterations are independent,
  and run here in order.\<close>

definition mb_chunk ::
  "('b, 'z) ipp_me_scheme \<Rightarrow> 'b list \<Rightarrow> 'b list \<Rightarrow> 'b list \<Rightarrow> nat \<Rightarrow> nat \<Rightarrow> 'b list result" where
  "mb_chunk I base expo md chunk_offset chunk_size =
     bindR (slice base chunk_offset chunk_size) (\<lambda>base_chunk.
     bindR (slice expo chunk_offset chunk_size) (\<lambda>exp_chunk.
     bindR (slice md chunk_offset chunk_size) (\<lambda>mod_chunk.
     bindR (ippMBModExp I (map (BigNumber_copy I) base_chunk)
        (map (BigNumber_copy I) exp_chunk) (map (BigNumber_copy I) mod_chunk)) (\<lambda>tmp.
     Inr (map (bn_assign I) tmp)))))"

definition ippMBModExpWrapper ::
  "('b, 'z) ipp_me_scheme \<Rightarrow> 'b list \<Rightarrow> 'b list \<Rightarrow> 'b list \<Rightarrow> 'b list result" where
  "ippMBModExpWrapper I base expo md =
     (let v_size = length base;
          remainder = v_size mod IPCL_CRYPTO_MB_SIZE;
          num_chunk = (v_size + IPCL_CRYPTO_MB_SIZE - 1) div IPCL_CRYPTO_MB_SIZE
      in mapR_concat (\<lambda>i.
           let chunk_size = (if i = num_chunk - 1 \<and> remainder > 0 then remainder
                             else IPCL_CRYPTO_MB_SIZE);
               chunk_offset = i * IPCL_CRYPTO_MB_SIZE
           in mb_chunk I base expo md chunk_offset chunk_size) [0..<num_chunk])"

definition ippSBModExpWrapper ::
  "('b, 'z) ipp_me_scheme \<Rightarrow> 'b list \<Rightarrow> 'b list \<Rightarrow> 'b list \<Rightarrow> 'b list result" where
  "ippSBModExpWrapper I base expo md =
     mapR (\<lambda>i. bindR (vec_at base i) (\<lambda>b. bindR (vec_at expo i) (\<lambda>e. bindR (vec_at md i) (\<lambda>m.
       bindR (ippSBModExp I b e m) (\<lambda>r. Inr (bn_assign I r)))))) [0..<length base]"

definition ippModExp :: "('b, 'z) ipcl_scheme \<Rightarrow> 'b list \<Rightarrow> 'b list \<Rightarrow> 'b list \<Rightarrow> 'b list result" where
  "ippModExp I base expo md =
     (let v_size = length base
      in if v_size = 1 then
           bindR (vec_at base 0) (\<lambda>b. bindR (vec_at expo 0) (\<lambda>e. bindR (vec_at md 0) (\<lambda>m.
           bindR (ippSBModExp I b e m) (\<lambda>r. Inr [bn_assign I r]))))
         else if runtime_detect (Config I) then
           (if has_avx512ifma (Config I) then ippMBModExpWrapper I base expo md
            else ippSBModExpWrapper I base expo md)
         else if crypto_mb (Config I) then ippMBModExpWrapper I base expo md
         else ippSBModExpWrapper I base expo md)"

definition qatModExp :: "('b, 'z) ipcl_scheme \<Rightarrow> 'b list \<Rightarrow> 'b list \<Rightarrow> 'b list \<Rightarrow> 'b list result" where
  "qatModExp I base expo md =
     (if use_qat (Config I) then heQatBnModExp_MT I base expo md IPCL_QAT_MODEXP_BATCH_SIZE
      else Inl (RuntimeError ''qatModExp: Need to turn on IPCL_ENABLE_QAT''))"

text \<open>\<open>std::vector(first + off, last)\<close> with the elements copied.\<close>

definition tail_from :: "('b, 'z) ipp_scheme \<Rightarrow> 'b list \<Rightarrow> nat \<Rightarrow> 'b list result" where
  "tail_from I xs off = bindR (slice xs off (length xs - off)) (\<lambda>ys. Inr (map (BigNumber_copy I) ys))"

definition head_upto :: "('b, 'z) ipp_scheme \<Rightarrow> 'b list \<Rightarrow> nat \<Rightarrow> 'b list result" where
  "head_upto I xs n = bindR (slice xs 0 n) (\<lambda>ys. Inr (map (BigNumber_copy I) ys))"

text \<open>\<open>std::copy\<close> into the result vector at an offset.\<close>

definition copy_into :: "('b, 'z) ipp_scheme \<Rightarrow> 'b list \<Rightarrow> nat \<Rightarrow> 'b list \<Rightarrow> 'b list result" where
  "copy_into I res off xs =
     (if off + length xs \<le> length res
      then Inr (take off res @ map (bn_assign I) xs @ drop (off + length xs) res)
      else Inl (Undefined ''std::copy''))"

definition modExp :: "('b, 'z) ipcl_scheme \<Rightarrow> 'b list \<Rightarrow> 'b list \<Rightarrow> 'b list
    \<Rightarrow> ('w hybrid_scheme, 'b list) prog" where
  "modExp I base expo md w =
     (if use_qat (Config I) then
        if \<not> use_omp (Config I) then (qatModExp I base expo md, w)
        else
          (bindR (errorCheck (hyb_ratio w \<ge> 0 \<and> hyb_ratio w \<le> 1)
             ''modExp: hybrid modexp qat ratio is incorrect'') (\<lambda>_.
           let v_size = length base; qat_size = hybrid_qat_size (hyb_ratio w) v_size
           in if qat_size = v_size then qatModExp I base expo md
              else if qat_size = 0 then ippModExp I base expo md
              else
                bindR (head_upto I base qat_size) (\<lambda>qat_base.
                bindR (head_upto I expo qat_size) (\<lambda>qat_exp.
                bindR (head_upto I md qat_size) (\<lambda>qat_mod.
                bindR (tail_from I base qat_size) (\<lambda>ipp_base.
                bindR (tail_from I expo qat_size) (\<lambda>ipp_exp.
                bindR (tail_from I md qat_size) (\<lambda>ipp_mod.
                let res = replicate v_size (BigNumber_u32 I 0)
                in bindR (qatModExp I qat_base qat_exp qat_mod) (\<lambda>qat_res.
                bindR (copy_into I res 0 qat_res) (\<lambda>res.
                bindR (ippModExp I ipp_base ipp_exp ipp_mod) (\<lambda>ipp_res.
                copy_into I res qat_size ipp_res)))))))))), w)
      else (ippModExp I base expo md, w))"

definition ippModExp_1 :: "('b, 'z) ipcl_scheme \<Rightarrow> 'b \<Rightarrow> 'b \<Rightarrow> 'b \<Rightarrow> 'b result" where
  "ippModExp_1 I base expo md = ippSBModExp I base expo md"

definition modExp_1 :: "('b, 'z) ipcl_scheme \<Rightarrow> 'b \<Rightarrow> 'b \<Rightarrow> 'b \<Rightarrow> 'b result" where
  "modExp_1 I base expo md = ippModExp_1 I base expo md"

section \<open>The single-buffer path computes powers\<close>

definition mpow :: "int \<Rightarrow> int \<Rightarrow> int \<Rightarrow> int" where
  "mpow b e m = b ^ nat e mod m"

text \<open>A base and a modulus that Montgomery arithmetic admits.\<close>

definition lane :: "int \<Rightarrow> int \<Rightarrow> int \<Rightarrow> bool" where
  "lane b e m \<longleftrightarrow> 0 \<le> b \<and> b < m \<and> 0 \<le> e \<and> odd m \<and> 1 < m"

lemma fits_copy:
  assumes ok: "ipp_ok I" and v: "\<bar>v\<bar> \<le> \<bar>bn_val I x\<bar>"
  shows "fits I v (BigNumber_copy I x)"
proof (rule fits_bits)
  show "\<bar>v\<bar> < 2 ^ nat (Ref_bits I x)" using abs_bn_val_bits [OF ok, of x] v by simp
  have "BITSIZE_WORD (Ref_bits I x) \<le> Room I (BigNumber_copy I x)"
    using copy_room [OF ok, of x] by (simp add: int_bn_nw [OF ok])
  then show "Ref_bits I x \<le> 32 * Room I (BigNumber_copy I x)"
    using BITSIZE_WORD_ge [of "Ref_bits I x"] by linarith
qed

lemma fits_Room: "Room I r = Room I r' \<Longrightarrow> fits I v r \<longleftrightarrow> fits I v r'"
  by (simp add: fits_def)

text \<open>The Montgomery context of an odd modulus.\<close>

lemma mont_context:
  assumes ok: "ipp_me_ok I" and md: "0 < bn_val I md" "odd (bn_val I md)"
  obtains s ctx0 ctx where "MontGetSize I (BITSIZE_WORD (Ref_bits I md)) = (ippStsNoErr, s)"
    "MontInit I (BITSIZE_WORD (Ref_bits I md)) (replicate (nat s) 0) = (ippStsNoErr, ctx0)"
    "MontSet I (Ref_data I md) (BITSIZE_WORD (Ref_bits I md)) ctx0 = (ippStsNoErr, ctx)"
    "Mont_mod I ctx = bn_val I md"
proof -
  let ?w = "BITSIZE_WORD (Ref_bits I md)"
  have i: "ipp_ok I" using ok by simp
  have v: "int (words_val (take (nat ?w) (Ref_data I md))) = bn_val I md"
    using md(1) abs_bn_val [of I md] by (simp add: bn_mag_def bn_nw_def)
  then have "odd (words_val (take (nat ?w) (Ref_data I md)))"
    using md(2) by (metis even_of_nat)
  moreover have "1 \<le> ?w" "?w \<le> int (length (Ref_data I md))"
    using bn_nw_pos [OF i, of md] bn_data_length [OF i, of md] int_bn_nw [OF i, of md] by linarith+
  ultimately show ?thesis
    using ok v that unfolding ipp_me_ok_def mont_set_ok_def by metis
qed

lemma ippSBModExp_ok:
  assumes ok: "ipp_me_ok I" and l: "lane (bn_val I b) (bn_val I e) (bn_val I m)"
  obtains r where "ippSBModExp I b e m = Inr r" "bn_norm I r"
    "bn_val I r = mpow (bn_val I b) (bn_val I e) (bn_val I m)"
proof -
  have i: "ipp_ok I" using ok by simp
  have m: "0 < bn_val I m" "odd (bn_val I m)" using l by (simp_all add: lane_def)
  obtain s ctx0 ctx where c: "MontGetSize I (BITSIZE_WORD (Ref_bits I m)) = (ippStsNoErr, s)"
    "MontInit I (BITSIZE_WORD (Ref_bits I m)) (replicate (nat s) 0) = (ippStsNoErr, ctx0)"
    "MontSet I (Ref_data I m) (BITSIZE_WORD (Ref_bits I m)) ctx0 = (ippStsNoErr, ctx)"
    and md: "Mont_mod I ctx = bn_val I m"
    by (rule mont_context [OF ok m])
  let ?r = "BigNumber_copy I m" and ?m = "bn_val I m" and ?R = "Mont_R I ctx"
  have f: "fits I ?m ?r" by (rule fits_copy [OF i]) simp
  obtain y1 where y1: "MontForm I b ctx ?r = (ippStsNoErr, y1)"
    "bn_out I y1 (bn_val I b * ?R mod ?m) ?r"
    using ok l f unfolding ipp_me_ok_def mont_form_ok_def lane_def md [symmetric] by metis
  have v1: "bn_val I y1 = bn_val I b * ?R mod ?m" using y1(2) by (simp add: bn_out_def)
  obtain y2 where y2: "MontExp I y1 e ctx ?r = (ippStsNoErr, y2)"
    "bn_out I y2 (bn_val I b ^ nat (bn_val I e) * ?R mod ?m) ?r"
    using ok l f v1 m(1) unfolding ipp_me_ok_def mont_exp_ok_def lane_def md [symmetric] by metis
  have v2: "bn_val I y2 = bn_val I b ^ nat (bn_val I e) * ?R mod ?m" and f2: "fits I ?m y2"
    using y2(2) f by (simp_all add: bn_out_def fits_def)
  have one: "bn_val I (BigNumber_s32 I 1) = 1"
    using i by (simp add: bn_simps)
  have "0 \<le> (1::int)" "1 < ?m" using l by (simp_all add: lane_def)
  then obtain y3 where y3: "MontMul I y2 (BigNumber_s32 I 1) ctx y2 = (ippStsNoErr, y3)"
    "bn_out I y3 (bn_val I b ^ nat (bn_val I e) * 1 mod ?m) y2"
    using ok v2 f2 one unfolding ipp_me_ok_def mont_mul_ok_def md [symmetric] by metis
  show ?thesis
  proof (rule that)
    show "ippSBModExp I b e m = Inr y3"
      using c y1(1) y2(1) y3(1) by (simp add: ippSBModExp_def Let_def)
    show "bn_norm I y3" "bn_val I y3 = mpow (bn_val I b) (bn_val I e) ?m"
      using y3(2) by (simp_all add: bn_out_def mpow_def)
  qed
qed

text \<open>A negative exponent is an error.\<close>

lemma ippSBModExp_neg:
  assumes ok: "ipp_me_ok I" "mont_neg_ok I" and e: "bn_val I e < 0"
    and m: "0 \<le> bn_val I b" "bn_val I b < bn_val I m" "odd (bn_val I m)"
  shows "\<exists>msg. ippSBModExp I b e m = Inl (RuntimeError msg)"
proof -
  have i: "ipp_ok I" using ok(1) by simp
  have m0: "0 < bn_val I m" using m by simp
  obtain s ctx0 ctx where c: "MontGetSize I (BITSIZE_WORD (Ref_bits I m)) = (ippStsNoErr, s)"
    "MontInit I (BITSIZE_WORD (Ref_bits I m)) (replicate (nat s) 0) = (ippStsNoErr, ctx0)"
    "MontSet I (Ref_data I m) (BITSIZE_WORD (Ref_bits I m)) ctx0 = (ippStsNoErr, ctx)"
    and md: "Mont_mod I ctx = bn_val I m"
    by (rule mont_context [OF ok(1) m0 m(3)])
  let ?r = "BigNumber_copy I m"
  have f: "fits I (bn_val I m) ?r" by (rule fits_copy [OF i]) simp
  obtain y1 where y1: "MontForm I b ctx ?r = (ippStsNoErr, y1)"
    using ok(1) m f unfolding ipp_me_ok_def mont_form_ok_def md [symmetric] by metis
  obtain st y2 where "MontExp I y1 e ctx ?r = (st, y2)" "st \<noteq> ippStsNoErr"
    using ok(2) e unfolding mont_neg_ok_def by (metis prod.collapse)
  then show ?thesis using c y1 by (simp add: ippSBModExp_def Let_def)
qed

section \<open>The multi-buffer path computes powers\<close>

lemma max_element_ok:
  assumes "xs \<noteq> []"
  shows "max_element xs < length xs" "i < length xs \<Longrightarrow> xs ! i \<le> xs ! max_element xs"
proof -
  have "foldl (\<lambda>l i. if xs ! l < xs ! i then i else l) 0 [1..<k] < length xs \<and>
      (\<forall>i<k. xs ! i \<le> xs ! foldl (\<lambda>l i. if xs ! l < xs ! i then i else l) 0 [1..<k])"
    if "1 \<le> k" "k \<le> length xs" for k
    using that
  proof (induction k rule: dec_induct)
    case base
    then show ?case using assms by simp
  next
    case (step k)
    then show ?case by (auto simp: less_Suc_eq intro: order_trans)
  qed
  from this [of "length xs"] assms
  show "max_element xs < length xs" "i < length xs \<Longrightarrow> xs ! i \<le> xs ! max_element xs"
    by (auto simp: max_element_def Suc_le_eq)
qed

lemma memcpy32_zeros:
  assumes "length pre = off" "length ws \<le> n"
  shows "memcpy32 (pre @ replicate n 0) off ws = Inr ((pre @ ws) @ replicate (n - length ws) 0)"
  using assms by (simp add: memcpy32_def)

lemma fill_lanes_zeros:
  assumes "length bs = length es" "\<forall>b \<in> set bs. length b \<le> s" "\<forall>e \<in> set es. length e \<le> s"
    "length bp = i * s" "length ep = i * s" "length bs * s \<le> n"
  shows "fill_lanes s i (zip bs es) (bp @ replicate n 0) (ep @ replicate n 0) =
    Inr ((bp @ concat (map (pad s) bs)) @ replicate (n - length bs * s) 0,
         (ep @ concat (map (pad s) es)) @ replicate (n - length bs * s) 0)"
  using assms
proof (induction bs es arbitrary: i bp ep n rule: list_induct2)
  case Nil
  then show ?case by simp
next
  case (Cons b bs e es)
  have l: "length b \<le> s" "length e \<le> s" "s \<le> n" using Cons.prems by simp_all
  have z: "xs @ replicate (n - length xs) (0 :: u32) = pad s xs @ replicate (n - s) 0"
    if "length xs \<le> s" for xs
    using that l(3) by (simp add: pad_def flip: replicate_add)
  have "fill_lanes s (Suc i) (zip bs es) ((bp @ pad s b) @ replicate (n - s) 0)
      ((ep @ pad s e) @ replicate (n - s) 0) =
    Inr (((bp @ pad s b) @ concat (map (pad s) bs)) @ replicate (n - s - length bs * s) 0,
         ((ep @ pad s e) @ concat (map (pad s) es)) @ replicate (n - s - length bs * s) 0)"
    by (rule Cons.IH) (use Cons.prems l in auto)
  then show ?case
    using Cons.prems l by (simp add: memcpy32_zeros z [symmetric] diff_diff_left)
qed

text \<open>The number of 64-bit words of a modulus.\<close>

definition dwords :: "int \<Rightarrow> int" where
  "dwords m = BITSIZE_DWORD (int (nat_bits (nat m)))"

definition same_size :: "int list \<Rightarrow> bool" where
  "same_size ms \<longleftrightarrow> (\<forall>m \<in> set ms. dwords m = dwords (hd ms))"

lemma same_sizeI:
  "xs \<noteq> [] \<Longrightarrow> (\<And>i. i < length xs \<Longrightarrow> dwords (xs ! i) = dwords (xs ! 0)) \<Longrightarrow> same_size xs"
  by (metis hd_conv_nth in_set_conv_nth same_size_def)

lemma same_size_nth: "same_size ms \<Longrightarrow> i < length ms \<Longrightarrow> j < length ms \<Longrightarrow> dwords (ms ! i) = dwords (ms ! j)"
  by (metis nth_mem same_size_def)

lemma norm_bits_pos:
  assumes "ipp_ok I" "bn_norm I x" "0 < bn_val I x"
  shows "Ref_bits I x = int (nat_bits (nat (bn_val I x)))" "bn_mag I x = nat (bn_val I x)"
proof -
  show "bn_mag I x = nat (bn_val I x)"
    using abs_bn_val [of I x] assms(3) by linarith
  then show "Ref_bits I x = int (nat_bits (nat (bn_val I x)))"
    using bn_norm_bits [OF assms(1,2)] nat_bits_pos [of "nat (bn_val I x)"] assms(3)
    by (simp add: max_def Suc_le_eq)
qed

lemma bn_words_ok: "ipp_ok I \<Longrightarrow> bn_words I x = Inr (take (bn_nw I x) (Ref_data I x))"
  using bn_data_length [of I x] by (simp add: bn_words_def flip: bn_nw_def)

text \<open>
  A chunk the multi-buffer path admits: lanes with exponents that are not larger than the
  moduli, and moduli of the same number of 64-bit words (the function reads that many words
  of each).
\<close>

definition chunk_ok :: "int list \<Rightarrow> int list \<Rightarrow> int list \<Rightarrow> bool" where
  "chunk_ok bs es ms \<longleftrightarrow> bs \<noteq> [] \<and> length es = length bs \<and> length ms = length bs \<and> same_size ms \<and>
     (\<forall>i < length bs. lane (bs ! i) (es ! i) (ms ! i) \<and> es ! i \<le> ms ! i)"

text \<open>The sizes of a chunk: \<open>K\<close> is the largest bit size of a modulus, \<open>E\<close> of an exponent.\<close>

lemma chunk_bits:
  assumes ok: "ipp_ok I" and n: "bn_norm I b" "bn_norm I e" "bn_norm I m"
    and l: "lane (bn_val I b) (bn_val I e) (bn_val I m)" "bn_val I e \<le> bn_val I m"
  shows "Ref_bits I b \<le> Ref_bits I m" "Ref_bits I e \<le> Ref_bits I m"
  using l by (auto intro!: bn_norm_bits_mono [OF ok] simp: n lane_def)

lemma nat_dwords: "nat (2 * BITSIZE_DWORD k) = 2 * nat (BITSIZE_DWORD k)"
  by (simp add: nat_mult_distrib)

lemma nw_le_stride:
  "Ref_bits I x \<le> k \<Longrightarrow> bn_nw I x \<le> 2 * nat (BITSIZE_DWORD k)"
  using BITSIZE_WORD_mono [of "Ref_bits I x" k] BITSIZE_WORD_le_DWORD [of k]
  by (simp add: bn_nw_def flip: nat_dwords)

text \<open>A filled lane meets the requirements of the library.\<close>

lemma filled_lane:
  assumes ok: "ipp_ok I" and nm: "bn_norm I m"
    and l: "lane (bn_val I b) (bn_val I e) (bn_val I m)"
    and k: "Ref_bits I b \<le> K" "Ref_bits I e \<le> E" "E \<le> K" "Ref_bits I m \<le> K"
    and dw: "BITSIZE_DWORD (Ref_bits I m) = BITSIZE_DWORD K"
    and bb: "take (2 * nat (BITSIZE_DWORD K)) bb = pad (2 * nat (BITSIZE_DWORD K)) (num2vec I b)"
    and eb: "take (2 * nat (BITSIZE_DWORD K)) eb = pad (2 * nat (BITSIZE_DWORD K)) (num2vec I e)"
  shows "mbx_lane bb eb E (Some (Ref_data I m)) K (bn_mag I b) (bn_mag I e) (bn_mag I m)"
proof -
  let ?s = "2 * nat (BITSIZE_DWORD K)" and ?j = "2 * nat (BITSIZE_DWORD E)"
  have js: "?j \<le> ?s" using BITSIZE_DWORD_mono [OF k(3)] by (simp add: nat_mono)
  have lb: "length (num2vec I b) \<le> ?s" and le: "length (num2vec I e) \<le> ?j"
    by (simp_all add: length_num2vec [OF ok] nw_le_stride k)
  have "length (take ?s bb) = ?s" "length (take ?s eb) = ?s"
    using bb eb lb le js by simp_all
  then have len: "?s \<le> length bb" "?j \<le> length eb" using js by simp_all
  have "words_val (take ?s bb) = bn_mag I b"
    using words_val_take_pad [of "num2vec I b" ?s ?s] bb lb
    by (simp add: words_val_num2vec [OF ok])
  moreover have "words_val (take ?j eb) = bn_mag I e"
  proof -
    have "take ?j eb = take ?j (take ?s eb)" using js by (simp add: min_absorb1)
    then show ?thesis using words_val_take_pad [OF le js] eb
      by (simp add: words_val_num2vec [OF ok])
  qed
  moreover have "?s \<le> length (Ref_data I m)" "words_val (take ?s (Ref_data I m)) = bn_mag I m"
    using nm dw by (simp_all add: bn_norm_def flip: nat_dwords)
  moreover have mm: "int (bn_mag I m) = bn_val I m" and "int (bn_mag I b) = bn_val I b"
    using l abs_bn_val [of I m] abs_bn_val [of I b] unfolding lane_def by linarith+
  then have "1 < bn_mag I m" "bn_mag I b < bn_mag I m"
    using l unfolding lane_def by linarith+
  moreover have "odd (bn_mag I m)"
    using l mm unfolding lane_def by (metis even_of_nat)
  moreover have "bn_mag I m < 2 ^ nat K" "bn_mag I e < 2 ^ nat E"
    using bn_mag_bits [OF ok, of m] bn_mag_bits [OF ok, of e] k
    by (meson nat_mono one_le_numeral order_less_le_trans power_increasing)+
  ultimately show ?thesis
    using len unfolding mbx_lane_def nat_dwords by blast
qed

lemma Set_val:
  assumes ok: "ipp_ok I" and len: "1 \<le> len" "len \<le> Room I x" "len \<le> int (length ws)"
    and v: "words_val ws < 2 ^ (32 * nat len)"
  shows "bn_val I (BigNumber_Set I ws len IppsBigNumPOS x) = int (words_val ws)"
    and "bn_norm I (BigNumber_Set I ws len IppsBigNumPOS x)"
proof -
  have "words_val (take (nat len) ws) = words_val ws"
    by (rule words_val_take_small [OF v]) (use len in simp)
  then have "bn_out I (Set_BN I IppsBigNumPOS len ws x) (int (words_val ws)) x"
    using ok len unfolding ipp_ok_def set_ok_def by (metis signed_simps(1))
  then show "bn_val I (BigNumber_Set I ws len IppsBigNumPOS x) = int (words_val ws)"
    and "bn_norm I (BigNumber_Set I ws len IppsBigNumPOS x)"
    by (simp_all add: BigNumber_Set_def bn_out_def)
qed

text \<open>The lanes after the copy loop.\<close>

lemma mbx_call:
  assumes ok: "ipp_me_ok I" and i: "i < 8"
    and l: "mbx_lane (bases ! i) (exps ! i) E (mods ! i) K b e m"
    and len: "length bases = 8" "length exps = 8" "length mods = 8"
    and call: "mbx_exp_mb8 I bases exps E mods K (mbx_exp_BufferSize I K) = (st, outs)"
  shows "MBX_GET_STS I st i = MBX_STATUS_OK" "length (outs ! i) = nat (2 * BITSIZE_DWORD K)"
    "words_val (outs ! i) = b ^ e mod m"
proof -
  have "mbx_ok I" using ok by (simp add: ipp_me_ok_def)
  from this [unfolded mbx_ok_def, rule_format, of bases exps mods i K "mbx_exp_BufferSize I K" E b e m]
  show "MBX_GET_STS I st i = MBX_STATUS_OK" "length (outs ! i) = nat (2 * BITSIZE_DWORD K)"
    "words_val (outs ! i) = b ^ e mod m"
    using i l len by (simp_all add: call)
qed

lemma mapR_errorCheck: "(\<And>i. i \<in> set xs \<Longrightarrow> c i) \<Longrightarrow> mapR (\<lambda>i. errorCheck (c i) (msg i)) xs = Inr (map (\<lambda>i. ()) xs)"
  by (rule mapR_ok) simp

lemma drop_lane:
  "\<forall>b \<in> set bs. length b \<le> s \<Longrightarrow> i < length bs \<Longrightarrow>
    take s (drop (i * s) ([] @ concat (map (pad s) bs) @ zs)) = pad s (bs ! i)"
  using take_lane by simp

text \<open>The size the code computes for a chunk: the largest bit size, of an element of it.\<close>

lemma max_bits:
  assumes "ipp_ok I" "xs \<noteq> []" "length xs \<le> 8"
  defines "v \<equiv> map (Ref_bits I) xs @ replicate (8 - length xs) 0"
  shows "max_element v < length xs" "v ! max_element v = Ref_bits I (xs ! max_element v)"
    "i < length xs \<Longrightarrow> Ref_bits I (xs ! i) \<le> v ! max_element v"
proof -
  have v: "v \<noteq> []" "v ! i = Ref_bits I (xs ! i)" if "i < length xs" for i
    using assms(2) that by (simp_all add: v_def nth_append)
  show le: "i < length xs \<Longrightarrow> Ref_bits I (xs ! i) \<le> v ! max_element v" for i
    using max_element_ok(2) [OF v(1), of i i] v(2) [of i] by (simp add: v_def)
  have "1 \<le> v ! max_element v"
    using le [of 0] bn_bits_pos [OF assms(1), of "xs ! 0"] assms(2) by simp
  moreover have "max_element v < length v" using max_element_ok(1) v(1) [of 0] assms(2) by simp
  ultimately show m: "max_element v < length xs"
    by (simp add: v_def nth_append not_less split: if_splits)
  show "v ! max_element v = Ref_bits I (xs ! max_element v)" by (rule v(2) [OF m])
qed

text \<open>What the results of a call stand for.\<close>

definition powers_of :: "('b, 'z) ipp_scheme \<Rightarrow> 'b list \<Rightarrow> 'b list \<Rightarrow> 'b list \<Rightarrow> 'b list \<Rightarrow> bool" where
  "powers_of I bs es ms rs \<longleftrightarrow> length rs = length bs \<and>
     (\<forall>i < length bs. bn_norm I (rs ! i) \<and>
        bn_val I (rs ! i) = mpow (bn_val I (bs ! i)) (bn_val I (es ! i)) (bn_val I (ms ! i)))"

definition chunk :: "('b, 'z) ipp_scheme \<Rightarrow> 'b list \<Rightarrow> 'b list \<Rightarrow> 'b list \<Rightarrow> bool" where
  "chunk I bs es ms \<longleftrightarrow> chunk_ok (map (bn_val I) bs) (map (bn_val I) es) (map (bn_val I) ms)"

lemma chunkD:
  assumes "chunk I bs es ms"
  shows "bs \<noteq> []" "length es = length bs" "length ms = length bs"
    "i < length bs \<Longrightarrow> lane (bn_val I (bs ! i)) (bn_val I (es ! i)) (bn_val I (ms ! i))"
    "i < length bs \<Longrightarrow> bn_val I (es ! i) \<le> bn_val I (ms ! i)"
    "i < length bs \<Longrightarrow> j < length bs \<Longrightarrow> dwords (bn_val I (ms ! i)) = dwords (bn_val I (ms ! j))"
  using assms same_size_nth [of "map (bn_val I) ms" i j] by (auto simp: chunk_def chunk_ok_def)

lemma mpow_nat:
  assumes "lane b e m"
  shows "int (nat \<bar>b\<bar> ^ nat \<bar>e\<bar> mod nat \<bar>m\<bar>) = mpow b e m" "0 \<le> mpow b e m" "mpow b e m < m"
  using assms by (simp_all add: mpow_def lane_def zmod_int)

lemma nth_zip_pad:
  assumes "length xs = n" "i < n"
  shows "map f xs ! i = f (xs ! i)"
  using assms by simp

lemma take_lane_map:
  assumes "\<forall>x \<in> set xs. length (f x) \<le> s" "i < length xs"
  shows "take s (drop (i * s) (concat (map (pad s) (map f xs)) @ z)) = pad s (f (xs ! i))"
  using take_lane [of "map f xs" s i z] assms by (auto simp del: take_append drop_append map_map)

text \<open>All lanes of a call of \<open>ippMBModExp\<close>, with its buffers.\<close>

lemma mb_lanes:
  assumes ok: "ipp_ok I" and c: "chunk I bs es ms" and n8: "length bs \<le> 8"
    and nrm: "\<forall>x \<in> set bs \<union> set es \<union> set ms. bn_norm I x"
    and K: "\<And>i. i < length bs \<Longrightarrow> Ref_bits I (ms ! i) \<le> K" "k < length bs" "K = Ref_bits I (ms ! k)"
    and E: "\<And>i. i < length bs \<Longrightarrow> Ref_bits I (es ! i) \<le> E" "j < length bs" "E = Ref_bits I (es ! j)"
    and s: "s = 2 * nat (BITSIZE_DWORD K)"
    and bb: "bb = concat (map (pad s) (map (num2vec I) bs)) @ z"
    and eb: "eb = concat (map (pad s) (map (num2vec I) es)) @ z'" and i: "i < length bs"
  shows "mbx_lane (drop (i * s) bb) (drop (i * s) eb) E (Some (Ref_data I (ms ! i))) K
    (bn_mag I (bs ! i)) (bn_mag I (es ! i)) (bn_mag I (ms ! i))"
proof (rule filled_lane [OF ok])
  note D = chunkD [OF c]
  have N: "bn_norm I (bs ! i)" "bn_norm I (es ! i)" "bn_norm I (ms ! i)" if "i < length bs" for i
    using nrm that D(2,3) by simp_all
  have bits: "Ref_bits I (bs ! i) \<le> K" "Ref_bits I (es ! i) \<le> K" if "i < length bs" for i
    using chunk_bits [OF ok N [OF that] D(4,5) [OF that]] K(1) [OF that] by simp_all
  show "bn_norm I (ms ! i)" using N [OF i] by simp
  show "lane (bn_val I (bs ! i)) (bn_val I (es ! i)) (bn_val I (ms ! i))" by (rule D(4) [OF i])
  show "Ref_bits I (bs ! i) \<le> K" "Ref_bits I (es ! i) \<le> E" "E \<le> K" "Ref_bits I (ms ! i) \<le> K"
    using bits i E K by simp_all
  have dw: "BITSIZE_DWORD (Ref_bits I (ms ! l)) = dwords (bn_val I (ms ! l))" if "l < length bs" for l
    using norm_bits_pos(1) [OF ok N(3) [OF that]] D(4) [OF that] by (simp add: dwords_def lane_def)
  show "BITSIZE_DWORD (Ref_bits I (ms ! i)) = BITSIZE_DWORD K"
    using D(6) [OF i K(2)] by (simp add: K(3) dw i K(2))
  have len: "\<forall>x \<in> set xs. length (num2vec I x) \<le> s" if "\<forall>x \<in> set xs. Ref_bits I x \<le> K" for xs
    using that by (simp add: length_num2vec [OF ok] s nw_le_stride)
  have "\<forall>x \<in> set bs. Ref_bits I x \<le> K" "\<forall>x \<in> set es. Ref_bits I x \<le> K"
    using bits D(2) by (metis in_set_conv_nth)+
  note L = this [THEN len, THEN take_lane_map]
  show "take (2 * nat (BITSIZE_DWORD K)) (drop (i * s) bb)
      = pad (2 * nat (BITSIZE_DWORD K)) (num2vec I (bs ! i))"
    unfolding bb s [symmetric] by (rule L(1) [OF i])
  show "take (2 * nat (BITSIZE_DWORD K)) (drop (i * s) eb)
      = pad (2 * nat (BITSIZE_DWORD K)) (num2vec I (es ! i))"
    unfolding eb s [symmetric] by (rule L(2)) (simp add: i D(2))
qed

text \<open>The buffers of a call after the words of the operands have been copied into their lanes.\<close>

lemma mb_fill:
  assumes "length es = length bs" "length bs \<le> 8"
    and "\<forall>x \<in> set bs \<union> set es. length (num2vec I x) \<le> s"
  defines "z \<equiv> replicate (8 * s - length bs * s) (0 :: u32)"
  shows "fill_lanes s 0 (zip (map (num2vec I) bs) (map (num2vec I) es)) (replicate (8 * s) 0) (replicate (8 * s) 0) =
    Inr (concat (map (pad s) (map (num2vec I) bs)) @ z, concat (map (pad s) (map (num2vec I) es)) @ z)"
  using fill_lanes_zeros [of "map (num2vec I) bs" "map (num2vec I) es" s "[]" 0 "[]" "8 * s"] assms
  by (simp del: map_map)

text \<open>The words of a lane's result, set into a copy of the longest modulus, are the power.\<close>

lemma mb_result:
  assumes i: "ipp_ok I" and lane: "lane (bn_val I b) (bn_val I e) (bn_val I m)"
    and mx: "bn_norm I mk" "Ref_bits I mk = K" "Ref_bits I m \<le> K"
    and out: "length out = nat (2 * BITSIZE_DWORD K)" "words_val out = bn_mag I b ^ bn_mag I e mod bn_mag I m"
  defines "r \<equiv> BigNumber_Set I out (BITSIZE_WORD K) IppsBigNumPOS (BigNumber_copy I (BigNumber_copy I mk))"
  shows "bn_val I r = mpow (bn_val I b) (bn_val I e) (bn_val I m) \<and> bn_norm I r"
proof -
  let ?x = "BigNumber_copy I (BigNumber_copy I mk)"
  have p: "int (words_val out) = mpow (bn_val I b) (bn_val I e) (bn_val I m)"
    using mpow_nat(1) [OF lane] by (simp add: out(2) abs_bn_val)
  have "words_val out < bn_mag I m"
    using mpow_nat(3) [OF lane] lane abs_bn_val [of I m] p by (simp add: lane_def)
  also have "\<dots> < 2 ^ nat (Ref_bits I m)" by (rule bn_mag_bits [OF i])
  also have "\<dots> \<le> 2 ^ (32 * nat (BITSIZE_WORD K))"
    using mx(3) BITSIZE_WORD_ge [of K] by (intro power_increasing) simp_all
  finally have b: "words_val out < 2 ^ (32 * nat (BITSIZE_WORD K))" .
  have "BITSIZE_WORD K \<le> Room I ?x"
    using copy_room [OF i, of "BigNumber_copy I mk"] by (simp add: int_bn_nw [OF i] copy_id_norm [OF i mx(1)] mx(2))
  moreover have "1 \<le> BITSIZE_WORD K" using bn_bits_pos [OF i, of mk] by (intro BITSIZE_WORD_pos) (simp add: mx(2))
  moreover have "BITSIZE_WORD K \<le> int (length out)" using BITSIZE_WORD_le_DWORD [of K] by (simp add: out(1))
  ultimately show ?thesis using Set_val [OF i _ _ _ b, of ?x] p by (simp add: r_def)
qed

lemma ippMBModExp_ok:
  assumes ok: "ipp_me_ok I" and c: "chunk I bs es ms" and n8: "length bs \<le> 8"
    and nrm: "\<forall>x \<in> set bs \<union> set es \<union> set ms. bn_norm I x"
  obtains rs where "ippMBModExp I bs es ms = Inr rs" "powers_of I bs es ms rs"
proof -
  have i: "ipp_ok I" using ok by simp
  note D = chunkD [OF c]
  let ?n = "length bs"
  let ?mv = "map (Ref_bits I) ms @ replicate (8 - ?n) 0" and ?ev = "map (Ref_bits I) es @ replicate (8 - ?n) 0"
  have ne: "es \<noteq> []" "ms \<noteq> []" using D(1-3) by (metis length_0_conv)+
  define k where "k = max_element ?mv"
  define K where "K = ?mv ! k"
  define E where "E = ?ev ! max_element ?ev"
  note mK = max_bits [OF i ne(2), unfolded D(3), OF n8, folded k_def, folded K_def]
  note mE = max_bits [OF i ne(1), unfolded D(2), OF n8, folded E_def]
  define s where "s = 2 * nat (BITSIZE_DWORD K)"
  have N: "bn_norm I (bs ! l)" "bn_norm I (es ! l)" "bn_norm I (ms ! l)" if "l < ?n" for l
    using nrm that D(2,3) by simp_all
  have bits: "Ref_bits I (bs ! l) \<le> K" "Ref_bits I (es ! l) \<le> K" if "l < ?n" for l
    using chunk_bits [OF i N [OF that] D(4,5) [OF that]] mK(3) [OF that] by simp_all
  have w: "2 * nat (int IPCL_CRYPTO_MB_SIZE * BITSIZE_DWORD K) = 8 * s" by (simp add: s_def IPCL_CRYPTO_MB_SIZE_def nat_mult_distrib)
  define z where "z = replicate (8 * s - ?n * s) (0 :: u32)"
  define bb where "bb = concat (map (pad s) (map (num2vec I) bs)) @ z"
  define eb where "eb = concat (map (pad s) (map (num2vec I) es)) @ z"
  have "\<forall>x \<in> set bs \<union> set es. length (num2vec I x) \<le> s"
    using bits D(2) by (auto simp: length_num2vec [OF i] s_def nw_le_stride in_set_conv_nth)
  note fill = mb_fill [OF D(2) n8 this, folded z_def, folded bb_def eb_def]
  have words: "mapR (bn_words I) xs = Inr (map (num2vec I) xs)" for xs
    by (rule mapR_ok) (simp add: bn_words_ok [OF i] num2vec_take [OF i])
  let ?bp = "map (\<lambda>l. drop (l * s) bb) [0..<8]" and ?ep = "map (\<lambda>l. drop (l * s) eb) [0..<8]"
  let ?md = "map (\<lambda>l. if l < ?n then Some (Ref_data I (ms ! l)) else None) [0..<8]"
  obtain st outs where call: "mbx_exp_mb8 I ?bp ?ep E ?md K (mbx_exp_BufferSize I K) = (st, outs)"
    by (cases "mbx_exp_mb8 I ?bp ?ep E ?md K (mbx_exp_BufferSize I K)")
  have lane: "mbx_lane (?bp ! l) (?ep ! l) E (?md ! l) K (bn_mag I (bs ! l)) (bn_mag I (es ! l))
      (bn_mag I (ms ! l))" if "l < ?n" for l
    using mb_lanes [OF i c n8 nrm mK(3,1,2) mE(3,1,2) s_def bb_def eb_def that] that n8
    by (simp add: D(2) E_def)
  have res: "MBX_GET_STS I st l = MBX_STATUS_OK" "length (outs ! l) = nat (2 * BITSIZE_DWORD K)"
    "words_val (outs ! l) = bn_mag I (bs ! l) ^ bn_mag I (es ! l) mod bn_mag I (ms ! l)"
    if "l < ?n" for l
    using mbx_call [OF ok _ lane [OF that] _ _ _ call] that n8 by simp_all
  have chk: "mapR (\<lambda>l. errorCheck (MBX_GET_STS I st l = 0) (msg l)) [0..<?n] = Inr (map (\<lambda>l. ()) [0..<?n])" for msg
    by (rule mapR_errorCheck) (use res(1) in simp)
  let ?x = "BigNumber_copy I (BigNumber_copy I (ms ! k))"
  let ?rs = "map (\<lambda>l. BigNumber_Set I (outs ! l) (BITSIZE_WORD K) IppsBigNumPOS ?x) [0..<?n]"
  have "ippMBModExp I bs es ms = Inr ?rs"
    using n8 D(2,3) mK(1) fill call w
    by (simp add: ippMBModExp_def Let_def IPCL_CRYPTO_MB_SIZE_def words chk
        k_def [symmetric] K_def [symmetric] E_def [symmetric] s_def [symmetric])
  moreover have "powers_of I bs es ms ?rs"
    using mb_result [OF i D(4) N(3) [OF mK(1)] mK(2) [symmetric] mK(3) res(2,3)] by (simp add: powers_of_def)
  ultimately show ?thesis by (rule that)
qed

section \<open>The interface of the vector functions\<close>

text \<open>
  A function on vectors of bases, exponents and moduli that returns the vector of powers
  whenever the vectors are admissible. The keys and ciphertexts use nothing else of modular
  exponentiation.
\<close>

locale modexp_service =
  fixes ok :: "'i \<Rightarrow> bool"
    and val :: "'i \<Rightarrow> 'b \<Rightarrow> int"
    and nrm :: "'i \<Rightarrow> 'b \<Rightarrow> bool"
    and svc :: "'i \<Rightarrow> 'b list \<Rightarrow> 'b list \<Rightarrow> 'b list \<Rightarrow> 'b list result"
  assumes svc_powers:
    "ok I \<Longrightarrow> chunk_ok (map (val I) bs) (map (val I) es) (map (val I) ms) \<Longrightarrow>
      \<exists>rs. svc I bs es ms = Inr rs \<and> length rs = length bs \<and>
        (\<forall>i < length bs. nrm I (rs ! i) \<and>
          val I (rs ! i) = mpow (val I (bs ! i)) (val I (es ! i)) (val I (ms ! i)))"
begin

lemma same_modulus:
  assumes "ok I" "bs \<noteq> []" "length es = length bs" "odd (val I m)" "1 < val I m"
    "\<forall>b \<in> set bs. 0 \<le> val I b \<and> val I b < val I m"
    "\<forall>e \<in> set es. 0 \<le> val I e \<and> val I e \<le> val I m"
  shows "\<exists>rs. svc I bs es (replicate (length bs) m) = Inr rs \<and>
    map (val I) rs = map2 (\<lambda>b e. mpow (val I b) (val I e) (val I m)) bs es"
proof -
  have "chunk_ok (map (val I) bs) (map (val I) es) (map (val I) (replicate (length bs) m))"
    using assms by (simp add: chunk_ok_def same_size_def lane_def)
  from svc_powers [OF assms(1) this] obtain rs where rs:
    "svc I bs es (replicate (length bs) m) = Inr rs" "length rs = length bs"
    "\<forall>i < length bs. val I (rs ! i) = mpow (val I (bs ! i)) (val I (es ! i)) (val I m)"
    by auto
  have "map (val I) rs = map2 (\<lambda>b e. mpow (val I b) (val I e) (val I m)) bs es"
    by (rule nth_equalityI) (use rs(2,3) assms(3) in simp_all)
  with rs(1) show ?thesis by blast
qed

lemma same_exponent:
  assumes "ok I" "bs \<noteq> []" "odd (val I m)" "1 < val I m" "0 \<le> val I e" "val I e \<le> val I m"
    "\<forall>b \<in> set bs. 0 \<le> val I b \<and> val I b < val I m"
  shows "\<exists>rs. svc I bs (replicate (length bs) e) (replicate (length bs) m) = Inr rs \<and>
    map (val I) rs = map (\<lambda>b. mpow (val I b) (val I e) (val I m)) bs"
proof -
  have "map2 (\<lambda>b e. mpow (val I b) (val I e) (val I m)) bs (replicate (length bs) e) =
      map (\<lambda>b. mpow (val I b) (val I e) (val I m)) bs"
    by (simp add: list_eq_iff_nth_eq)
  then show ?thesis
    using same_modulus [of I bs "replicate (length bs) e" m] assms by simp
qed

end

lemma map_eq_upt: "map f xs = map g [0..<n] \<longleftrightarrow> length xs = n \<and> (\<forall>i < n. f (xs ! i) = g i)"
  by (simp add: list_eq_iff_nth_eq cong: conj_cong) 

lemma powers_of_list:
  "powers_of I bs es ms rs \<longleftrightarrow> (\<forall>r \<in> set rs. bn_norm I r) \<and>
    map (bn_val I) rs = map (\<lambda>i. mpow (bn_val I (bs ! i)) (bn_val I (es ! i)) (bn_val I (ms ! i))) [0..<length bs]"
  unfolding powers_of_def map_eq_upt all_set_conv_all_nth by metis

lemma ippSBModExpWrapper_ok:
  assumes ok: "ipp_me_ok I" and c: "chunk I bs es ms"
  shows "\<exists>rs. ippSBModExpWrapper I bs es ms = Inr rs \<and> powers_of I bs es ms rs"
proof -
  note D = chunkD [OF c]
  define f where "f i = (SOME r. ippSBModExp I (bs ! i) (es ! i) (ms ! i) = Inr r \<and> bn_norm I r \<and>
    bn_val I r = mpow (bn_val I (bs ! i)) (bn_val I (es ! i)) (bn_val I (ms ! i)))" for i
  have f: "ippSBModExp I (bs ! i) (es ! i) (ms ! i) = Inr (f i) \<and> bn_norm I (f i) \<and>
      bn_val I (f i) = mpow (bn_val I (bs ! i)) (bn_val I (es ! i)) (bn_val I (ms ! i))"
    if "i < length bs" for i
    unfolding f_def by (rule someI_ex) (use ippSBModExp_ok [OF ok D(4) [OF that]] in blast)
  have "ippSBModExpWrapper I bs es ms = Inr (map (\<lambda>i. bn_assign I (f i)) [0..<length bs])"
    unfolding ippSBModExpWrapper_def by (rule mapR_ok) (use f D(2,3) in simp)
  then show ?thesis
    using f ok by (auto simp: powers_of_def bn_assign_copy bn_simps)
qed

text \<open>The chunks of eight cover the vector.\<close>

lemma chunk_end:
  "i < (n + 7) div 8 \<Longrightarrow>
    i * 8 + (if i = (n + 7) div 8 - 1 \<and> 0 < n mod 8 then n mod 8 else 8) = min n (i * 8 + 8)"
  for n :: nat
proof -
  assume i: "i < (n + 7) div 8"
  obtain q r where n: "n = 8 * q + r" "r < 8"
    by (metis mod_less_divisor mult_div_mod_eq zero_less_numeral)
  show ?thesis
  proof (cases "r = 0")
    case True
    then show ?thesis using i n by (simp add: min_def)
  next
    case False
    then have "(n + 7) div 8 = q + 1" using n(2) by (simp add: n(1) div_nat_eqI)
    then show ?thesis using i n False by (auto simp: min_def)
  qed
qed

lemma concat_chunks: "concat (map (\<lambda>i. [i * 8..<min n (i * 8 + 8)]) [0..<k]) = [0..<min n (k * 8)]"
proof (induction k)
  case (Suc k)
  have "[0..<min n (k * 8)] @ [k * 8..<min n (k * 8 + 8)] = [0..<min n (k * 8 + 8)]"
  proof (cases "k * 8 \<le> n")
    case True
    then obtain d where "min n (k * 8 + 8) = k * 8 + d"
      by (metis le_add1 le_Suc_ex min_def)
    then show ?thesis using True upt_add_eq_append [of 0 "k * 8" d] by (simp add: min_absorb2)
  qed simp
  then show ?case using Suc by (simp add: add.commute [of 8])
qed simp

lemma chunk_part:
  assumes ok: "ipp_ok I" and c: "chunk I bs es ms" and l: "off + k \<le> length bs" "0 < k"
  defines "cp xs \<equiv> map (BigNumber_copy I) (take k (drop off xs))"
  shows "chunk I (cp bs) (cp es) (cp ms)" "length (cp bs) = k"
    "i < k \<Longrightarrow> bn_val I (cp bs ! i) = bn_val I (bs ! (off + i))"
    "i < k \<Longrightarrow> bn_val I (cp es ! i) = bn_val I (es ! (off + i))"
    "i < k \<Longrightarrow> bn_val I (cp ms ! i) = bn_val I (ms ! (off + i))"
    "\<forall>x \<in> set (cp bs) \<union> set (cp es) \<union> set (cp ms). bn_norm I x"
proof -
  note D = chunkD [OF c]
  have len: "length (cp xs) = k" and
    val: "i < k \<Longrightarrow> bn_val I (cp xs ! i) = bn_val I (xs ! (off + i))"
    if "length xs = length bs" for xs i
    using that l by (simp_all add: cp_def copy_val [OF ok] add.commute)
  show "length (cp bs) = k" by (rule len) simp
  show "i < k \<Longrightarrow> bn_val I (cp bs ! i) = bn_val I (bs ! (off + i))"
    "i < k \<Longrightarrow> bn_val I (cp es ! i) = bn_val I (es ! (off + i))"
    "i < k \<Longrightarrow> bn_val I (cp ms ! i) = bn_val I (ms ! (off + i))"
    by (simp_all add: val D(2,3))
  show "\<forall>x \<in> set (cp bs) \<union> set (cp es) \<union> set (cp ms). bn_norm I x"
    by (auto simp: cp_def copy_norm [OF ok])
  have "same_size (map (bn_val I) (cp ms))"
  proof -
    have "dwords (bn_val I (cp ms ! i)) = dwords (bn_val I (cp ms ! 0))" if "i < k" for i
      using that l D(6) by (simp add: val [OF D(3)])
    note eq = this
    have "cp ms \<noteq> []" using len [OF D(3)] l(2) by auto
    then show ?thesis
      by (intro same_sizeI; simp only: length_map nth_map len [OF D(3)] l(2) list.map_disc_iff not_False_eq_True)
        (rule eq)
  qed
  moreover have "lane (bn_val I (cp bs ! i)) (bn_val I (cp es ! i)) (bn_val I (cp ms ! i)) \<and>
      bn_val I (cp es ! i) \<le> bn_val I (cp ms ! i)" if "i < k" for i
    using that l D(4,5) by (simp add: val D(2,3))
  moreover have "cp bs \<noteq> []" using len [of bs] l(2) by auto
  ultimately show "chunk I (cp bs) (cp es) (cp ms)"
    by (simp add: chunk_def chunk_ok_def len D(2,3))
qed

text \<open>One iteration of the loop over the chunks.\<close>

lemma mb_iteration:
  assumes ok: "ipp_me_ok I" and c: "chunk I bs es ms" and l: "off + k \<le> length bs" "0 < k" "k \<le> 8"
  shows "\<exists>tmp. mb_chunk I bs es ms off k = Inr tmp \<and>
    (\<forall>r \<in> set tmp. bn_norm I r) \<and> map (bn_val I) tmp =
      map (\<lambda>i. mpow (bn_val I (bs ! i)) (bn_val I (es ! i)) (bn_val I (ms ! i))) [off..<off + k]"
proof -
  have i: "ipp_ok I" using ok by simp
  note D = chunkD [OF c] and P = chunk_part [OF i c l(1,2)]
  obtain rs where rs: "ippMBModExp I (map (BigNumber_copy I) (take k (drop off bs)))
      (map (BigNumber_copy I) (take k (drop off es))) (map (BigNumber_copy I) (take k (drop off ms))) = Inr rs"
    and p: "powers_of I (map (BigNumber_copy I) (take k (drop off bs)))
      (map (BigNumber_copy I) (take k (drop off es))) (map (BigNumber_copy I) (take k (drop off ms))) rs"
    by (rule ippMBModExp_ok [OF ok P(1) _ P(6)]) (use P(2) l(3) in simp_all)
  have "map (bn_val I) (map (bn_assign I) rs) =
      map (\<lambda>i. mpow (bn_val I (bs ! i)) (bn_val I (es ! i)) (bn_val I (ms ! i))) [off..<off + k]"
    using p P(2-5) by (simp add: powers_of_def list_eq_iff_nth_eq bn_assign_copy copy_val [OF i])
  moreover have "\<forall>r \<in> set (map (bn_assign I) rs). bn_norm I r"
    by (auto simp: bn_assign_copy copy_norm [OF i])
  ultimately show ?thesis
    using l(1) D(2,3) rs by (simp add: mb_chunk_def)
qed

lemma ippMBModExpWrapper_ok:
  assumes ok: "ipp_me_ok I" and c: "chunk I bs es ms"
  shows "\<exists>rs. ippMBModExpWrapper I bs es ms = Inr rs \<and> powers_of I bs es ms rs"
proof -
  let ?n = "length bs" and ?nc = "(length bs + 7) div 8"
  let ?F = "\<lambda>i. mpow (bn_val I (bs ! i)) (bn_val I (es ! i)) (bn_val I (ms ! i))"
  let ?k = "\<lambda>i. if i = ?nc - 1 \<and> 0 < ?n mod 8 then ?n mod 8 else 8"
  let ?body = "\<lambda>i. mb_chunk I bs es ms (i * 8) (?k i)"
  define Q where "Q i tmp \<longleftrightarrow> ?body i = Inr tmp \<and> (\<forall>r \<in> set tmp. bn_norm I r) \<and>
      map (bn_val I) tmp = map ?F [i * 8..<min ?n (i * 8 + 8)]" for i tmp
  have "\<forall>i \<in> {..<?nc}. \<exists>tmp. Q i tmp"
  proof
    fix i assume "i \<in> {..<?nc}"
    then have e: "i * 8 + ?k i = min ?n (i * 8 + 8)" by (intro chunk_end) simp
    then have "i * 8 + ?k i \<le> ?n" by simp
    moreover have "0 < ?k i" "?k i \<le> 8" by (simp_all add: less_imp_le)
    ultimately show "\<exists>tmp. Q i tmp"
      using mb_iteration [OF ok c, of "i * 8" "?k i"] unfolding e Q_def by blast
  qed
  from bchoice [OF this] obtain t where "\<forall>i \<in> {..<?nc}. Q i (t i)" ..
  then have t: "i < ?nc \<Longrightarrow> ?body i = Inr (t i) \<and> (\<forall>r \<in> set (t i). bn_norm I r) \<and>
      map (bn_val I) (t i) = map ?F [i * 8..<min ?n (i * 8 + 8)]" for i
    by (simp add: Q_def)
  have "mapR ?body [0..<?nc] = Inr (map t [0..<?nc])" by (rule mapR_ok) (use t in simp)
  then have "ippMBModExpWrapper I bs es ms = Inr (concat (map t [0..<?nc]))"
    unfolding ippMBModExpWrapper_def mapR_concat_def IPCL_CRYPTO_MB_SIZE_def Let_def
    by (simp add: add.commute [of 7] del: One_nat_def)
  moreover have "map (bn_val I) (concat (map t [0..<?nc])) = map ?F [0..<?n]"
  proof -
    have "map (\<lambda>i. map (bn_val I) (t i)) [0..<?nc]
        = map (\<lambda>i. map ?F [i * 8..<min ?n (i * 8 + 8)]) [0..<?nc]"
      by (rule map_cong [OF refl]) (simp add: t)
    then have "map (bn_val I) (concat (map t [0..<?nc]))
        = map ?F (concat (map (\<lambda>i. [i * 8..<min ?n (i * 8 + 8)]) [0..<?nc]))"
      unfolding map_concat map_map comp_def by (rule arg_cong)
    also have "concat (map (\<lambda>i. [i * 8..<min ?n (i * 8 + 8)]) [0..<?nc]) = [0..<?n]"
      unfolding concat_chunks by (simp add: min_def)
    finally show ?thesis .
  qed
  moreover have "\<forall>r \<in> set (concat (map t [0..<?nc])). bn_norm I r" using t by auto
  ultimately show ?thesis unfolding powers_of_list by blast
qed

lemma ippModExp_ok:
  assumes ok: "ipp_me_ok I" and c: "chunk I bs es ms"
  shows "\<exists>rs. ippModExp I bs es ms = Inr rs \<and> powers_of I bs es ms rs"
proof (cases "length bs = 1")
  case True
  note D = chunkD [OF c]
  obtain r where r: "ippSBModExp I (bs ! 0) (es ! 0) (ms ! 0) = Inr r"
    "bn_val I r = mpow (bn_val I (bs ! 0)) (bn_val I (es ! 0)) (bn_val I (ms ! 0))"
    by (rule ippSBModExp_ok [OF ok D(4) [of 0]]) (use True in simp_all)
  then have "ippModExp I bs es ms = Inr [bn_assign I r]"
    using True D(2,3) by (simp add: ippModExp_def)
  then show ?thesis using r(2) True ok by (simp add: powers_of_def bn_assign_copy bn_simps)
next
  case False
  then show ?thesis
    using ippMBModExpWrapper_ok [OF assms] ippSBModExpWrapper_ok [OF assms]
    by (simp add: ippModExp_def)
qed

text \<open>The processor build, where the dispatch always goes to \<open>ippModExp\<close>.\<close>

definition cpu_ok :: "('b, 'z) ipcl_scheme \<Rightarrow> bool" where
  "cpu_ok I \<longleftrightarrow> ipp_me_ok I \<and> \<not> use_qat (Config I)"

lemma cpu_ok_simps [simp]:
  "cpu_ok I \<Longrightarrow> ipp_ok I" "cpu_ok I \<Longrightarrow> ipp_me_ok I" "cpu_ok I \<Longrightarrow> \<not> use_qat (Config I)"
  by (simp_all add: cpu_ok_def)

lemma modExp_cpu: "cpu_ok I \<Longrightarrow> modExp I bs es ms w = (ippModExp I bs es ms, w)"
  by (simp add: modExp_def)

interpretation sb: modexp_service ipp_me_ok bn_val bn_norm ippSBModExpWrapper
  by unfold_locales (use ippSBModExpWrapper_ok in \<open>fastforce simp: chunk_def powers_of_def\<close>)

interpretation mb: modexp_service ipp_me_ok bn_val bn_norm ippMBModExpWrapper
  by unfold_locales (use ippMBModExpWrapper_ok in \<open>fastforce simp: chunk_def powers_of_def\<close>)

interpretation ippme: modexp_service ipp_me_ok bn_val bn_norm ippModExp
  by unfold_locales (use ippModExp_ok in \<open>fastforce simp: chunk_def powers_of_def\<close>)

interpretation me: modexp_service cpu_ok bn_val bn_norm "\<lambda>I bs es ms. fst (modExp I bs es ms w)" for w
  by unfold_locales (simp add: modExp_cpu ippModExp_ok [unfolded chunk_def powers_of_def])

text \<open>Both paths of the dispatch give the same numbers.\<close>

lemma mb_eq_sb:
  assumes "ipp_me_ok I" "chunk I bs es ms"
  shows "\<exists>xs ys. ippMBModExpWrapper I bs es ms = Inr xs \<and> ippSBModExpWrapper I bs es ms = Inr ys \<and>
    map (bn_val I) xs = map (bn_val I) ys"
  using ippMBModExpWrapper_ok [OF assms] ippSBModExpWrapper_ok [OF assms]
  by (auto simp: powers_of_list)

lemma modExp_1_ok:
  assumes "ipp_me_ok I" "lane (bn_val I b) (bn_val I e) (bn_val I m)"
  obtains r where "modExp_1 I b e m = Inr r" "bn_norm I r"
    "bn_val I r = mpow (bn_val I b) (bn_val I e) (bn_val I m)"
  using ippSBModExp_ok [OF assms] by (auto simp: modExp_1_def ippModExp_1_def)

section \<open>Dispatch to the accelerator\<close>

text \<open>What both parts return is put together in order, when the split is inside the vector.\<close>

lemma modExp_hybrid:
  assumes cfg: "use_qat (Config I)" "use_omp (Config I)" and r: "ratio_ok w"
    and k: "hybrid_qat_size (hyb_ratio w) (length bs) = k" "0 < k" "k < length bs"
    and len: "length es = length bs" "length ms = length bs"
    and q: "heQatBnModExp_MT I (map (BigNumber_copy I) (take k bs)) (map (BigNumber_copy I) (take k es))
        (map (BigNumber_copy I) (take k ms)) IPCL_QAT_MODEXP_BATCH_SIZE = Inr xs" "length xs = k"
    and p: "ippModExp I (map (BigNumber_copy I) (drop k bs)) (map (BigNumber_copy I) (drop k es))
        (map (BigNumber_copy I) (drop k ms)) = Inr ys" "length ys = length bs - k"
  shows "modExp I bs es ms w = (Inr (map (bn_assign I) (xs @ ys)), w)"
  using assms
  by (simp add: modExp_def ratio_ok_def head_upto_def tail_from_def qatModExp_def copy_into_def Let_def)

lemma modExp_bad_ratio:
  assumes "use_qat (Config I)" "use_omp (Config I)" "\<not> ratio_ok w"
  shows "modExp I bs es ms w = (Inl (RuntimeError ''modExp: hybrid modexp qat ratio is incorrect''), w)"
  using assms by (cases "0 \<le> hyb_ratio w") (simp_all add: modExp_def ratio_ok_def)

end
