(* ===== verification/RandomGen.thy ===== *)
theory RandomGen
  imports ModExp
begin

text \<open>
  The random generator wrappers of \<open>src/ipcl/utils/common.cpp\<close>: the choice between the
  hardware generators and the seeded one, the retries, and \<open>getRandomBN\<close>. The source of
  entropy is the component \<open>rng\<close> of the state.
\<close>

section \<open>The environment\<close>

text \<open>
  The generators of the library, parameters of the model: each draws from the entropy \<open>'r\<close>,
  takes the old state of its output and returns a status. \<open>random_device\<close> and \<open>mt19937\<close> are
  the standard library's: a seed, and the outputs a seed gives. \<open>BigNumGetSize_stat\<close> and
  \<open>BigNumInit_stat\<close> are the status codes of the two calls that \<open>BigNumInit\<close> stands for.
  \<open>PrimeGen_BN\<close> is the prime generator, which calls the function it is given.
\<close>

record ('b, 'r) env = "'b ipcl" +
  BigNumGetSize_stat :: "int \<Rightarrow> int"
  BigNumInit_stat :: "int \<Rightarrow> int"
  TRNGenRDSEED_BN :: "int \<Rightarrow> 'b \<Rightarrow> 'r \<Rightarrow> (int \<times> 'b) \<times> 'r"
  PRNGenRDRAND_BN :: "int \<Rightarrow> 'b \<Rightarrow> 'r \<Rightarrow> (int \<times> 'b) \<times> 'r"
  PRNGen_BN :: "int \<Rightarrow> 'b \<Rightarrow> u8 list \<Rightarrow> int \<times> 'b"
  TRNGenRDSEED :: "int \<Rightarrow> u32 list \<Rightarrow> 'r \<Rightarrow> (int \<times> u32 list) \<times> 'r"
  PRNGenRDRAND :: "int \<Rightarrow> u32 list \<Rightarrow> 'r \<Rightarrow> (int \<times> u32 list) \<times> 'r"
  PRNGen :: "int \<Rightarrow> u32 list \<Rightarrow> u8 list \<Rightarrow> (int \<times> u32 list) \<times> u8 list"
  PRNGGetSize :: int
  PRNGInit :: "int \<Rightarrow> u8 list \<Rightarrow> u8 list"
  PRNGSetSeed :: "'b \<Rightarrow> u8 list \<Rightarrow> u8 list"
  random_device :: "'r \<Rightarrow> u32 \<times> 'r"
  mt19937 :: "u32 \<Rightarrow> nat \<Rightarrow> u32"
  PrimeGetSize :: "int \<Rightarrow> int"
  PrimeGen_BN :: "'b \<Rightarrow> int \<Rightarrow> int
    \<Rightarrow> (u32 list \<Rightarrow> int \<Rightarrow> u8 list \<times> 'r \<Rightarrow> (int \<times> u32 list) \<times> (u8 list \<times> 'r))
    \<Rightarrow> u8 list \<times> 'r \<Rightarrow> (int \<times> 'b) \<times> (u8 list \<times> 'r)"

record 'r world = hybrid +
  rng :: 'r

text \<open>A computation on the entropy alone.\<close>

definition on_rng :: "('r \<Rightarrow> 'a \<times> 'r) \<Rightarrow> ('r world, 'a) prog" where
  "on_rng f w = (let (x, r) = f (rng w) in (Inr x, w\<lparr>rng := r\<rparr>))"

section \<open>The wrappers\<close>

definition IPCL_RDRAND_RETRIES :: nat where
  "IPCL_RDRAND_RETRIES = 3"

text \<open>\<open>n\<close> words, each from two outputs of a freshly seeded generator.\<close>

definition rand32u :: "('b, 'r, 'z) env_scheme \<Rightarrow> nat \<Rightarrow> 'r \<Rightarrow> u32 list \<times> 'r" where
  "rand32u E n r =
     (let (seed, r) = random_device E r
      in (map (\<lambda>i. push_bit 16 (mt19937 E seed (2 * i)) + mt19937 E seed (2 * i + 1)) [0..<n], r))"

text \<open>The retry loop: \<open>count\<close> calls have been made, \<open>x\<close> is the state of the output.\<close>

function rdrand_loop ::
  "('a \<Rightarrow> 'r \<Rightarrow> (int \<times> 'a) \<times> 'r) \<Rightarrow> nat \<Rightarrow> 'a \<Rightarrow> 'r \<Rightarrow> (int \<times> 'a) \<times> 'r" where
  "rdrand_loop gen count x r =
     (let ((stat, x), r) = gen x r; count = count + 1
      in if stat \<noteq> ippStsNoErr \<and> count < IPCL_RDRAND_RETRIES then rdrand_loop gen count x r
         else ((stat, x), r))"
  by pat_completeness auto
termination
  by (relation "measure (\<lambda>(gen, count, x, r). IPCL_RDRAND_RETRIES - count)") auto

declare rdrand_loop.simps [simp del]

definition ippGenRandom :: "('b, 'r, 'z) env_scheme \<Rightarrow> u32 list \<Rightarrow> int \<Rightarrow> u8 list \<times> 'r
    \<Rightarrow> (int \<times> u32 list) \<times> (u8 list \<times> 'r)" where
  "ippGenRandom E rand bits ctx_r =
     (let (ctx, r) = ctx_r
      in case kRNGenType (Config E) of
           RDSEED \<Rightarrow>
             (let ((stat, x), r) = TRNGenRDSEED E bits rand r
              in if stat = ippStsNoErr then ((stat, x), (ctx, r))
                 else let (out, r) = rdrand_loop (PRNGenRDRAND E bits) 0 x r in (out, (ctx, r)))
         | RDRAND \<Rightarrow> (let (out, r) = rdrand_loop (PRNGenRDRAND E bits) 0 rand r in (out, (ctx, r)))
         | PSEUDO \<Rightarrow> (let (out, ctx) = PRNGen E bits rand ctx in (out, (ctx, r))))"

definition seed_size :: nat where
  "seed_size = 160"

definition ippGenRandomBN :: "('b, 'r, 'z) env_scheme \<Rightarrow> 'b \<Rightarrow> int \<Rightarrow> 'r \<Rightarrow> (int \<times> 'b) \<times> 'r" where
  "ippGenRandomBN E rand bits r =
     (case kRNGenType (Config E) of
        RDSEED \<Rightarrow>
          (let ((stat, x), r) = TRNGenRDSEED_BN E bits rand r
           in if stat = ippStsNoErr then ((stat, x), r)
              else rdrand_loop (PRNGenRDRAND_BN E bits) 0 x r)
      | RDRAND \<Rightarrow> rdrand_loop (PRNGenRDRAND_BN E bits) 0 rand r
      | PSEUDO \<Rightarrow>
          (let prng = replicate (nat (PRNGGetSize E)) 0;
               prng = PRNGInit E (int seed_size) prng;
               (seed, r) = rand32u E seed_size r;
               seed_bn = BigNumber_data E (Some seed) (int seed_size) IppsBigNumPOS;
               prng = PRNGSetSeed E seed_bn prng
           in (PRNGen_BN E bits rand prng, r)))"

definition getRandomBN :: "('b, 'r, 'z) env_scheme \<Rightarrow> int \<Rightarrow> ('r world, 'b) prog" where
  "getRandomBN E bits =
     (let bn_len = BITSIZE_WORD bits
      in bindP (liftR (errorCheck (BigNumGetSize_stat E bn_len = ippStsNoErr)
           ''getRandomBN: get IppsBigNumState context error.'')) (\<lambda>_.
         bindP (liftR (errorCheck (BigNumInit_stat E bn_len = ippStsNoErr)
           ''getRandomBN: init big number context error.'')) (\<lambda>_.
         bindP (on_rng (ippGenRandomBN E (BigNumInit E bn_len) bits)) (\<lambda>(stat, pBN).
         bindP (liftR (errorCheck (stat = ippStsNoErr)
           ''getRandomBN:  generate random big number error.'')) (\<lambda>_.
         retP (BigNumber_copy E pBN))))))"

section \<open>What the generators return\<close>

text \<open>
  The documented behaviour: the size and the initialisation of a state of at least one word
  succeed, and a generator that reports success has written a number of at most the bits
  asked for.
\<close>

definition drawn :: "('b, 'z) ipp_scheme \<Rightarrow> int \<Rightarrow> 'b \<Rightarrow> int \<times> 'b \<Rightarrow> bool" where
  "drawn I bits x out \<longleftrightarrow> Room I (snd out) = Room I x \<and>
     (fst out = ippStsNoErr \<longrightarrow> 0 \<le> bn_val I (snd out) \<and> bn_val I (snd out) < 2 ^ nat bits)"

definition rng_ok :: "('b, 'r, 'z) env_scheme \<Rightarrow> bool" where
  "rng_ok E \<longleftrightarrow>
     (\<forall>len. 1 \<le> len \<longrightarrow> BigNumGetSize_stat E len = ippStsNoErr \<and> BigNumInit_stat E len = ippStsNoErr) \<and>
     (\<forall>bits x r. 1 \<le> bits \<and> bits \<le> 32 * Room E x \<longrightarrow>
        drawn E bits x (fst (TRNGenRDSEED_BN E bits x r)) \<and>
        drawn E bits x (fst (PRNGenRDRAND_BN E bits x r)) \<and>
        (\<forall>prng. drawn E bits x (PRNGen_BN E bits x prng)))"

text \<open>Three calls at most, and the first that succeeds is the last.\<close>

lemma rdrand_loop_unroll:
  "rdrand_loop gen 0 x r =
     (let ((s1, x1), r1) = gen x r
      in if s1 = ippStsNoErr then ((s1, x1), r1)
         else let ((s2, x2), r2) = gen x1 r1
              in if s2 = ippStsNoErr then ((s2, x2), r2) else gen x2 r2)"
  by (simp add: rdrand_loop.simps [of gen 0] rdrand_loop.simps [of gen "Suc 0"]
      rdrand_loop.simps [of gen "Suc (Suc 0)"] IPCL_RDRAND_RETRIES_def Let_def split: prod.splits)

lemma drawn_rdrand_loop:
  assumes gen: "\<And>x r. bits \<le> 32 * Room I x \<Longrightarrow> drawn I bits x (fst (gen x r))"
    and x: "bits \<le> 32 * Room I x"
  shows "drawn I bits x (fst (rdrand_loop gen 0 x r))"
proof -
  obtain s1 x1 r1 where g1: "gen x r = ((s1, x1), r1)" by (metis prod.collapse)
  obtain s2 x2 r2 where g2: "gen x1 r1 = ((s2, x2), r2)" by (metis prod.collapse)
  have d1: "drawn I bits x (s1, x1)" using gen [OF x, of r] by (simp add: g1)
  then have R1: "Room I x1 = Room I x" by (simp add: drawn_def)
  have d2: "drawn I bits x1 (s2, x2)" using gen [of x1 r1] x by (simp add: g2 R1)
  then have R2: "Room I x2 = Room I x" by (simp add: drawn_def R1)
  have d3: "drawn I bits x2 (fst (gen x2 r2))" using gen [of x2 r2] x by (simp add: R2)
  show ?thesis
    using d1 d2 d3 R1 R2 by (simp add: rdrand_loop_unroll g1 g2 drawn_def)
qed

lemma ippGenRandomBN_drawn:
  assumes ok: "rng_ok E" and x: "1 \<le> bits" "bits \<le> 32 * Room E x"
  shows "drawn E bits x (fst (ippGenRandomBN E x bits r))"
proof -
  have T: "drawn E bits y (fst (TRNGenRDSEED_BN E bits y s))"
    and R: "drawn E bits y (fst (PRNGenRDRAND_BN E bits y s))"
    and P: "drawn E bits y (PRNGen_BN E bits y prng)" if "bits \<le> 32 * Room E y" for y s prng
    using ok x(1) that by (simp_all add: rng_ok_def)
  have L: "drawn E bits y (fst (rdrand_loop (PRNGenRDRAND_BN E bits) 0 y s))"
    if "bits \<le> 32 * Room E y" for y s
    by (rule drawn_rdrand_loop [OF R that])
  show ?thesis
  proof (cases "kRNGenType (Config E)")
    case RDSEED
    obtain s1 x1 r1 where g: "TRNGenRDSEED_BN E bits x r = ((s1, x1), r1)" by (metis prod.collapse)
    have d: "drawn E bits x (s1, x1)" using T [OF x(2), of r] by (simp add: g)
    then have R1: "Room E x1 = Room E x" by (simp add: drawn_def)
    have "drawn E bits x1 (fst (rdrand_loop (PRNGenRDRAND_BN E bits) 0 x1 r1))"
      by (rule L) (use x(2) R1 in simp)
    then show ?thesis using d R1 by (simp add: ippGenRandomBN_def RDSEED g drawn_def)
  qed (simp_all add: ippGenRandomBN_def L [OF x(2)] P [OF x(2)] Let_def split: prod.splits)
qed

text \<open>Success gives a number in range, failure an exception; only the entropy changes.\<close>

lemma getRandomBN_run:
  assumes ok: "ipp_ok E" "rng_ok E" and b: "1 \<le> bits" and run: "getRandomBN E bits w = (res, w')"
  shows "\<exists>r. w' = w\<lparr>rng := r\<rparr>"
    and "res = Inl e \<Longrightarrow> e = RuntimeError ''getRandomBN:  generate random big number error.''"
    and "res = Inr x \<Longrightarrow> 0 \<le> bn_val E x \<and> bn_val E x < 2 ^ nat bits \<and> bn_norm E x"
proof -
  let ?l = "BITSIZE_WORD bits" and ?x = "BigNumInit E (BITSIZE_WORD bits)"
  have l: "1 \<le> ?l" by (rule BITSIZE_WORD_pos [OF b])
  then have "?l \<le> Room E ?x" using ok(1) by (simp add: ipp_ok_def init_ok_def)
  then have x: "bits \<le> 32 * Room E ?x" using BITSIZE_WORD_ge [of bits] by linarith
  obtain s y r where g: "ippGenRandomBN E ?x bits (rng w) = ((s, y), r)" by (metis prod.collapse)
  have d: "drawn E bits ?x (s, y)"
    using ippGenRandomBN_drawn [OF ok(2) b x, of "rng w"] by (simp add: g)
  have "getRandomBN E bits w = (if s = ippStsNoErr then Inr (BigNumber_copy E y)
      else Inl (RuntimeError ''getRandomBN:  generate random big number error.''), w\<lparr>rng := r\<rparr>)"
    using ok(2) l by (simp add: getRandomBN_def rng_ok_def Let_def bindP_def on_rng_def g errorCheck_def)
  then show "\<exists>r. w' = w\<lparr>rng := r\<rparr>"
    and "res = Inl e \<Longrightarrow> e = RuntimeError ''getRandomBN:  generate random big number error.''"
    and "res = Inr x \<Longrightarrow> 0 \<le> bn_val E x \<and> bn_val E x < 2 ^ nat bits \<and> bn_norm E x"
    using run d ok(1) by (auto simp: drawn_def bn_simps split: if_splits)
qed

section \<open>The interface of a random source\<close>

text \<open>What the key classes use: numbers in range, or an exception, and a state that differs in
  the entropy only.\<close>

locale random_source =
  fixes ok :: "'i \<Rightarrow> bool"
    and val :: "'i \<Rightarrow> 'b \<Rightarrow> int"
    and same :: "'w \<Rightarrow> 'w \<Rightarrow> bool"
    and gen :: "'i \<Rightarrow> int \<Rightarrow> ('w, 'b) prog"
  assumes same_refl: "same w w"
    and same_trans: "same w w' \<Longrightarrow> same w' w'' \<Longrightarrow> same w w''"
    and gen_same: "ok I \<Longrightarrow> 1 \<le> bits \<Longrightarrow> gen I bits w = (res, w') \<Longrightarrow> same w w'"
    and gen_range: "ok I \<Longrightarrow> 1 \<le> bits \<Longrightarrow> gen I bits w = (Inr x, w') \<Longrightarrow>
      0 \<le> val I x \<and> val I x < 2 ^ nat bits"
begin

text \<open>A vector of numbers, each passed through \<open>f\<close>.\<close>

lemma gen_vector:
  assumes "ok I" "1 \<le> bits" "mapP (\<lambda>_. bindP (gen I bits) (\<lambda>x. retP (f x))) is w = (Inr xs, w')"
  shows "length xs = length is" "same w w'"
    "\<And>y. y \<in> set xs \<Longrightarrow> \<exists>x. y = f x \<and> 0 \<le> val I x \<and> val I x < 2 ^ nat bits"
proof -
  have "length xs = length is \<and> same w w' \<and>
      (\<forall>y \<in> set xs. \<exists>x. y = f x \<and> 0 \<le> val I x \<and> val I x < 2 ^ nat bits)"
    using assms(3)
  proof (induction "is" arbitrary: xs w)
    case Nil
    then show ?case by (simp add: same_refl)
  next
    case (Cons i "is")
    obtain y w1 where y: "bindP (gen I bits) (\<lambda>x. retP (f x)) w = (Inr y, w1)" and
      m: "bindP (mapP (\<lambda>_. bindP (gen I bits) (\<lambda>x. retP (f x))) is) (\<lambda>ys. retP (y # ys)) w1 = (Inr xs, w')"
      using Cons.prems unfolding mapP.simps by (rule bindP_InrE)
    obtain x w2 where g2: "gen I bits w = (Inr x, w2)" and x: "retP (f x) w2 = (Inr y, w1)"
      using y by (rule bindP_InrE)
    then have g: "gen I bits w = (Inr x, w1)" and yx: "y = f x" by simp_all
    obtain ys w3 where ys3: "mapP (\<lambda>_. bindP (gen I bits) (\<lambda>x. retP (f x))) is w1 = (Inr ys, w3)"
      and "retP (y # ys) w3 = (Inr xs, w')"
      using m by (rule bindP_InrE)
    then have ys: "mapP (\<lambda>_. bindP (gen I bits) (\<lambda>x. retP (f x))) is w1 = (Inr ys, w')" "xs = f x # ys"
      by (simp_all add: yx)
    have r: "0 \<le> val I x \<and> val I x < 2 ^ nat bits" and s: "same w w1"
      using gen_range [OF assms(1,2) g] gen_same [OF assms(1,2) g] by blast+
    show ?case using Cons.IH [OF ys(1)] r s ys(2) same_trans by auto
  qed
  then show "length xs = length is" "same w w'"
    "\<And>y. y \<in> set xs \<Longrightarrow> \<exists>x. y = f x \<and> 0 \<le> val I x \<and> val I x < 2 ^ nat bits"
    by blast+
qed

end

definition same_but_rng :: "'r world \<Rightarrow> 'r world \<Rightarrow> bool" where
  "same_but_rng w w' \<longleftrightarrow> (\<exists>r. w' = w\<lparr>rng := r\<rparr>)"

lemma same_but_rng_simps [simp]:
  "same_but_rng w w' \<Longrightarrow> hyb_ratio w' = hyb_ratio w" "same_but_rng w w' \<Longrightarrow> hyb_mode w' = hyb_mode w"
  by (auto simp: same_but_rng_def)

definition rand_ok :: "('b, 'r, 'z) env_scheme \<Rightarrow> bool" where
  "rand_ok E \<longleftrightarrow> ipp_ok E \<and> rng_ok E"

interpretation rs: random_source rand_ok bn_val same_but_rng getRandomBN
proof unfold_locales
  show "same_but_rng w w" for w :: "'r world"
    unfolding same_but_rng_def by (rule exI [of _ "rng w"]) simp
  show "same_but_rng w w''" if s: "same_but_rng w w'" "same_but_rng w' w''" for w w' w'' :: "'r world"
  proof -
    obtain r r' where "w' = w\<lparr>rng := r\<rparr>" "w'' = w'\<lparr>rng := r'\<rparr>"
      using s unfolding same_but_rng_def by blast
    then have "w'' = w\<lparr>rng := r'\<rparr>" by simp
    then show ?thesis unfolding same_but_rng_def by blast
  qed
next
  fix E :: "('a, 'b, 'c) env_scheme" and bits w res w'
  assume "rand_ok E" "1 \<le> bits" "getRandomBN E bits w = (res, w')"
  then show "same_but_rng w w'"
    using getRandomBN_run(1) unfolding rand_ok_def same_but_rng_def by blast
next
  fix E :: "('a, 'b, 'c) env_scheme" and bits w x w'
  assume "rand_ok E" and r: "1 \<le> bits" "getRandomBN E bits w = (Inr x, w')"
  then have "ipp_ok E" "rng_ok E" by (simp_all add: rand_ok_def)
  from getRandomBN_run(3) [OF this r refl]
  show "0 \<le> bn_val E x \<and> bn_val E x < 2 ^ nat bits" by blast
qed

end
