(* ===== verification/Texts.thy ===== *)
theory Texts
  imports BigNumberConv
begin

text \<open>
  The containers \<open>BaseText\<close> and \<open>PlainText\<close> (\<open>src/ipcl/base_text.cpp\<close>,
  \<open>src/ipcl/plaintext.cpp\<close>): a vector of big numbers and its size, kept as two members. Sizes
  and positions are \<open>std::size_t\<close>, 64-bit words with the language's conversions and wrap-around.
\<close>

type_synonym u64 = "64 word"

record 'b base_text =
  m_texts :: "'b list"
  m_size :: u64

definition size_of :: "'b list \<Rightarrow> u64" where
  "size_of v = of_nat (length v)"

section \<open>Constructors and assignment\<close>

text \<open>A braced initialiser copies its element into the list, and the vector copies the list.\<close>

definition BaseText_u32 :: "('b, 'z) ipp_scheme \<Rightarrow> u32 \<Rightarrow> 'b base_text" where
  "BaseText_u32 I n = \<lparr>m_texts = [BigNumber_copy I (BigNumber_u32 I n)], m_size = 1\<rparr>"

definition BaseText_u32s :: "('b, 'z) ipp_scheme \<Rightarrow> u32 list \<Rightarrow> 'b base_text" where
  "BaseText_u32s I n_v =
     (let texts = map (\<lambda>n. BigNumber_copy I (BigNumber_u32 I n)) n_v
      in \<lparr>m_texts = texts, m_size = size_of texts\<rparr>)"

definition BaseText_bn :: "('b, 'z) ipp_scheme \<Rightarrow> 'b \<Rightarrow> 'b base_text" where
  "BaseText_bn I bn = \<lparr>m_texts = [BigNumber_copy I (BigNumber_copy I bn)], m_size = 1\<rparr>"

definition BaseText_bns :: "('b, 'z) ipp_scheme \<Rightarrow> 'b list \<Rightarrow> 'b base_text" where
  "BaseText_bns I bn_v =
     (let texts = map (BigNumber_copy I) bn_v in \<lparr>m_texts = texts, m_size = size_of texts\<rparr>)"

definition getTexts :: "('b, 'z) ipp_scheme \<Rightarrow> ('b, 'y) base_text_scheme \<Rightarrow> 'b list" where
  "getTexts I this = map (BigNumber_copy I) (m_texts this)"

definition getSize :: "('b, 'y) base_text_scheme \<Rightarrow> u64" where
  "getSize this = m_size this"

definition BaseText_copy :: "('b, 'z) ipp_scheme \<Rightarrow> ('b, 'y) base_text_scheme \<Rightarrow> 'b base_text" where
  "BaseText_copy I bt = \<lparr>m_texts = getTexts I bt, m_size = getSize bt\<rparr>"

text \<open>\<open>same\<close>: the argument is the receiver itself.\<close>

definition BaseText_assign ::
  "('b, 'z) ipp_scheme \<Rightarrow> bool \<Rightarrow> ('b, 'y) base_text_scheme \<Rightarrow> ('b, 'x) base_text_scheme \<Rightarrow> ('b, 'y) base_text_scheme" where
  "BaseText_assign I same this other =
     (if same then this
      else this\<lparr>m_texts := map (BigNumber_copy I) (m_texts other), m_size := m_size other\<rparr>)"

section \<open>Element access\<close>

text \<open>\<open>operator[]\<close> returns a reference: what is read through it, and the text after a write.\<close>

definition text_index :: "('b, 'y) base_text_scheme \<Rightarrow> u64 \<Rightarrow> 'b result" where
  "text_index this idx =
     bindR (errorCheck (idx < m_size this) ''BaseText:operator[] index is out of range'') (\<lambda>_.
     vec_at (m_texts this) (unat idx))"

definition text_index_put ::
  "('b, 'z) ipp_scheme \<Rightarrow> ('b, 'y) base_text_scheme \<Rightarrow> u64 \<Rightarrow> 'b \<Rightarrow> ('b, 'y) base_text_scheme result" where
  "text_index_put I this idx bn =
     bindR (text_index this idx) (\<lambda>_.
     Inr (this\<lparr>m_texts := (m_texts this)[unat idx := bn_assign I bn]\<rparr>))"

definition getElement :: "('b, 'z) ipp_scheme \<Rightarrow> ('b, 'y) base_text_scheme \<Rightarrow> u64 \<Rightarrow> 'b result" where
  "getElement I this idx =
     bindR (errorCheck (idx < m_size this) ''BaseText: getElement index is out of range'') (\<lambda>_.
     bindR (vec_at (m_texts this) (unat idx)) (\<lambda>bn. Inr (BigNumber_copy I bn)))"

definition getElementVec :: "('b, 'z) ipp_scheme \<Rightarrow> ('b, 'y) base_text_scheme \<Rightarrow> u64 \<Rightarrow> u32 list result" where
  "getElementVec I this idx =
     bindR (errorCheck (idx < m_size this) ''BaseText: getElementVec index is out of range'') (\<lambda>_.
     bindR (vec_at (m_texts this) (unat idx)) (\<lambda>bn. Inr (num2vec I bn)))"

definition getElementHex :: "('b, 'z) ipp_scheme \<Rightarrow> ('b, 'y) base_text_scheme \<Rightarrow> u64 \<Rightarrow> string result" where
  "getElementHex I this idx =
     bindR (errorCheck (idx < m_size this) ''BaseText: getElementHex index is out of range'') (\<lambda>_.
     bindR (vec_at (m_texts this) (unat idx)) (\<lambda>bn. Inr (num2hex I bn)))"

definition getChunk :: "('b, 'z) ipp_scheme \<Rightarrow> ('b, 'y) base_text_scheme \<Rightarrow> u64 \<Rightarrow> u64 \<Rightarrow> 'b list result" where
  "getChunk I this start n =
     bindR (errorCheck (start \<ge> 0 \<and> start + n \<le> m_size this)
       ''BaseText: getChunk parameter is incorrect'') (\<lambda>_.
     bindR (slice (m_texts this) (unat start) (unat n)) (\<lambda>v. Inr (map (BigNumber_copy I) v)))"

section \<open>Insertion and removal\<close>

definition text_insert ::
  "('b, 'z) ipp_scheme \<Rightarrow> u64 \<Rightarrow> 'b \<Rightarrow> ('b, 'y) base_text_scheme \<Rightarrow> ('b, 'y) base_text_scheme result" where
  "text_insert I pos bn this =
     bindR (errorCheck (pos \<ge> 0 \<and> pos \<le> m_size this)
       ''BaseText: insert position is out of range'') (\<lambda>_.
     bindR (slice (m_texts this) 0 (unat pos)) (\<lambda>front.
     Inr (this\<lparr>m_texts := front @ BigNumber_copy I bn # drop (unat pos) (m_texts this),
               m_size := m_size this + 1\<rparr>)))"

definition text_clear :: "('b, 'y) base_text_scheme \<Rightarrow> ('b, 'y) base_text_scheme" where
  "text_clear this = this\<lparr>m_texts := [], m_size := 0\<rparr>"

definition text_remove :: "u64 \<Rightarrow> u64 \<Rightarrow> ('b, 'y) base_text_scheme \<Rightarrow> ('b, 'y) base_text_scheme result" where
  "text_remove pos n this =
     bindR (errorCheck (pos \<ge> 0 \<and> pos + n < m_size this)
       ''BaseText: remove position is out of range'') (\<lambda>_.
     bindR (slice (m_texts this) (unat pos) (unat n)) (\<lambda>_.
     Inr (this\<lparr>m_texts := take (unat pos) (m_texts this) @ drop (unat pos + unat n) (m_texts this),
               m_size := m_size this - n\<rparr>)))"

section \<open>PlainText\<close>

definition PlainText_to_u32s :: "('b, 'z) ipp_scheme \<Rightarrow> ('b, 'y) base_text_scheme \<Rightarrow> u32 list result" where
  "PlainText_to_u32s I this =
     bindR (errorCheck (m_size this > 0) ''PlainText: type conversion to uint32_t vector error'') (\<lambda>_.
     bindR (vec_at (m_texts this) 0) (\<lambda>bn. Inr (num2vec I bn)))"

definition PlainText_to_bn :: "('b, 'z) ipp_scheme \<Rightarrow> ('b, 'y) base_text_scheme \<Rightarrow> 'b result" where
  "PlainText_to_bn I this =
     bindR (errorCheck (m_size this > 0) ''PlainText: type conversion to BigNumber error'') (\<lambda>_.
     bindR (vec_at (m_texts this) 0) (\<lambda>bn. Inr (BigNumber_copy I bn)))"

definition PlainText_to_bns :: "('b, 'z) ipp_scheme \<Rightarrow> ('b, 'y) base_text_scheme \<Rightarrow> 'b list result" where
  "PlainText_to_bns I this =
     bindR (errorCheck (m_size this > 0) ''PlainText: type conversion to BigNumber vector error'') (\<lambda>_.
     Inr (map (BigNumber_copy I) (m_texts this)))"

text \<open>The conversions between \<open>int\<close> and \<open>std::size_t\<close>; \<open>std::rotate\<close>.\<close>

definition int_to_size :: "u32 \<Rightarrow> u64" where
  "int_to_size i = word_of_int (sint i)"

definition size_to_int :: "u64 \<Rightarrow> u32" where
  "size_to_int n = word_of_int (uint n)"

definition std_rotate :: "'b list \<Rightarrow> u32 \<Rightarrow> 'b list result" where
  "std_rotate xs shift =
     (if 0 \<le> sint shift \<and> nat (sint shift) \<le> length xs
      then Inr (drop (nat (sint shift)) xs @ take (nat (sint shift)) xs)
      else Inl (Undefined ''std::rotate''))"

text \<open>\<open>-m_size\<close> is a \<open>std::size_t\<close>, and so is the operand it is compared with.\<close>

definition PlainText_rotate :: "('b, 'z) ipp_scheme \<Rightarrow> u32 \<Rightarrow> ('b, 'y) base_text_scheme \<Rightarrow> 'b base_text result" where
  "PlainText_rotate I shift this =
     bindR (errorCheck (m_size this \<noteq> 1) ''rotate: Cannot rotate single CipherText'') (\<lambda>_.
     bindR (errorCheck (int_to_size shift \<ge> - m_size this \<and> int_to_size shift \<le> m_size this)
       ''rotate: Cannot shift more than the test size'') (\<lambda>_.
     if shift = 0 \<or> int_to_size shift = m_size this \<or> int_to_size shift = - m_size this
     then Inr (BaseText_bns I (m_texts this))
     else
       let shift = (if sint shift > 0 then size_to_int (m_size this - int_to_size shift) else - shift);
           new_bn = getTexts I this
       in bindR (std_rotate new_bn shift) (\<lambda>new_bn. Inr (BaseText_bns I new_bn))))"

section \<open>The size member is the length of the vector\<close>

definition text_inv :: "('b, 'y) base_text_scheme \<Rightarrow> bool" where
  "text_inv t \<longleftrightarrow> unat (m_size t) = length (m_texts t)"

definition text_vals :: "('b, 'z) ipp_scheme \<Rightarrow> ('b, 'y) base_text_scheme \<Rightarrow> int list" where
  "text_vals I t = map (bn_val I) (m_texts t)"

lemma unat_size_of: "length v < 2 ^ 64 \<Longrightarrow> unat (size_of v) = length v"
  by (simp add: size_of_def unat_of_nat)

lemma length_text_vals [simp]: "length (text_vals I t) = length (m_texts t)"
  by (simp add: text_vals_def)

lemma map_copy_val: "ipp_ok I \<Longrightarrow> map (bn_val I) (map (BigNumber_copy I) v) = map (bn_val I) v"
  by (simp add: copy_val)

lemma text_vals_simps [simp]:
  assumes "ipp_ok I"
  shows "text_vals I (BaseText_u32 I n) = [int (unat n)]"
    "text_vals I (BaseText_u32s I ns) = map (\<lambda>n. int (unat n)) ns"
    "text_vals I (BaseText_bn I b) = [bn_val I b]"
    "text_vals I (BaseText_bns I bs) = map (bn_val I) bs"
    "text_vals I (BaseText_copy I t) = text_vals I t"
    "map (bn_val I) (getTexts I t) = text_vals I t"
  using assms by (simp_all add: text_vals_def BaseText_u32_def BaseText_u32s_def BaseText_bn_def
      BaseText_bns_def BaseText_copy_def getTexts_def Let_def bn_simps)

lemma text_inv_ctor [simp]:
  "text_inv (BaseText_u32 I n)" "length ns < 2 ^ 64 \<Longrightarrow> text_inv (BaseText_u32s I ns)"
  "text_inv (BaseText_bn I b)" "length bs < 2 ^ 64 \<Longrightarrow> text_inv (BaseText_bns I bs)"
  "text_inv t \<Longrightarrow> text_inv (BaseText_copy I t)"
  "text_inv s \<Longrightarrow> text_inv t \<Longrightarrow> text_inv (BaseText_assign I same s t)"
  "text_inv (text_clear t)"
  by (simp_all add: text_inv_def BaseText_u32_def BaseText_u32s_def BaseText_bn_def BaseText_bns_def
      BaseText_copy_def BaseText_assign_def text_clear_def getTexts_def getSize_def unat_size_of Let_def)

lemma text_length: "text_inv t \<Longrightarrow> length (m_texts t) < 2 ^ 64"
proof -
  assume "text_inv t"
  moreover have "unat (m_size t) < 2 ^ LENGTH(64)" by (rule unsigned_less)
  ultimately show ?thesis by (simp add: text_inv_def)
qed

text \<open>A position and a length that do not wrap around.\<close>

lemma unat_add_no_wrap: "unat p + unat n < 2 ^ 64 \<Longrightarrow> unat (p + n) = unat p + unat n" for p n :: u64
  by (simp add: unat_word_ariths)

lemma text_insert_ok:
  assumes "ipp_ok I" "text_inv t" "pos \<le> m_size t" "unat (m_size t) + 1 < 2 ^ 64"
  obtains t' where "text_insert I pos bn t = Inr t'" "text_inv t'"
    "text_vals I t' = take (unat pos) (text_vals I t) @ bn_val I bn # drop (unat pos) (text_vals I t)"
proof -
  have p: "unat pos \<le> length (m_texts t)" using assms(2,3) by (simp add: text_inv_def word_le_nat_alt)
  have s: "unat (m_size t + 1) = unat (m_size t) + 1"
    using assms(4) unat_add_no_wrap [of "m_size t" 1] by simp
  let ?t = "t\<lparr>m_texts := take (unat pos) (m_texts t) @ BigNumber_copy I bn # drop (unat pos) (m_texts t),
    m_size := m_size t + 1\<rparr>"
  show ?thesis
  proof (rule that)
    show "text_insert I pos bn t = Inr ?t"
      using p assms(3) by (simp add: text_insert_def)
    show "text_inv ?t" using assms(2) p s by (simp add: text_inv_def)
    show "text_vals I ?t = take (unat pos) (text_vals I t) @ bn_val I bn # drop (unat pos) (text_vals I t)"
      using assms(1) by (simp add: text_vals_def take_map drop_map bn_simps)
  qed
qed

lemma text_remove_ok:
  assumes "text_inv t" "unat pos + unat n < unat (m_size t)"
  obtains t' where "text_remove pos n t = Inr t'" "text_inv t'"
    "text_vals I t' = take (unat pos) (text_vals I t) @ drop (unat pos + unat n) (text_vals I t)"
proof -
  have l: "unat pos + unat n < length (m_texts t)" using assms by (simp add: text_inv_def)
  then have "unat (pos + n) = unat pos + unat n"
    using text_length [OF assms(1)] by (intro unat_add_no_wrap) linarith
  then have "pos + n < m_size t" using assms(2) by (simp add: word_less_nat_alt)
  moreover have "n \<le> m_size t" using assms(2) by (simp add: word_le_nat_alt)
  then have "unat (m_size t - n) = unat (m_size t) - unat n" by (simp add: unat_sub)
  ultimately show ?thesis
    using that [of "t\<lparr>m_texts := take (unat pos) (m_texts t) @ drop (unat pos + unat n) (m_texts t),
        m_size := m_size t - n\<rparr>"] l assms(1)
    by (simp add: text_remove_def text_inv_def text_vals_def take_map drop_map)
qed

text \<open>The guard of \<open>remove\<close> refuses a range that ends at the end of the text.\<close>

lemma text_remove_end:
  assumes "text_inv t" "unat pos + unat n = unat (m_size t)"
  shows "text_remove pos n t = Inl (RuntimeError ''BaseText: remove position is out of range'')"
proof -
  have "unat (pos + n) = unat pos + unat n"
    using text_length [OF assms(1)] assms by (intro unat_add_no_wrap) (simp add: text_inv_def)
  then have "\<not> pos + n < m_size t" using assms(2) by (simp add: word_less_nat_alt)
  then show ?thesis by (simp add: text_remove_def)
qed

lemma getChunk_ok:
  assumes "ipp_ok I" "text_inv t" "unat start + unat n \<le> unat (m_size t)"
  obtains v where "getChunk I t start n = Inr v"
    "map (bn_val I) v = take (unat n) (drop (unat start) (text_vals I t))"
proof -
  have l: "unat start + unat n \<le> length (m_texts t)" using assms by (simp add: text_inv_def)
  then have "unat (start + n) = unat start + unat n"
    using text_length [OF assms(2)] by (intro unat_add_no_wrap) linarith
  then have "start + n \<le> m_size t" using assms(3) by (simp add: word_le_nat_alt)
  then show ?thesis
    using that [of "map (BigNumber_copy I) (take (unat n) (drop (unat start) (m_texts t)))"] l assms(1)
    by (simp add: getChunk_def text_vals_def take_map drop_map copy_val)
qed

lemma getElement_ok:
  assumes "ipp_ok I" "text_inv t" "idx < m_size t"
  shows "\<exists>b. getElement I t idx = Inr b \<and> bn_val I b = text_vals I t ! unat idx"
    and "getElementHex I t idx = Inr (num2hex I (m_texts t ! unat idx))"
    and "getElementVec I t idx = Inr (num2vec I (m_texts t ! unat idx))"
  using assms by (simp_all add: getElement_def getElementHex_def getElementVec_def text_inv_def
      text_vals_def word_less_nat_alt bn_simps)

lemma unat_minus_nonzero: "x \<noteq> 0 \<Longrightarrow> unat (- x) = 2 ^ 64 - unat x" for x :: u64
proof -
  assume "x \<noteq> 0"
  then have "0 < unat x" by (simp add: unat_gt_0)
  moreover have "unat x < 2 ^ LENGTH(64)" by (rule unsigned_less)
  then have x: "unat x \<le> 2 ^ 64" by simp
  moreover have "unat (- x) = (2 ^ 64 - unat x) mod 2 ^ 64"
  proof -
    have "- x = of_nat (2 ^ 64 - unat x)"
      using x by (simp add: of_nat_diff)
    then show ?thesis by (simp only: unat_of_nat) (simp add: take_bit_eq_mod)
  qed
  ultimately show ?thesis by simp
qed

text \<open>The guard of \<open>rotate\<close> compares unsigned numbers: it lets no shift of a longer text pass.\<close>

lemma PlainText_rotate_guard:
  assumes "1 < m_size t" "m_size t < 2 ^ 63"
  shows "PlainText_rotate I shift t = Inl (RuntimeError ''rotate: Cannot shift more than the test size'')"
proof -
  have "\<not> (- m_size t \<le> x \<and> x \<le> m_size t)" for x
  proof
    assume "- m_size t \<le> x \<and> x \<le> m_size t"
    then have "- m_size t \<le> m_size t" by (meson order_trans)
    moreover have "m_size t \<noteq> 0" using assms(1) by auto
    then have "unat (- m_size t) = 2 ^ 64 - unat (m_size t)"
      by (rule unat_minus_nonzero)
    moreover have "unat (m_size t) < 2 ^ 63" using assms(2) by (simp add: word_less_nat_alt)
    ultimately show False by (simp add: word_le_nat_alt)
  qed
  then have g: "\<not> (int_to_size shift \<ge> - m_size t \<and> int_to_size shift \<le> m_size t)" by blast
  have n1: "m_size t \<noteq> 1" using assms(1) by auto
  show ?thesis
    unfolding PlainText_rotate_def errorCheck_def if_P [OF n1] if_not_P [OF g] by simp
qed

end
