(* ===== verification/NumTheory.thy ===== *)
theory NumTheory
  imports Complex_Main
begin

text \<open>
  The number theory behind the Paillier scheme, on \<open>int\<close>: Fermat's theorem, its lifting
  to the square of the modulus, powers of \<open>1 + n m\<close> modulo \<open>n\<^sup>2\<close>, the function
  \<open>L\<close>, and the Chinese remainder step. Nothing here depends on the program.
\<close>

section \<open>Primes\<close>

definition is_prime :: "int \<Rightarrow> bool" where
  "is_prime p \<longleftrightarrow> 1 < p \<and> (\<forall>d \<in> {2..<p}. \<not> d dvd p)"

lemma is_prime_gt_1: "is_prime p \<Longrightarrow> 1 < p"
  by (simp add: is_prime_def)

lemma is_prime_coprime:
  assumes "is_prime p" "\<not> p dvd a"
  shows "coprime p a"
proof -
  let ?g = "gcd p a"
  have "0 < ?g" and "?g \<le> p"
    using is_prime_gt_1 [OF assms(1)] by (simp_all add: zdvd_imp_le)
  moreover have "?g \<noteq> p"
    using assms(2) by (metis gcd_dvd2)
  moreover have "\<not> (2 \<le> ?g \<and> ?g < p)"
    using assms(1) unfolding is_prime_def by (metis atLeastLessThan_iff gcd_dvd1)
  ultimately have "?g = 1" by linarith
  then show ?thesis by (simp add: coprime_iff_gcd_eq_1)
qed

lemma is_prime_dvd_mult: "is_prime p \<Longrightarrow> p dvd a * b \<Longrightarrow> p dvd a \<or> p dvd b"
  by (metis coprime_dvd_mult_right_iff is_prime_coprime)

lemma is_prime_dvd_power: "is_prime p \<Longrightarrow> p dvd a ^ k \<Longrightarrow> p dvd a"
  by (induction k) (use is_prime_dvd_mult is_prime_def in \<open>auto simp: zdvd1_eq\<close>)

lemma distinct_primes_coprime:
  assumes "is_prime p" "is_prime q" "p \<noteq> q"
  shows "coprime p q"
proof (rule is_prime_coprime [OF assms(1)])
  show "\<not> p dvd q"
  proof
    assume "p dvd q"
    then have "p \<le> q" using is_prime_gt_1 [OF assms(2)] by (simp add: zdvd_imp_le)
    with assms \<open>p dvd q\<close> show False by (auto simp: is_prime_def)
  qed
qed

lemma prime_divisor: "is_prime p \<Longrightarrow> d dvd p \<Longrightarrow> 1 < d \<Longrightarrow> d = p"
  by (rule ccontr, frule zdvd_imp_le) (auto simp: is_prime_def)

text \<open>The only two factors above 1 of a product of two primes.\<close>

lemma two_factors:
  assumes "is_prime p" "is_prime q" "a * b = p * q" "1 < a" "1 < b"
  shows "a = p \<and> b = q \<or> a = q \<and> b = p"
proof -
  have p: "1 < p" by (rule is_prime_gt_1 [OF assms(1)])
  have *: "y = q \<and> x = p" if "p dvd x" "x * y = p * q" "1 < y" for x y
  proof -
    obtain k where k: "x = p * k" using \<open>p dvd x\<close> by blast
    then have kq: "k * y = q" using that(2) p by (simp add: mult.assoc)
    then have "y = q" using prime_divisor [OF assms(2) _ that(3)] by (metis dvd_triv_right)
    then show ?thesis using that(2,3) by simp
  qed
  have "p dvd a \<or> p dvd b" using assms(3) is_prime_dvd_mult [OF assms(1)] by (metis dvd_triv_left)
  then show ?thesis
    using * [of a b] * [of b a] assms(3-5) by (auto simp: mult.commute)
qed

section \<open>Fermat's theorem\<close>

lemma prime_dvd_choose:
  assumes "is_prime p" "0 < k" "k < nat p"
  shows "p dvd int (nat p choose k)"
proof -
  have "k * (nat p choose k) = nat p * (nat p - 1 choose (k - 1))"
    using assms(2) by (rule times_binomial_minus1_eq)
  then have "int k * int (nat p choose k) = int (nat p) * int (nat p - 1 choose (k - 1))"
    by (metis of_nat_mult)
  then have "p dvd int k * int (nat p choose k)"
    using is_prime_gt_1 [OF assms(1)] by simp
  moreover have "\<not> p dvd int k"
    using assms(2,3) by (auto dest!: zdvd_imp_le)
  ultimately show ?thesis
    using is_prime_dvd_mult [OF assms(1)] by blast
qed

lemma freshman:
  assumes "is_prime p"
  shows "p dvd (a + 1) ^ nat p - (a ^ nat p + 1)"
proof -
  let ?n = "nat p"
  let ?f = "\<lambda>k. int (?n choose k) * a ^ k"
  have n: "0 < ?n" using is_prime_gt_1 [OF assms] by simp
  have "(a + 1) ^ ?n = (\<Sum>k\<le>?n. ?f k)"
    by (simp add: binomial_ring)
  also have "\<dots> = (\<Sum>k<?n. ?f k) + a ^ ?n"
    using lessThan_Suc_atMost sum.lessThan_Suc [of ?f ?n] by (simp add: lessThan_Suc_atMost)
  also have "(\<Sum>k<?n. ?f k) = ?f 0 + (\<Sum>k\<in>{1..<?n}. ?f k)"
    using n by (simp add: lessThan_atLeast0 sum.atLeast_Suc_lessThan)
  finally have "(a + 1) ^ ?n - (a ^ ?n + 1) = (\<Sum>k\<in>{1..<?n}. ?f k)"
    by simp
  moreover have "p dvd (\<Sum>k\<in>{1..<?n}. ?f k)"
    by (rule dvd_sum) (use assms prime_dvd_choose in auto)
  ultimately show ?thesis by simp
qed

lemma fermat_nat: "is_prime p \<Longrightarrow> p dvd int m ^ nat p - int m"
proof (induction m)
  case 0
  then show ?case using is_prime_gt_1 [of p] by (simp add: power_0_left)
next
  case (Suc m)
  have "int (Suc m) ^ nat p - int (Suc m)
      = ((int m + 1) ^ nat p - (int m ^ nat p + 1)) + (int m ^ nat p - int m)"
    by (simp add: add.commute)
  then show ?case using Suc freshman [of p "int m"] by (metis dvd_add)
qed

lemma fermat:
  assumes "is_prime p" "\<not> p dvd a"
  shows "p dvd a ^ (nat p - 1) - 1"
proof -
  let ?b = "a mod p"
  have p: "1 < p" by (rule is_prime_gt_1 [OF assms(1)])
  have "p dvd int (nat ?b) ^ nat p - int (nat ?b)"
    by (rule fermat_nat [OF assms(1)])
  then have "p dvd ?b ^ nat p - ?b" using p by simp
  then have "p dvd a ^ nat p - a"
    by (metis mod_eq_dvd_iff power_mod mod_mod_trivial)
  moreover have "a ^ nat p - a = a * (a ^ (nat p - 1) - 1)"
    using p by (cases "nat p") (auto simp: algebra_simps)
  ultimately show ?thesis
    using is_prime_dvd_mult [OF assms(1)] assms(2) by metis
qed

text \<open>From \<open>x \<equiv> 1\<close> modulo \<open>p\<close> to \<open>x^p \<equiv> 1\<close> modulo \<open>p\<^sup>2\<close>.\<close>

lemma lift_to_square:
  assumes "0 < p" "p dvd x - 1"
  shows "p\<^sup>2 dvd x ^ nat p - (1 :: int)"
proof -
  let ?S = "\<Sum>i<nat p. x ^ i"
  have "x - 1 dvd x ^ i - 1" for i
    by (metis dvd_triv_left power_diff_1_eq)
  then have "p dvd (\<Sum>i<nat p. (x ^ i - 1))"
    using assms(2) by (intro dvd_sum) (metis dvd_trans)
  also have "(\<Sum>i<nat p. (x ^ i - 1)) = ?S - p"
    using assms(1) by (simp add: sum_subtractf)
  finally have "p dvd (?S - p) + p" by (metis dvd_add dvd_refl)
  then have "p dvd ?S" by simp
  moreover have "x ^ nat p - 1 = (x - 1) * ?S"
    by (rule power_diff_1_eq)
  ultimately show ?thesis
    using assms(2) by (simp add: power2_eq_square mult_dvd_mono)
qed

lemma dvd_power_minus_1:
  assumes "m dvd x - (1::int)"
  shows "m dvd x ^ k - 1"
  by (metis assms dvd_trans dvd_triv_left power_diff_1_eq)

lemma euler_square:
  assumes "is_prime p" "\<not> p dvd r" "nat p * (nat p - 1) dvd e"
  shows "p\<^sup>2 dvd r ^ e - 1"
proof -
  from assms(3) obtain k where e: "e = (nat p - 1) * nat p * k"
    by (metis dvd_def mult.commute)
  have "p\<^sup>2 dvd (r ^ (nat p - 1)) ^ nat p - 1"
    using is_prime_gt_1 [OF assms(1)] fermat [OF assms(1,2)] by (intro lift_to_square) auto
  then have "p\<^sup>2 dvd ((r ^ (nat p - 1)) ^ nat p) ^ k - 1"
    by (rule dvd_power_minus_1)
  then show ?thesis by (simp add: e power_mult)
qed

section \<open>Powers of \<open>1 + n m\<close> and the function \<open>L\<close>\<close>

lemma one_plus_power: "n\<^sup>2 dvd (1 + n * m) ^ k - (1 + n * (m * int k))" for n m :: int
proof (induction k)
  case 0
  then show ?case by simp
next
  case (Suc k)
  have "(1 + n * m) ^ Suc k - (1 + n * (m * int (Suc k)))
      = (1 + n * m) * ((1 + n * m) ^ k - (1 + n * (m * int k))) + n\<^sup>2 * (m * m * int k)"
    by (simp add: algebra_simps power2_eq_square)
  then show ?case using Suc by simp
qed

lemma one_plus_mod_square:
  assumes "1 < (n :: int)"
  shows "(1 + n * x) mod n\<^sup>2 = 1 + n * (x mod n)"
proof -
  have "1 + n * x = (1 + n * (x mod n)) + n\<^sup>2 * (x div n)"
    by (metis add.assoc distrib_left mod_mult_div_eq mult.assoc power2_eq_square)
  then have "(1 + n * x) mod n\<^sup>2 = (1 + n * (x mod n)) mod n\<^sup>2"
    by (metis mod_mult_self2)
  moreover have "0 \<le> 1 + n * (x mod n)"
    using assms by simp
  moreover have "n * (x mod n) \<le> n * (n - 1)"
    using assms by (intro mult_left_mono) (simp_all add: pos_mod_bound zle_diff1_eq)
  then have "1 + n * (x mod n) < n\<^sup>2"
    using assms by (simp add: power2_eq_square algebra_simps)
  ultimately show ?thesis by (simp add: mod_pos_pos_trivial)
qed

lemma L_one_plus: "1 < (n :: int) \<Longrightarrow> ((1 + n * x) mod n\<^sup>2 - 1) div n = x mod n"
  by (simp add: one_plus_mod_square)

section \<open>Encryptions\<close>

text \<open>
  \<open>c\<close> is an encryption of \<open>m\<close> under the modulus \<open>n\<close>: it is \<open>(1 + n m) r^n\<close> modulo
  \<open>n\<^sup>2\<close> for some unit \<open>r\<close>. This is the abstract specification the ciphertexts of the
  program refine.
\<close>

definition enc_of :: "int \<Rightarrow> int \<Rightarrow> int \<Rightarrow> bool" where
  "enc_of n m c \<longleftrightarrow>
     (\<exists>r. coprime r n \<and> c mod n\<^sup>2 = ((1 + n * m) * r ^ nat n) mod n\<^sup>2)"

lemma enc_of_mod [simp]: "enc_of n m (c mod n\<^sup>2) \<longleftrightarrow> enc_of n m c"
  by (simp add: enc_of_def)

lemma enc_of_trivial: "enc_of n m (1 + n * m)"
  unfolding enc_of_def by (rule exI [of _ 1]) simp

lemma enc_of_obfuscate:
  assumes "enc_of n m c" "coprime r n" "s mod n\<^sup>2 = r ^ nat n mod n\<^sup>2"
  shows "enc_of n m (c * s)"
proof -
  from assms(1) obtain t where t: "coprime t n" "c mod n\<^sup>2 = ((1 + n * m) * t ^ nat n) mod n\<^sup>2"
    by (auto simp: enc_of_def)
  have "c * s mod n\<^sup>2 = ((1 + n * m) * t ^ nat n) * r ^ nat n mod n\<^sup>2"
    using t(2) assms(3) by (metis mod_mult_cong)
  also have "((1 + n * m) * t ^ nat n) * r ^ nat n = (1 + n * m) * (t * r) ^ nat n"
    by (simp add: power_mult_distrib algebra_simps)
  finally show ?thesis
    unfolding enc_of_def using t(1) assms(2) by (intro exI [of _ "t * r"]) simp
qed

lemma enc_of_mult:
  assumes "enc_of n m c" "enc_of n m' c'"
  shows "enc_of n (m + m') (c * c')"
proof -
  from assms obtain r r' where
    r: "coprime r n" "c mod n\<^sup>2 = ((1 + n * m) * r ^ nat n) mod n\<^sup>2" and
    r': "coprime r' n" "c' mod n\<^sup>2 = ((1 + n * m') * r' ^ nat n) mod n\<^sup>2"
    by (auto simp: enc_of_def)
  have "c * c' mod n\<^sup>2 = ((1 + n * m) * r ^ nat n) * ((1 + n * m') * r' ^ nat n) mod n\<^sup>2"
    using r(2) r'(2) by (rule mod_mult_cong)
  also have "((1 + n * m) * r ^ nat n) * ((1 + n * m') * r' ^ nat n)
      = (1 + n * (m + m')) * (r * r') ^ nat n + n\<^sup>2 * (m * m' * (r * r') ^ nat n)"
    by (simp add: power_mult_distrib algebra_simps power2_eq_square)
  also have "\<dots> mod n\<^sup>2 = (1 + n * (m + m')) * (r * r') ^ nat n mod n\<^sup>2"
    by simp
  finally show ?thesis
    unfolding enc_of_def using r(1) r'(1) by (intro exI [of _ "r * r'"]) simp
qed

lemma enc_of_power: "enc_of n m c \<Longrightarrow> enc_of n (m * int k) (c ^ k)"
proof (induction k)
  case 0
  then show ?case using enc_of_trivial [of n 0] by simp
next
  case (Suc k)
  then have "enc_of n (m + m * int k) (c * c ^ k)" by (intro enc_of_mult) auto
  then show ?case by (simp add: algebra_simps)
qed

lemma enc_of_coprime:
  assumes "enc_of n m c"
  shows "coprime c n"
proof -
  from assms obtain r where r: "coprime r n" "c mod n\<^sup>2 = ((1 + n * m) * r ^ nat n) mod n\<^sup>2"
    by (auto simp: enc_of_def)
  have "coprime (1 + n * m) n"
    by (metis add.commute coprime_1_left coprime_iff_gcd_eq_1 gcd.commute gcd_add_mult mult.commute)
  then have "coprime ((1 + n * m) * r ^ nat n) (n\<^sup>2)"
    using r(1) by simp
  then have "coprime c (n\<^sup>2)"
    using r(2) by (metis coprime_iff_gcd_eq_1 gcd.commute gcd_red_int)
  then show ?thesis by simp
qed

section \<open>Decryption\<close>

text \<open>The pairs of primes Paillier decryption works for.\<close>

definition valid_pq :: "int \<Rightarrow> int \<Rightarrow> bool" where
  "valid_pq p q \<longleftrightarrow>
     is_prime p \<and> is_prime q \<and> p \<noteq> q \<and> \<not> p dvd q - 1 \<and> \<not> q dvd p - 1"

lemma valid_pq_sym: "valid_pq p q \<Longrightarrow> valid_pq q p"
  by (auto simp: valid_pq_def)

text \<open>Two different odd primes of the same bit length are such a pair.\<close>

lemma valid_pq_same_size:
  assumes "is_prime p" "is_prime q" "p < q" "q < 2 * p" "2 < p"
  shows "valid_pq p q"
proof -
  have "\<not> q dvd p - 1"
    using assms by (auto dest: zdvd_imp_le)
  moreover have "\<not> p dvd q - 1"
  proof
    assume "p dvd q - 1"
    then obtain k where k: "q - 1 = p * k" by (auto simp: dvd_def)
    have "p * 0 < p * k" and "p * k < p * 2"
      using assms(3-5) k by linarith+
    moreover have "0 < p" using assms(5) by simp
    ultimately have "0 < k" and "k < 2"
      by (metis mult_less_cancel_left_pos)+
    then have "k = 1" by simp
    with k have "q - 1 = p" by simp
    moreover have "odd p" "odd q"
      using assms by (auto simp: is_prime_def)
    ultimately show False by presburger
  qed
  ultimately show ?thesis using assms by (auto simp: valid_pq_def)
qed

lemma coprime_n_lambda:
  assumes "valid_pq p q" "lam dvd (p - 1) * (q - 1)"
  shows "coprime (p * q) lam"
proof -
  have p: "is_prime p" and q: "is_prime q" using assms(1) by (auto simp: valid_pq_def)
  have "\<not> p dvd p - 1" "\<not> q dvd q - 1"
    using is_prime_gt_1 [OF p] is_prime_gt_1 [OF q] by (auto dest: zdvd_imp_le)
  then have "coprime p ((p - 1) * (q - 1))" "coprime q ((p - 1) * (q - 1))"
    using assms(1) is_prime_coprime [OF p] is_prime_coprime [OF q]
    by (auto simp: valid_pq_def)
  then have "coprime p lam" "coprime q lam"
    using assms(2) by (meson coprime_divisors dvd_refl)+
  then show ?thesis by simp
qed

lemma not_dvd_coprime: "1 < (p::int) \<Longrightarrow> p dvd n \<Longrightarrow> coprime r n \<Longrightarrow> \<not> p dvd r"
  by (metis coprime_common_divisor_int abs_of_pos less_irrefl zero_less_one order_less_trans)

lemma enc_power_mod_square:
  assumes p: "is_prime p" "p dvd n" and n: "1 < n"
    and enc: "enc_of n m c" and lam: "p - 1 dvd lam" "0 \<le> lam"
  shows "p\<^sup>2 dvd c ^ nat lam - (1 + n * (m * lam))"
proof -
  from enc obtain r where r: "coprime r n" "c mod n\<^sup>2 = ((1 + n * m) * r ^ nat n) mod n\<^sup>2"
    by (auto simp: enc_of_def)
  have p1: "1 < p" by (rule is_prime_gt_1 [OF p(1)])
  have pn: "p\<^sup>2 dvd n\<^sup>2" using p(2) by simp
  have "c ^ nat lam mod n\<^sup>2 = ((1 + n * m) * r ^ nat n) ^ nat lam mod n\<^sup>2"
    using r(2) by (metis power_mod)
  then have "n\<^sup>2 dvd c ^ nat lam - ((1 + n * m) * r ^ nat n) ^ nat lam"
    by (simp add: mod_eq_dvd_iff)
  moreover have "((1 + n * m) * r ^ nat n) ^ nat lam = (1 + n * m) ^ nat lam * r ^ (nat n * nat lam)"
    by (simp add: power_mult_distrib power_mult)
  ultimately have A: "p\<^sup>2 dvd c ^ nat lam - (1 + n * m) ^ nat lam * r ^ (nat n * nat lam)"
    using dvd_trans [OF pn] by simp
  have "nat p dvd nat n" using p(2) p1 n by (simp add: nat_dvd_iff)
  moreover have "nat (p - 1) dvd nat lam"
    using lam p1 by (simp add: nat_dvd_iff)
  then have "nat p - 1 dvd nat lam"
    using p1 by (simp add: nat_diff_distrib)
  ultimately have "p\<^sup>2 dvd r ^ (nat n * nat lam) - 1"
    using not_dvd_coprime [OF p1 p(2) r(1)] by (intro euler_square p(1) mult_dvd_mono)
  then have B: "p\<^sup>2 dvd (1 + n * m) ^ nat lam * r ^ (nat n * nat lam) - (1 + n * m) ^ nat lam"
    by (metis dvd_mult mult.right_neutral right_diff_distrib)
  have C: "p\<^sup>2 dvd (1 + n * m) ^ nat lam - (1 + n * (m * lam))"
    using one_plus_power [of n m "nat lam"] lam(2) pn by (metis dvd_trans int_nat_eq)
  show ?thesis
    using dvd_add [OF dvd_add [OF A B] C] by (simp add: algebra_simps)
qed

lemma decrypt_raw_power:
  assumes v: "valid_pq p q" and enc: "enc_of (p * q) m c"
    and lam: "p - 1 dvd lam" "q - 1 dvd lam" "0 \<le> lam"
  shows "c ^ nat lam mod (p * q)\<^sup>2 = (1 + (p * q) * (m * lam)) mod (p * q)\<^sup>2"
proof -
  have pq: "is_prime p" "is_prime q" "p \<noteq> q" using v by (auto simp: valid_pq_def)
  have n: "1 < p * q"
    using is_prime_gt_1 [OF pq(1)] is_prime_gt_1 [OF pq(2)] by (simp add: less_1_mult)
  let ?d = "c ^ nat lam - (1 + (p * q) * (m * lam))"
  have "p\<^sup>2 dvd ?d" "q\<^sup>2 dvd ?d"
    using n enc lam pq by (auto intro!: enc_power_mod_square)
  moreover have "coprime (p\<^sup>2) (q\<^sup>2)"
    using distinct_primes_coprime [OF pq] by simp
  ultimately have "p\<^sup>2 * q\<^sup>2 dvd ?d" by (rule divides_mult)
  then show ?thesis by (simp add: mod_eq_dvd_iff power_mult_distrib)
qed

lemma decrypt_crt_power:
  assumes v: "valid_pq p q" and enc: "enc_of (p * q) m c"
  shows "c ^ nat (p - 1) mod p\<^sup>2 = (1 + p * (q * m * (p - 1))) mod p\<^sup>2"
proof -
  have pq: "is_prime p" "is_prime q" using v by (auto simp: valid_pq_def)
  have p1: "1 < p" and "1 < q"
    using is_prime_gt_1 pq by auto
  then have n: "1 < p * q" by (simp add: less_1_mult)
  have "p\<^sup>2 dvd c ^ nat (p - 1) - (1 + (p * q) * (m * (p - 1)))"
    using n p1 pq(1) enc by (intro enc_power_mod_square) auto
  then show ?thesis by (simp add: mod_eq_dvd_iff algebra_simps)
qed

text \<open>Multiplying the \<open>L\<close> value by the inverse of the factor the key holds.\<close>

lemma L_times_inverse:
  assumes "(k mod n * x) mod n = 1 mod (n::int)"
  shows "(m * k mod n * x) mod n = m mod n"
proof -
  have "(m * k mod n * x) mod n = m * (k mod n * x) mod n"
    by (metis (no_types) mod_mult_left_eq mod_mult_right_eq mult.assoc mult.commute)
  also have "\<dots> = m * (k mod n * x mod n) mod n"
    by (rule mod_mult_right_eq [symmetric])
  finally show ?thesis using assms by (simp add: mod_mult_right_eq)
qed

lemma crt_combine:
  assumes "0 < p" "0 < q" "coprime p q" "(p * pinv) mod q = 1 mod (q::int)"
    and "mp = m mod p" "mq = m mod q"
  shows "mp + ((mq - mp) * pinv mod q) * p = m mod (p * q)"
proof -
  let ?u = "(mq - mp) * pinv mod q"
  let ?x = "mp + ?u * p"
  have "?x mod p = m mod p" by (simp add: assms(5))
  moreover have "?x mod q = m mod q"
  proof -
    have "?u * p mod q = ((mq - mp) * pinv) * p mod q"
      by (rule mod_mult_left_eq)
    also have "\<dots> = (mq - mp) * (p * pinv) mod q"
      by (simp only: mult.assoc mult.commute [of pinv p])
    also have "\<dots> = (mq - mp) * (p * pinv mod q) mod q"
      by (simp add: mod_mult_right_eq)
    also have "\<dots> = (mq - mp) mod q"
      using assms(4) by (simp add: mod_mult_right_eq)
    finally have "?x mod q = (mp + (mq - mp)) mod q"
      by (metis mod_add_right_eq)
    then show ?thesis by (simp add: assms(6))
  qed
  ultimately have "p * q dvd ?x - m"
    using assms(3) by (intro divides_mult) (simp_all only: mod_eq_dvd_iff)
  then have "?x mod (p * q) = m mod (p * q)"
    by (simp add: mod_eq_dvd_iff)
  moreover have "0 \<le> ?x" using assms by simp
  moreover have "?x < p * q"
  proof -
    have "?u \<le> q - 1" using assms(2) by (simp add: zle_diff1_eq)
    then have "?u * p \<le> (q - 1) * p" using assms(1) by (intro mult_right_mono) auto
    moreover have "mp < p" using assms(1,5) by simp
    ultimately show ?thesis by (simp add: algebra_simps)
  qed
  ultimately show ?thesis by simp
qed

end
