(* ===== verification/PubKey.thy ===== *)
theory PubKey
  imports RandomGen Texts NumTheory
begin

text \<open>
  The class \<open>PublicKey\<close> (\<open>src/ipcl/pub_key.cpp\<close>, \<open>pub_key.hpp\<close>): construction, the DJN
  parameters, the two obfuscators, encryption, and the archive. A key is a record of the
  members; the shared pointers to \<open>n\<close>, \<open>g\<close> and \<open>n\<^sup>2\<close> are the numbers they point to, which no
  method changes. The ciphertext record is here because \<open>encrypt\<close> builds one.
\<close>

section \<open>State\<close>

record 'b pubkey =
  pk_isInitialized :: bool
  pk_n :: 'b
  pk_g :: 'b
  pk_nsquare :: 'b
  pk_bits :: int
  pk_dwords :: int
  pk_hs :: 'b
  pk_randbits :: int
  pk_enable_DJN :: bool
  pk_r :: "'b list"
  pk_testv :: bool

record 'b ciphertext = "'b base_text" +
  m_pk :: "'b pubkey"

text \<open>The implicit copy constructor: the pointers are shared, the other members copied.\<close>

definition PublicKey_copy :: "('b, 'z) ipp_scheme \<Rightarrow> 'b pubkey \<Rightarrow> 'b pubkey" where
  "PublicKey_copy I pk = pk\<lparr>pk_hs := BigNumber_copy I (pk_hs pk), pk_r := map (BigNumber_copy I) (pk_r pk)\<rparr>"

section \<open>DJN parameters\<close>

text \<open>
  The sampling loop of \<open>enableDJN\<close>, with fuel for the number of draws: it repeats until the
  number drawn is coprime to \<open>n\<close>, and gives its residue.
\<close>

fun djn_sample :: "('b, 'r, 'z) env_scheme \<Rightarrow> 'b \<Rightarrow> nat \<Rightarrow> ('r world, 'b) prog" where
  "djn_sample E n 0 = liftR (Inl OutOfFuel)"
| "djn_sample E n (Suc fuel) =
     (let rand_bit = BitSize E n
      in bindP (getRandomBN E (rand_bit + 128)) (\<lambda>rand.
         let rmod = bn_assign E (bn_mod E rand n); g = bn_assign E (bn_gcd E rand n)
         in if bn_compare E g (BigNumber_s32 E 1) \<noteq> 0 then djn_sample E n fuel else retP rmod))"

text \<open>In \<open>rmod_sq * -1\<close> the literal converts to \<open>Ipp32u\<close>.\<close>

definition enableDJN :: "('b, 'r, 'z) env_scheme \<Rightarrow> nat \<Rightarrow> 'b pubkey \<Rightarrow> ('r world, 'b pubkey) prog" where
  "enableDJN E fuel pk =
     bindP (djn_sample E (pk_n pk) fuel) (\<lambda>rmod.
     let rmod_sq = bn_times E rmod rmod;
         rmod_neg = bn_times_u E rmod_sq (- 1);
         h = bn_mod E rmod_neg (pk_n pk)
     in bindP (liftR (modExp_1 E h (pk_n pk) (pk_nsquare pk))) (\<lambda>hs.
     retP (pk\<lparr>pk_hs := bn_assign E hs, pk_randbits := drop_bit 1 (pk_bits pk), pk_enable_DJN := True\<rparr>)))"

definition PublicKey_new ::
  "('b, 'r, 'z) env_scheme \<Rightarrow> nat \<Rightarrow> 'b \<Rightarrow> int \<Rightarrow> bool \<Rightarrow> ('r world, 'b pubkey) prog" where
  "PublicKey_new E fuel n bits use_djn =
     (let m_n = BigNumber_copy E n;
          pk = \<lparr>pk_isInitialized = False, pk_n = m_n,
                pk_g = BigNumber_copy E (bn_plus_u E m_n 1),
                pk_nsquare = BigNumber_copy E (bn_times E m_n m_n),
                pk_bits = bits, pk_dwords = BITSIZE_DWORD (bits * 2),
                pk_hs = BigNumber_s32 E 0, pk_randbits = 0, pk_enable_DJN = False,
                pk_r = [], pk_testv = False\<rparr>
      in bindP (if use_djn then enableDJN E fuel pk else retP pk) (\<lambda>pk.
         retP (pk\<lparr>pk_isInitialized := True\<rparr>)))"

definition PublicKey_u32 ::
  "('b, 'r, 'z) env_scheme \<Rightarrow> nat \<Rightarrow> u32 \<Rightarrow> int \<Rightarrow> bool \<Rightarrow> ('r world, 'b pubkey) prog" where
  "PublicKey_u32 E fuel n bits use_djn = PublicKey_new E fuel (BigNumber_u32 E n) bits use_djn"

definition setDJN :: "('b, 'z) ipp_scheme \<Rightarrow> 'b \<Rightarrow> int \<Rightarrow> 'b pubkey \<Rightarrow> 'b pubkey" where
  "setDJN I hs randbit pk =
     (if pk_enable_DJN pk then pk
      else pk\<lparr>pk_hs := bn_assign I hs, pk_randbits := randbit, pk_enable_DJN := True\<rparr>)"

definition pk_create ::
  "('b, 'r, 'z) env_scheme \<Rightarrow> nat \<Rightarrow> 'b \<Rightarrow> int \<Rightarrow> bool \<Rightarrow> 'b pubkey \<Rightarrow> ('r world, 'b pubkey) prog" where
  "pk_create E fuel n bits use_djn pk =
     (let m_n = BigNumber_copy E n;
          pk = pk\<lparr>pk_n := m_n, pk_g := BigNumber_copy E (bn_plus_u E m_n 1),
                  pk_nsquare := BigNumber_copy E (bn_times E m_n m_n),
                  pk_bits := bits, pk_dwords := BITSIZE_DWORD (bits * 2), pk_enable_DJN := use_djn\<rparr>
      in bindP (if use_djn then enableDJN E fuel pk
                else retP (pk\<lparr>pk_hs := bn_assign E (BigNumber_Zero E), pk_randbits := 0\<rparr>)) (\<lambda>pk.
         retP (pk\<lparr>pk_testv := False, pk_isInitialized := True\<rparr>)))"

definition pk_create_hs ::
  "('b, 'r, 'z) env_scheme \<Rightarrow> 'b \<Rightarrow> int \<Rightarrow> 'b \<Rightarrow> int \<Rightarrow> 'b pubkey \<Rightarrow> ('r world, 'b pubkey) prog" where
  "pk_create_hs E n bits hs randbits pk =
     bindP (pk_create E 0 n bits False pk) (\<lambda>pk.
     retP (pk\<lparr>pk_enable_DJN := True, pk_hs := bn_assign E hs, pk_randbits := randbits\<rparr>))"

definition setRandom :: "('b, 'z) ipp_scheme \<Rightarrow> 'b list \<Rightarrow> 'b pubkey \<Rightarrow> 'b pubkey" where
  "setRandom I r pk = pk\<lparr>pk_r := pk_r pk @ map (BigNumber_copy I) r, pk_testv := True\<rparr>"

definition setHS :: "('b, 'z) ipp_scheme \<Rightarrow> 'b \<Rightarrow> 'b pubkey \<Rightarrow> 'b pubkey" where
  "setHS I hs pk = pk\<lparr>pk_hs := bn_assign I hs\<rparr>"

definition getHS :: "('b, 'z) ipp_scheme \<Rightarrow> 'b pubkey \<Rightarrow> 'b" where
  "getHS I pk = (if pk_enable_DJN pk then BigNumber_copy I (pk_hs pk)
                 else BigNumber_copy I (BigNumber_Zero I))"

definition getRandBits :: "'b pubkey \<Rightarrow> int" where
  "getRandBits pk = (if pk_enable_DJN pk then pk_randbits pk else - 1)"

section \<open>Obfuscation\<close>

definition getDJNObfuscator :: "('b, 'r, 'z) env_scheme \<Rightarrow> 'b pubkey \<Rightarrow> nat \<Rightarrow> ('r world, 'b list) prog" where
  "getDJNObfuscator E pk sz =
     (let base = replicate sz (BigNumber_copy E (pk_hs pk));
          sq = replicate sz (BigNumber_copy E (pk_nsquare pk))
      in bindP (if pk_testv pk then retP (map (BigNumber_copy E) (pk_r pk))
                else mapP (\<lambda>_. bindP (getRandomBN E (pk_randbits pk)) (\<lambda>x. retP (bn_assign E x))) [0..<sz]) (\<lambda>r.
         modExp E base r sq))"

definition normal_draw :: "('b, 'z) ipp_scheme \<Rightarrow> 'b \<Rightarrow> 'b \<Rightarrow> 'b" where
  "normal_draw I n x = bn_assign I (bn_plus_u I (bn_mod I (bn_assign I x) (bn_minus_u I n 1)) 1)"

definition getNormalObfuscator :: "('b, 'r, 'z) env_scheme \<Rightarrow> 'b pubkey \<Rightarrow> nat \<Rightarrow> ('r world, 'b list) prog" where
  "getNormalObfuscator E pk sz =
     (let sq = replicate sz (BigNumber_copy E (pk_nsquare pk));
          pown = replicate sz (BigNumber_copy E (pk_n pk))
      in bindP (if pk_testv pk then retP (map (BigNumber_copy E) (pk_r pk))
                else mapP (\<lambda>_. bindP (getRandomBN E (pk_bits pk)) (\<lambda>x. retP (normal_draw E (pk_n pk) x))) [0..<sz]) (\<lambda>r.
         modExp E r pown sq))"

definition applyObfuscator :: "('b, 'r, 'z) env_scheme \<Rightarrow> 'b pubkey \<Rightarrow> 'b list \<Rightarrow> ('r world, 'b list) prog" where
  "applyObfuscator E pk ciphertext =
     (let sz = length ciphertext
      in bindP (if pk_enable_DJN pk then getDJNObfuscator E pk sz else getNormalObfuscator E pk sz) (\<lambda>obfuscator.
         let sq = BigNumber_copy E (pk_nsquare pk)
         in liftR (mapR (\<lambda>i. bindR (vec_at obfuscator i) (\<lambda>obf.
              Inr (bn_assign E (bn_ModMul E sq (ciphertext ! i) obf)))) [0..<sz])))"

section \<open>Encryption\<close>

definition raw_encrypt ::
  "('b, 'r, 'z) env_scheme \<Rightarrow> 'b pubkey \<Rightarrow> 'b list \<Rightarrow> bool \<Rightarrow> ('r world, 'b list) prog" where
  "raw_encrypt E pk pt make_secure =
     (let nsq = BigNumber_copy E (pk_nsquare pk);
          ct = map (\<lambda>m. bn_assign E (bn_mod E (bn_plus_u E (bn_times E (pk_n pk) m) 1) nsq)) pt
      in if make_secure then applyObfuscator E pk ct else retP ct)"

definition CipherText_bns :: "('b, 'z) ipp_scheme \<Rightarrow> 'b pubkey \<Rightarrow> 'b list \<Rightarrow> 'b ciphertext" where
  "CipherText_bns I pk bn_v = base_text.extend (BaseText_bns I bn_v) \<lparr>m_pk = PublicKey_copy I pk\<rparr>"

definition encrypt ::
  "('b, 'r, 'z) env_scheme \<Rightarrow> 'b pubkey \<Rightarrow> ('b, 'y) base_text_scheme \<Rightarrow> bool \<Rightarrow> ('r world, 'b ciphertext) prog" where
  "encrypt E pk pt make_secure =
     bindP (liftR (errorCheck (pk_isInitialized pk) ''encrypt: Public key is NOT initialized.'')) (\<lambda>_.
     let pt_size = getSize pt
     in bindP (liftR (errorCheck (pt_size > 0) ''encrypt: Cannot encrypt empty PlainText'')) (\<lambda>_.
        bindP (optimal_ratio (Config E) (unat pt_size) IPCL_HYBRID_MODEXP_RATIO_ENCRYPT) (\<lambda>_.
        bindP (raw_encrypt E pk (getTexts E pt) make_secure) (\<lambda>ct_bn_v.
        retP (CipherText_bns E pk ct_bn_v)))))"

section \<open>The archive\<close>

type_synonym bn_archive = "u32 list \<times> IppsBigNumSGN"

definition pk_save :: "('b, 'z) ipp_scheme \<Rightarrow> 'b pubkey \<Rightarrow> int \<times> bool \<times> int \<times> bn_archive \<times> bn_archive" where
  "pk_save I pk = (pk_bits pk, pk_enable_DJN pk, pk_randbits pk, bn_save I (pk_n pk), bn_save I (pk_hs pk))"

text \<open>\<open>load\<close> first allocates numbers of \<open>bits / 32\<close> words, which have to be there.\<close>

definition pk_load ::
  "('b, 'r, 'z) env_scheme \<Rightarrow> int \<times> bool \<times> int \<times> bn_archive \<times> bn_archive \<Rightarrow> 'b pubkey \<Rightarrow> ('r world, 'b pubkey) prog" where
  "pk_load E ar pk =
     (let (bits, enable_DJN, randbits, n_ar, hs_ar) = ar; bn_len = sgn bits * (\<bar>bits\<bar> div 32)
      in if bn_len \<le> 0 then liftR (Inl (Undefined ''PublicKey::load: no words''))
         else let n = bn_load E n_ar; hs = bn_load E hs_ar
              in if enable_DJN then pk_create_hs E n bits hs randbits pk
                 else pk_create E 0 n bits False pk)"

section \<open>The invariant\<close>

definition env_ok :: "('b, 'r, 'z) env_scheme \<Rightarrow> bool" where
  "env_ok E \<longleftrightarrow> cpu_ok E \<and> rng_ok E"

lemma env_ok_simps [simp]:
  "env_ok E \<Longrightarrow> cpu_ok E" "env_ok E \<Longrightarrow> rng_ok E" "env_ok E \<Longrightarrow> rand_ok E" "env_ok E \<Longrightarrow> ipp_ok E"
  "env_ok E \<Longrightarrow> ipp_me_ok E"
  by (simp_all add: env_ok_def rand_ok_def)

definition pk_core :: "('b, 'z) ipp_scheme \<Rightarrow> 'b pubkey \<Rightarrow> bool" where
  "pk_core I pk \<longleftrightarrow> 1 < bn_val I (pk_n pk) \<and> odd (bn_val I (pk_n pk)) \<and>
     bn_val I (pk_nsquare pk) = (bn_val I (pk_n pk))\<^sup>2 \<and>
     bn_val I (pk_g pk) = bn_val I (pk_n pk) + 1 \<and> 1 \<le> pk_bits pk \<and>
     pk_dwords pk = BITSIZE_DWORD (pk_bits pk * 2)"

text \<open>The DJN parameter is the \<open>n\<close>-th power of a unit, and the exponents fit.\<close>

definition djn_params :: "('b, 'z) ipp_scheme \<Rightarrow> 'b pubkey \<Rightarrow> bool" where
  "djn_params I pk \<longleftrightarrow>
     (\<exists>h. coprime h (bn_val I (pk_n pk)) \<and>
        bn_val I (pk_hs pk) = mpow h (bn_val I (pk_n pk)) ((bn_val I (pk_n pk))\<^sup>2)) \<and>
     1 \<le> pk_randbits pk \<and> 2 ^ nat (pk_randbits pk) \<le> (bn_val I (pk_n pk))\<^sup>2"

definition pk_inv :: "('b, 'z) ipp_scheme \<Rightarrow> 'b pubkey \<Rightarrow> bool" where
  "pk_inv I pk \<longleftrightarrow> pk_isInitialized pk \<and> pk_core I pk \<and> (pk_enable_DJN pk \<longrightarrow> djn_params I pk)"

lemma pk_coreD:
  assumes "pk_core I pk"
  shows "1 < bn_val I (pk_n pk)" "odd (bn_val I (pk_n pk))"
    "bn_val I (pk_nsquare pk) = (bn_val I (pk_n pk))\<^sup>2" "1 \<le> pk_bits pk"
    "odd (bn_val I (pk_nsquare pk))" "1 < bn_val I (pk_nsquare pk)"
    "bn_val I (pk_n pk) \<le> bn_val I (pk_nsquare pk)" "bn_val I (pk_n pk) < bn_val I (pk_nsquare pk)"
proof -
  show n: "1 < bn_val I (pk_n pk)" "odd (bn_val I (pk_n pk))"
    "bn_val I (pk_nsquare pk) = (bn_val I (pk_n pk))\<^sup>2" "1 \<le> pk_bits pk"
    using assms by (simp_all add: pk_core_def)
  have "bn_val I (pk_n pk) * 1 < bn_val I (pk_n pk) * bn_val I (pk_n pk)"
    by (rule mult_strict_left_mono) (use n in simp_all)
  then show "bn_val I (pk_n pk) < bn_val I (pk_nsquare pk)" by (simp add: n(3) power2_eq_square)
  with n show "1 < bn_val I (pk_nsquare pk)" "bn_val I (pk_n pk) \<le> bn_val I (pk_nsquare pk)" by linarith+
  show "odd (bn_val I (pk_nsquare pk))" using n by simp
qed

lemma PublicKey_copy_simps [simp]:
  "pk_n (PublicKey_copy I pk) = pk_n pk" "pk_nsquare (PublicKey_copy I pk) = pk_nsquare pk"
  "pk_g (PublicKey_copy I pk) = pk_g pk" "pk_bits (PublicKey_copy I pk) = pk_bits pk"
  "pk_enable_DJN (PublicKey_copy I pk) = pk_enable_DJN pk"
  "pk_isInitialized (PublicKey_copy I pk) = pk_isInitialized pk"
  "pk_randbits (PublicKey_copy I pk) = pk_randbits pk" "pk_testv (PublicKey_copy I pk) = pk_testv pk"
  "pk_dwords (PublicKey_copy I pk) = pk_dwords pk"
  by (simp_all add: PublicKey_copy_def)

lemma PublicKey_copy_inv: "ipp_ok I \<Longrightarrow> pk_inv I (PublicKey_copy I pk) = pk_inv I pk"
  by (simp add: pk_inv_def pk_core_def djn_params_def)
    (simp add: PublicKey_copy_def bn_simps)

text \<open>Without DJN, construction draws nothing and gives a valid key.\<close>

lemma PublicKey_new_normal:
  assumes "ipp_ok E" "1 < bn_val E n" "odd (bn_val E n)" "1 \<le> bits"
  obtains pk where "PublicKey_new E fuel n bits False w = (Inr pk, w)" "pk_inv E pk"
    "bn_val E (pk_n pk) = bn_val E n" "pk_bits pk = bits" "\<not> pk_enable_DJN pk" "\<not> pk_testv pk"
  using assms
  by (simp add: PublicKey_new_def Let_def pk_inv_def pk_core_def bn_simps power2_eq_square)

lemma pk_create_normal:
  assumes "ipp_ok E" "1 < bn_val E n" "odd (bn_val E n)" "1 \<le> bits"
  obtains pk' where "pk_create E fuel n bits False pk w = (Inr pk', w)" "pk_inv E pk'"
    "bn_val E (pk_n pk') = bn_val E n" "pk_bits pk' = bits" "\<not> pk_enable_DJN pk'" "\<not> pk_testv pk'"
    "pk_r pk' = pk_r pk"
  using assms
  by (simp add: pk_create_def Let_def pk_inv_def pk_core_def bn_simps power2_eq_square)

section \<open>The obfuscators\<close>

lemma modExp_run: "cpu_ok E \<Longrightarrow> fst (modExp E bs es ms w) = r \<Longrightarrow> modExp E bs es ms w = (r, w)"
  by (simp add: modExp_cpu)

lemma optimal_ratio_cpu: "\<not> use_qat C \<Longrightarrow> optimal_ratio C n r w = (Inr (), w)"
  by (simp add: optimal_ratio_def isHybridOptimal_def setHybridRatio_run Let_def)

text \<open>The obfuscator a random number \<open>x\<close> gives, and the numbers a key draws.\<close>

definition obf_val :: "('b, 'z) ipp_scheme \<Rightarrow> 'b pubkey \<Rightarrow> int \<Rightarrow> int" where
  "obf_val I pk x =
     (if pk_enable_DJN pk then mpow (bn_val I (pk_hs pk)) x (bn_val I (pk_nsquare pk))
      else mpow x (bn_val I (pk_n pk)) (bn_val I (pk_nsquare pk)))"

definition draw_range :: "('b, 'z) ipp_scheme \<Rightarrow> 'b pubkey \<Rightarrow> int \<Rightarrow> bool" where
  "draw_range I pk x \<longleftrightarrow>
     (if pk_enable_DJN pk then 0 \<le> x \<and> x < 2 ^ nat (pk_randbits pk)
      else 1 \<le> x \<and> x < bn_val I (pk_n pk))"

text \<open>What \<open>setRandom\<close> may set: exponents not larger than \<open>n\<^sup>2\<close>, or bases below it.\<close>

definition test_range :: "('b, 'z) ipp_scheme \<Rightarrow> 'b pubkey \<Rightarrow> int \<Rightarrow> bool" where
  "test_range I pk x \<longleftrightarrow> 0 \<le> x \<and>
     (if pk_enable_DJN pk then x \<le> bn_val I (pk_nsquare pk) else x < bn_val I (pk_nsquare pk))"

definition obfuscator :: "('b, 'r, 'z) env_scheme \<Rightarrow> 'b pubkey \<Rightarrow> nat \<Rightarrow> ('r world, 'b list) prog" where
  "obfuscator E pk sz = (if pk_enable_DJN pk then getDJNObfuscator E pk sz else getNormalObfuscator E pk sz)"

lemma draw_test_range: "pk_inv I pk \<Longrightarrow> draw_range I pk x \<Longrightarrow> test_range I pk x"
  using pk_coreD [of I pk] by (auto simp: draw_range_def test_range_def pk_inv_def djn_params_def)

lemma mpow_range: "0 < m \<Longrightarrow> 0 \<le> mpow b e m \<and> mpow b e m < m"
  by (simp add: mpow_def)

lemma djn_hs_range: "pk_inv I pk \<Longrightarrow> pk_enable_DJN pk \<Longrightarrow>
    0 \<le> bn_val I (pk_hs pk) \<and> bn_val I (pk_hs pk) < bn_val I (pk_nsquare pk)"
  using pk_coreD [of I pk] by (auto simp: pk_inv_def djn_params_def mpow_range)

text \<open>Given the numbers, both obfuscators are one call of \<open>modExp\<close>.\<close>

lemma DJN_powers:
  assumes ok: "env_ok E" and inv: "pk_inv E pk" "pk_enable_DJN pk" and r: "r \<noteq> []" "length r = sz"
    "\<And>x. x \<in> set r \<Longrightarrow> test_range E pk (bn_val E x)"
  obtains os where "modExp E (replicate sz (BigNumber_copy E (pk_hs pk))) r
      (replicate sz (BigNumber_copy E (pk_nsquare pk))) w = (Inr os, w)"
    "map (bn_val E) os = map (\<lambda>x. obf_val E pk (bn_val E x)) r"
proof -
  note P = pk_coreD [of E pk]
  have core: "pk_core E pk" using inv by (simp add: pk_inv_def)
  have i: "ipp_ok E" and c: "cpu_ok E" using ok by simp_all
  let ?hs = "BigNumber_copy E (pk_hs pk)" and ?sq = "BigNumber_copy E (pk_nsquare pk)"
  let ?b = "replicate sz ?hs"
  have "\<exists>os. fst (modExp E ?b r (replicate (length ?b) ?sq) w) = Inr os \<and>
    map (bn_val E) os = map2 (\<lambda>b e. mpow (bn_val E b) (bn_val E e) (bn_val E ?sq)) ?b r"
  proof (rule me.same_modulus [OF c])
    show "odd (bn_val E ?sq)" "1 < bn_val E ?sq" using P [OF core] by (simp_all add: copy_val [OF i])
    show "?b \<noteq> []" using r by auto
    show "length r = length ?b" using r by simp
    show "\<forall>b \<in> set ?b. 0 \<le> bn_val E b \<and> bn_val E b < bn_val E ?sq"
      using djn_hs_range [OF inv] by (simp add: copy_val [OF i])
    show "\<forall>e \<in> set r. 0 \<le> bn_val E e \<and> bn_val E e \<le> bn_val E ?sq"
      using r(3) inv(2) by (simp add: test_range_def copy_val [OF i])
  qed
  then obtain os where os: "fst (modExp E ?b r (replicate sz ?sq) w) = Inr os"
    "map (bn_val E) os = map2 (\<lambda>b e. mpow (bn_val E b) (bn_val E e) (bn_val E ?sq)) ?b r" by auto
  show ?thesis
  proof (rule that)
    show "modExp E ?b r (replicate sz ?sq) w = (Inr os, w)" by (rule modExp_run [OF c os(1)])
    show "map (bn_val E) os = map (\<lambda>x. obf_val E pk (bn_val E x)) r"
      using os(2) r inv(2) by (simp add: list_eq_iff_nth_eq obf_val_def copy_val [OF i])
  qed
qed

lemma normal_powers:
  assumes ok: "env_ok E" and inv: "pk_inv E pk" "\<not> pk_enable_DJN pk" and r: "r \<noteq> []" "length r = sz"
    "\<And>x. x \<in> set r \<Longrightarrow> test_range E pk (bn_val E x)"
  obtains os where "modExp E r (replicate sz (BigNumber_copy E (pk_n pk)))
      (replicate sz (BigNumber_copy E (pk_nsquare pk))) w = (Inr os, w)"
    "map (bn_val E) os = map (\<lambda>x. obf_val E pk (bn_val E x)) r"
proof -
  have core: "pk_core E pk" using inv by (simp add: pk_inv_def)
  note P = pk_coreD [OF core]
  have i: "ipp_ok E" and c: "cpu_ok E" using ok by simp_all
  let ?n = "BigNumber_copy E (pk_n pk)" and ?sq = "BigNumber_copy E (pk_nsquare pk)"
  have "\<exists>os. fst (modExp E r (replicate (length r) ?n) (replicate (length r) ?sq) w) = Inr os \<and>
    map (bn_val E) os = map (\<lambda>b. mpow (bn_val E b) (bn_val E ?n) (bn_val E ?sq)) r"
  proof (rule me.same_exponent [OF c r(1)])
    show "odd (bn_val E ?sq)" "1 < bn_val E ?sq" "0 \<le> bn_val E ?n" "bn_val E ?n \<le> bn_val E ?sq"
      using P by (simp_all add: copy_val [OF i])
    show "\<forall>b \<in> set r. 0 \<le> bn_val E b \<and> bn_val E b < bn_val E ?sq"
      using r(3) inv(2) by (simp add: test_range_def copy_val [OF i])
  qed
  then obtain os where os: "fst (modExp E r (replicate sz ?n) (replicate sz ?sq) w) = Inr os"
    "map (bn_val E) os = map (\<lambda>b. mpow (bn_val E b) (bn_val E ?n) (bn_val E ?sq)) r"
    using r(2) by auto
  show ?thesis
  proof (rule that)
    show "modExp E r (replicate sz ?n) (replicate sz ?sq) w = (Inr os, w)"
      by (rule modExp_run [OF c os(1)])
    show "map (bn_val E) os = map (\<lambda>x. obf_val E pk (bn_val E x)) r"
      using os(2) inv(2) by (simp add: obf_val_def copy_val [OF i])
  qed
qed

text \<open>In test mode the numbers are those \<open>setRandom\<close> stored, as many as there are texts.\<close>

lemma obfuscator_test:
  assumes ok: "env_ok E" and inv: "pk_inv E pk" and t: "pk_testv pk" "length (pk_r pk) = sz" "0 < sz"
    "\<And>x. x \<in> set (pk_r pk) \<Longrightarrow> test_range E pk (bn_val E x)"
  obtains os where "obfuscator E pk sz w = (Inr os, w)"
    "map (bn_val E) os = map (\<lambda>x. obf_val E pk (bn_val E x)) (pk_r pk)"
proof -
  have i: "ipp_ok E" using ok by simp
  let ?r = "map (BigNumber_copy E) (pk_r pk)"
  have r: "?r \<noteq> []" "length ?r = sz" "\<And>x. x \<in> set ?r \<Longrightarrow> test_range E pk (bn_val E x)"
    using t by (auto simp: copy_val [OF i])
  have v: "map (\<lambda>x. obf_val E pk (bn_val E x)) ?r = map (\<lambda>x. obf_val E pk (bn_val E x)) (pk_r pk)"
    by (simp add: copy_val [OF i])
  show ?thesis
  proof (cases "pk_enable_DJN pk")
    case True
    obtain os where "modExp E (replicate sz (BigNumber_copy E (pk_hs pk))) ?r
        (replicate sz (BigNumber_copy E (pk_nsquare pk))) w = (Inr os, w)"
      "map (bn_val E) os = map (\<lambda>x. obf_val E pk (bn_val E x)) ?r"
      by (rule DJN_powers [OF ok inv True r])
    then show ?thesis
      using that v True t(1) by (simp add: obfuscator_def getDJNObfuscator_def Let_def)
  next
    case False
    obtain os where "modExp E ?r (replicate sz (BigNumber_copy E (pk_n pk)))
        (replicate sz (BigNumber_copy E (pk_nsquare pk))) w = (Inr os, w)"
      "map (bn_val E) os = map (\<lambda>x. obf_val E pk (bn_val E x)) ?r"
      by (rule normal_powers [OF ok inv False r])
    then show ?thesis
      using that v False t(1) by (simp add: obfuscator_def getNormalObfuscator_def Let_def)
  qed
qed

text \<open>Otherwise they are drawn: each in the range of the key's mode.\<close>

lemma normal_draw_val:
  assumes "ipp_ok I" "pk_core I pk"
  shows "bn_val I (normal_draw I (pk_n pk) x) = bn_val I x mod (bn_val I (pk_n pk) - 1) + 1"
    and "1 \<le> bn_val I (normal_draw I (pk_n pk) x)"
    and "bn_val I (normal_draw I (pk_n pk) x) < bn_val I (pk_n pk)"
proof -
  have n: "0 < bn_val I (pk_n pk) - 1" using pk_coreD(1) [OF assms(2)] by simp
  then have "0 < bn_val I (bn_minus_u I (pk_n pk) 1)" using assms(1) by (simp add: bn_simps)
  then show v: "bn_val I (normal_draw I (pk_n pk) x) = bn_val I x mod (bn_val I (pk_n pk) - 1) + 1"
    using assms(1) n by (simp add: normal_draw_def bn_assign_copy bn_simps)
  show "1 \<le> bn_val I (normal_draw I (pk_n pk) x)"
    "bn_val I (normal_draw I (pk_n pk) x) < bn_val I (pk_n pk)"
    using n pos_mod_bound [OF n, of "bn_val I x"] pos_mod_sign [OF n, of "bn_val I x"]
    unfolding v by linarith+
qed

lemma obfuscator_random:
  assumes ok: "env_ok E" and inv: "pk_inv E pk" and t: "\<not> pk_testv pk" "0 < sz"
    and run: "obfuscator E pk sz w = (Inr os, w')"
  shows "same_but_rng w w'" "\<exists>xs. length xs = sz \<and> (\<forall>x \<in> set xs. draw_range E pk x) \<and>
    map (bn_val E) os = map (obf_val E pk) xs"
proof -
  have i: "ipp_ok E" and k: "rand_ok E" using ok by simp_all
  have core: "pk_core E pk" using inv by (simp add: pk_inv_def)
  let ?f = "\<lambda>x. if pk_enable_DJN pk then bn_assign E x else normal_draw E (pk_n pk) x"
  let ?bits = "if pk_enable_DJN pk then pk_randbits pk else pk_bits pk"
  have bits: "1 \<le> ?bits"
    using inv by (auto simp: pk_inv_def djn_params_def pk_core_def)
  have "\<exists>r w1. mapP (\<lambda>_. bindP (getRandomBN E ?bits) (\<lambda>x. retP (?f x))) [0..<sz] w = (Inr r, w1)"
    using run t(1) by (cases "pk_enable_DJN pk")
      (auto simp: obfuscator_def getDJNObfuscator_def getNormalObfuscator_def Let_def elim!: bindP_InrE)
  then obtain r w1 where r: "mapP (\<lambda>_. bindP (getRandomBN E ?bits) (\<lambda>x. retP (?f x))) [0..<sz] w = (Inr r, w1)"
    by blast
  note V = rs.gen_vector [OF k bits r]
  have len: "r \<noteq> []" "length r = sz" using V(1) t(2) by auto
  have rng: "draw_range E pk (bn_val E y)" if "y \<in> set r" for y
    using V(3) [OF that] normal_draw_val [OF i core]
    by (auto simp: draw_range_def bn_assign_copy copy_val [OF i])
  have tst: "test_range E pk (bn_val E y)" if "y \<in> set r" for y
    by (rule draw_test_range [OF inv rng [OF that]])
  obtain os' where "obfuscator E pk sz w = (Inr os', w1)"
    "map (bn_val E) os' = map (\<lambda>x. obf_val E pk (bn_val E x)) r"
  proof (cases "pk_enable_DJN pk")
    case True
    obtain os where "modExp E (replicate sz (BigNumber_copy E (pk_hs pk))) r
        (replicate sz (BigNumber_copy E (pk_nsquare pk))) w1 = (Inr os, w1)"
      "map (bn_val E) os = map (\<lambda>x. obf_val E pk (bn_val E x)) r"
      by (rule DJN_powers [OF ok inv True len tst])
    then show ?thesis
      using that True t(1) r by (simp add: obfuscator_def getDJNObfuscator_def Let_def bindP_ok)
  next
    case False
    obtain os where "modExp E r (replicate sz (BigNumber_copy E (pk_n pk)))
        (replicate sz (BigNumber_copy E (pk_nsquare pk))) w1 = (Inr os, w1)"
      "map (bn_val E) os = map (\<lambda>x. obf_val E pk (bn_val E x)) r"
      by (rule normal_powers [OF ok inv False len tst])
    then show ?thesis
      using that False t(1) r by (simp add: obfuscator_def getNormalObfuscator_def Let_def bindP_ok)
  qed
  then have os: "w1 = w'" "map (bn_val E) os = map (obf_val E pk) (map (bn_val E) r)"
    using run by (simp_all add: comp_def)
  show "same_but_rng w w'" using V(2) os(1) by simp
  show "\<exists>xs. length xs = sz \<and> (\<forall>x \<in> set xs. draw_range E pk x) \<and>
    map (bn_val E) os = map (obf_val E pk) xs"
    by (rule exI [of _ "map (bn_val E) r"]) (use len rng os(2) in auto)
qed

section \<open>Encryption\<close>

lemma applyObfuscator_run:
  assumes i: "ipp_ok E" and core: "pk_core E pk"
    and os: "obfuscator E pk (length ct) w = (Inr os, w')" "length os = length ct"
  obtains cs where "applyObfuscator E pk ct w = (Inr cs, w')"
    "map (bn_val E) cs = map2 (\<lambda>c x. bn_val E c * bn_val E x mod bn_val E (pk_nsquare pk)) ct os"
proof -
  let ?sq = "BigNumber_copy E (pk_nsquare pk)"
  let ?cs = "map (\<lambda>l. bn_assign E (bn_ModMul E ?sq (ct ! l) (os ! l))) [0..<length ct]"
  have "mapR (\<lambda>l. bindR (vec_at os l) (\<lambda>obf. Inr (bn_assign E (bn_ModMul E ?sq (ct ! l) obf)))) [0..<length ct]
      = Inr ?cs"
    by (rule mapR_ok) (simp add: os(2))
  then have "applyObfuscator E pk ct w = (Inr ?cs, w')"
    using os(1) by (simp add: applyObfuscator_def Let_def obfuscator_def bindP_ok)
  moreover have sq: "0 < bn_val E ?sq" using pk_coreD(6) [OF core] by (simp add: copy_val [OF i])
  have "map (bn_val E) ?cs = map2 (\<lambda>c x. bn_val E c * bn_val E x mod bn_val E (pk_nsquare pk)) ct os"
    by (rule nth_equalityI)
      (simp_all add: os(2) bn_assign_copy copy_val [OF i] ModMul_val [OF i sq])
  ultimately show ?thesis by (rule that)
qed

text \<open>The ciphertext of \<open>m\<close> with the random number \<open>x\<close>, and the one without obfuscation.\<close>

definition enc_val :: "('b, 'z) ipp_scheme \<Rightarrow> 'b pubkey \<Rightarrow> int \<Rightarrow> int \<Rightarrow> int" where
  "enc_val I pk m x = (1 + bn_val I (pk_n pk) * m) * obf_val I pk x mod (bn_val I (pk_n pk))\<^sup>2"

definition plain_val :: "('b, 'z) ipp_scheme \<Rightarrow> 'b pubkey \<Rightarrow> int \<Rightarrow> int" where
  "plain_val I pk m = (1 + bn_val I (pk_n pk) * m) mod (bn_val I (pk_n pk))\<^sup>2"

lemma enc_step:
  assumes i: "ipp_ok I" and core: "pk_core I pk"
  shows "bn_val I (bn_assign I (bn_mod I (bn_plus_u I (bn_times I (pk_n pk) m) 1)
    (BigNumber_copy I (pk_nsquare pk)))) = plain_val I pk (bn_val I m)"
proof -
  have sq: "0 < bn_val I (BigNumber_copy I (pk_nsquare pk))"
    using pk_coreD(6) [OF core] by (simp add: copy_val [OF i])
  show ?thesis
    by (simp add: bn_assign_copy copy_val [OF i] mod_val [OF i sq] plus_u_val [OF i] times_val [OF i]
        plain_val_def pk_coreD(3) [OF core] add.commute)
qed

lemma raw_encrypt_plain:
  assumes "ipp_ok E" "pk_core E pk"
  obtains cs where "raw_encrypt E pk pt False w = (Inr cs, w)"
    "map (bn_val E) cs = map (\<lambda>m. plain_val E pk (bn_val E m)) pt"
  using that by (simp add: raw_encrypt_def Let_def enc_step [OF assms])

lemma raw_encrypt_secure:
  assumes i: "ipp_ok E" and core: "pk_core E pk"
    and os: "obfuscator E pk (length pt) w = (Inr os, w')"
    "map (bn_val E) os = map (obf_val E pk) xs" "length xs = length pt"
  obtains cs where "raw_encrypt E pk pt True w = (Inr cs, w')"
    "map (bn_val E) cs = map2 (enc_val E pk) (map (bn_val E) pt) xs"
proof -
  let ?sq = "BigNumber_copy E (pk_nsquare pk)"
  let ?ct = "map (\<lambda>m. bn_assign E (bn_mod E (bn_plus_u E (bn_times E (pk_n pk) m) 1) ?sq)) pt"
  note P = pk_coreD [OF core]
  have lo: "length os = length ?ct" using arg_cong [OF os(2), of length] os(3) by simp
  have o1: "obfuscator E pk (length ?ct) w = (Inr os, w')" using os(1) by simp
  obtain cs where cs: "applyObfuscator E pk ?ct w = (Inr cs, w')"
    "map (bn_val E) cs = map2 (\<lambda>c x. bn_val E c * bn_val E x mod bn_val E (pk_nsquare pk)) ?ct os"
    by (rule applyObfuscator_run [OF i core o1 lo])
  have ov: "bn_val E (os ! l) = obf_val E pk (xs ! l)" if "l < length pt" for l
    using arg_cong [OF os(2), of "\<lambda>v. v ! l"] that lo os(3) by simp
  have "map (bn_val E) cs = map2 (enc_val E pk) (map (bn_val E) pt) xs"
    unfolding cs(2) by (rule nth_equalityI)
      (use lo os(3) in \<open>simp_all add: ov enc_step [OF i core] plain_val_def enc_val_def P(3) mod_mult_left_eq\<close>)
  moreover have "raw_encrypt E pk pt True w = (Inr cs, w')"
    using cs(1) by (simp add: raw_encrypt_def Let_def)
  ultimately show ?thesis using that by blast
qed

lemma CipherText_bns_simps [simp]:
  "m_pk (CipherText_bns I pk v) = PublicKey_copy I pk"
  "m_texts (CipherText_bns I pk v) = map (BigNumber_copy I) v"
  "m_size (CipherText_bns I pk v) = size_of v"
  by (simp_all add: CipherText_bns_def BaseText_bns_def base_text.extend_def Let_def size_of_def)

lemma CipherText_bns_vals: "ipp_ok I \<Longrightarrow> text_vals I (CipherText_bns I pk v) = map (bn_val I) v"
  by (simp add: text_vals_def copy_val)

lemma CipherText_bns_inv: "length v < 2 ^ 64 \<Longrightarrow> text_inv (CipherText_bns I pk v)"
  by (simp add: text_inv_def unat_size_of)

lemma text_pos: "text_inv t \<Longrightarrow> 0 < m_size t \<longleftrightarrow> m_texts t \<noteq> []"
  by (auto simp: text_inv_def word_less_nat_alt)

text \<open>\<open>encrypt\<close> is \<open>raw_encrypt\<close> behind its two checks.\<close>

lemma encrypt_run:
  assumes "env_ok E" "pk_inv E pk" "0 < m_size pt" "raw_encrypt E pk (getTexts E pt) s w = (Inr cs, w')"
  shows "encrypt E pk pt s w = (Inr (CipherText_bns E pk cs), w')"
  using assms by (simp add: encrypt_def getSize_def pk_inv_def bindP_def optimal_ratio_cpu)

lemma encrypt_errors:
  "\<not> pk_isInitialized pk \<Longrightarrow>
    encrypt E pk pt s w = (Inl (RuntimeError ''encrypt: Public key is NOT initialized.''), w)"
  "pk_isInitialized pk \<Longrightarrow> m_size pt = 0 \<Longrightarrow>
    encrypt E pk pt s w = (Inl (RuntimeError ''encrypt: Cannot encrypt empty PlainText''), w)"
  by (simp_all add: encrypt_def getSize_def)

lemma encrypt_plain:
  assumes ok: "env_ok E" and inv: "pk_inv E pk" and t: "text_inv pt" "0 < m_size pt"
  obtains ct where "encrypt E pk pt False w = (Inr ct, w)" "text_inv ct" "m_pk ct = PublicKey_copy E pk"
    "text_vals E ct = map (plain_val E pk) (text_vals E pt)"
proof -
  have i: "ipp_ok E" and core: "pk_core E pk" using ok inv by (simp_all add: pk_inv_def)
  obtain cs where cs: "raw_encrypt E pk (getTexts E pt) False w = (Inr cs, w)"
    "map (bn_val E) cs = map (\<lambda>m. plain_val E pk (bn_val E m)) (getTexts E pt)"
    by (rule raw_encrypt_plain [OF i core])
  have len: "length cs = length (m_texts pt)"
    using arg_cong [OF cs(2), of length] by (simp add: getTexts_def)
  show ?thesis
  proof (rule that [OF encrypt_run [OF ok inv t(2) cs(1)]])
    show "text_inv (CipherText_bns E pk cs)"
      using text_length [OF t(1)] by (intro CipherText_bns_inv) (simp add: len)
    show "text_vals E (CipherText_bns E pk cs) = map (plain_val E pk) (text_vals E pt)"
      unfolding CipherText_bns_vals [OF i] cs(2) text_vals_simps(6) [OF i, symmetric, of pt] by simp
  qed simp
qed

lemma encrypt_secure_os:
  assumes ok: "env_ok E" and inv: "pk_inv E pk" and t: "text_inv pt" "0 < m_size pt"
    and os: "obfuscator E pk (length (m_texts pt)) w = (Inr os, w')"
    "map (bn_val E) os = map (obf_val E pk) xs" "length xs = length (m_texts pt)"
  obtains ct where "encrypt E pk pt True w = (Inr ct, w')" "text_inv ct" "m_pk ct = PublicKey_copy E pk"
    "text_vals E ct = map2 (enc_val E pk) (text_vals E pt) xs"
proof -
  have i: "ipp_ok E" and core: "pk_core E pk" using ok inv by (simp_all add: pk_inv_def)
  have o2: "obfuscator E pk (length (getTexts E pt)) w = (Inr os, w')" "length xs = length (getTexts E pt)"
    using os by (simp_all add: getTexts_def)
  obtain cs where cs: "raw_encrypt E pk (getTexts E pt) True w = (Inr cs, w')"
    "map (bn_val E) cs = map2 (enc_val E pk) (map (bn_val E) (getTexts E pt)) xs"
    by (rule raw_encrypt_secure [OF i core o2(1) os(2) o2(2)])
  have len: "length cs = length (m_texts pt)"
    using arg_cong [OF cs(2), of length] os(3) by (simp add: getTexts_def)
  show ?thesis
  proof (rule that [OF encrypt_run [OF ok inv t(2) cs(1)]])
    show "text_inv (CipherText_bns E pk cs)"
      using text_length [OF t(1)] by (intro CipherText_bns_inv) (simp add: len)
    show "text_vals E (CipherText_bns E pk cs) = map2 (enc_val E pk) (text_vals E pt) xs"
      using cs(2) by (simp add: CipherText_bns_vals [OF i] text_vals_simps(6) [OF i])
  qed simp
qed

section \<open>DJN keys\<close>

lemma djn_bits: "ipp_ok E \<Longrightarrow> 1 < bn_val E n \<Longrightarrow> 1 \<le> BitSize E n + 128"
  using BitSize_val [of E n] by simp

text \<open>One round of the loop.\<close>

lemma djn_round:
  assumes ok: "env_ok E" and n: "1 < bn_val E n"
    and g: "getRandomBN E (BitSize E n + 128) w = (Inr rand, w1)" and r: "0 < bn_val E rand"
  shows "djn_sample E n (Suc fuel) w =
    (if coprime (bn_val E rand) (bn_val E n) then (Inr (bn_assign E (bn_mod E rand n)), w1)
     else djn_sample E n fuel w1)"
proof -
  have i: "ipp_ok E" using ok by simp
  let ?g = "bn_assign E (bn_gcd E rand n)"
  have gv: "bn_val E ?g = gcd (bn_val E rand) (bn_val E n)"
    using n r by (simp add: bn_assign_copy copy_val [OF i] gcd_val [OF i])
  have one: "bn_val E (BigNumber_s32 E 1) = 1" using i by (simp add: bn_simps)
  have "bn_compare E ?g (BigNumber_s32 E 1) = sgn (bn_val E ?g - 1)"
    using compare_val [OF i, of ?g "BigNumber_s32 E 1"] by (simp add: gv one)
  then have "bn_compare E ?g (BigNumber_s32 E 1) \<noteq> 0 \<longleftrightarrow> \<not> coprime (bn_val E rand) (bn_val E n)"
    by (simp add: gv coprime_iff_gcd_eq_1 sgn_eq_0_iff)
  then show ?thesis using g by (simp add: Let_def bindP_ok)
qed

text \<open>The loop gives the residue of a number drawn, a unit unless the draw was zero.\<close>

lemma djn_sample_ok:
  assumes ok: "env_ok E" and n: "1 < bn_val E n" and run: "djn_sample E n fuel w = (Inr rmod, w')"
  shows "same_but_rng w w'" "\<exists>x \<ge> 0. bn_val E rmod = x mod bn_val E n \<and> (x = 0 \<or> coprime x (bn_val E n))"
proof -
  have i: "ipp_ok E" and k: "rand_ok E" using ok by simp_all
  have b: "1 \<le> BitSize E n + 128" by (rule djn_bits [OF i n])
  have "same_but_rng w w' \<and> (\<exists>x \<ge> 0. bn_val E rmod = x mod bn_val E n \<and> (x = 0 \<or> coprime x (bn_val E n)))"
    using run
  proof (induction fuel arbitrary: w)
    case 0
    then show ?case by simp
  next
    case (Suc fuel)
    obtain rand w1 where g: "getRandomBN E (BitSize E n + 128) w = (Inr rand, w1)"
      using Suc.prems by (auto simp: Let_def elim!: bindP_InrE)
    have r: "0 \<le> bn_val E rand" and s: "same_but_rng w w1"
      using rs.gen_range [OF k b g] rs.gen_same [OF k b g] by blast+
    have v: "bn_val E (bn_assign E (bn_mod E rand n)) = bn_val E rand mod bn_val E n"
      using n by (simp add: bn_assign_copy copy_val [OF i] mod_val [OF i])
    have IH: "djn_sample E n fuel w1 = (Inr rmod, w') \<Longrightarrow> ?case"
      using Suc.IH rs.same_trans [OF s] by blast
    show ?case
    proof (cases "bn_val E rand = 0")
      case True
      have "djn_sample E n fuel w1 = (Inr rmod, w') \<or>
          (rmod = bn_assign E (bn_mod E rand n) \<and> w' = w1)"
        using Suc.prems by (auto simp: Let_def bindP_def g split: if_splits)
      then show ?thesis
        using IH s v True by (metis order_refl)
    next
      case False
      then have "0 < bn_val E rand" using r by simp
      from djn_round [OF ok n g this, of fuel] Suc.prems
      have "coprime (bn_val E rand) (bn_val E n) \<and> rmod = bn_assign E (bn_mod E rand n) \<and> w' = w1 \<or>
          djn_sample E n fuel w1 = (Inr rmod, w')"
        by (auto split: if_splits)
      then show ?thesis using IH s v r by metis
    qed
  qed
  then show "same_but_rng w w'"
    "\<exists>x \<ge> 0. bn_val E rmod = x mod bn_val E n \<and> (x = 0 \<or> coprime x (bn_val E n))" by blast+
qed

text \<open>A sequence of draws; the loop ends at the first that is coprime to \<open>n\<close>.\<close>

fun draw_seq :: "('b, 'r, 'z) env_scheme \<Rightarrow> int \<Rightarrow> 'b list \<Rightarrow> 'r world \<Rightarrow> 'r world \<Rightarrow> bool" where
  "draw_seq E bits [] w w' \<longleftrightarrow> w' = w"
| "draw_seq E bits (x # xs) w w' \<longleftrightarrow>
     (case getRandomBN E bits w of (Inl e, w1) \<Rightarrow> False | (Inr y, w1) \<Rightarrow> y = x \<and> draw_seq E bits xs w1 w')"

lemma djn_sample_terminates:
  assumes ok: "env_ok E" and n: "1 < bn_val E n"
  shows "draw_seq E (BitSize E n + 128) (xs @ [y]) w w' \<Longrightarrow>
    \<forall>x \<in> set xs. 0 < bn_val E x \<and> \<not> coprime (bn_val E x) (bn_val E n) \<Longrightarrow>
    0 < bn_val E y \<Longrightarrow> coprime (bn_val E y) (bn_val E n) \<Longrightarrow> length xs < fuel \<Longrightarrow>
    djn_sample E n fuel w = (Inr (bn_assign E (bn_mod E y n)), w')"
proof (induction xs arbitrary: w fuel)
  case Nil
  then obtain f where "fuel = Suc f" by (cases fuel) auto
  moreover have "getRandomBN E (BitSize E n + 128) w = (Inr y, w')"
    using Nil.prems(1) by (simp split: prod.splits sum.splits)
  ultimately show ?case using djn_round [OF ok n _ Nil.prems(3)] Nil.prems(4) by simp
next
  case (Cons x xs)
  then obtain f where f: "fuel = Suc f" by (cases fuel) auto
  obtain w1 where g: "getRandomBN E (BitSize E n + 128) w = (Inr x, w1)"
    and d: "draw_seq E (BitSize E n + 128) (xs @ [y]) w1 w'"
    using Cons.prems(1) by (auto split: prod.splits sum.splits)
  have "djn_sample E n f w1 = (Inr (bn_assign E (bn_mod E y n)), w')"
    by (rule Cons.IH [OF d]) (use Cons.prems f in simp_all)
  then show ?case using djn_round [OF ok n g] Cons.prems(2) f by simp
qed

text \<open>The parameter the code computes from the residue \<open>r\<close>: the factor is \<open>2 ^ 32 - 1\<close>, the
  conversion of \<open>-1\<close>.\<close>

definition djn_base :: "int \<Rightarrow> int \<Rightarrow> int" where
  "djn_base r n = r * r * (2 ^ 32 - 1) mod n"

lemma enableDJN_run:
  assumes ok: "env_ok E" and core: "pk_core E pk" and s: "djn_sample E (pk_n pk) fuel w = (Inr rmod, w1)"
  obtains hs where "enableDJN E fuel pk w =
      (Inr (pk\<lparr>pk_hs := hs, pk_randbits := drop_bit 1 (pk_bits pk), pk_enable_DJN := True\<rparr>), w1)"
    "bn_val E hs = mpow (djn_base (bn_val E rmod) (bn_val E (pk_n pk))) (bn_val E (pk_n pk)) ((bn_val E (pk_n pk))\<^sup>2)"
proof -
  have i: "ipp_ok E" using ok by simp
  let ?n = "bn_val E (pk_n pk)"
  note P = pk_coreD [OF core]
  let ?h = "bn_mod E (bn_times_u E (bn_times E rmod rmod) (- 1)) (pk_n pk)"
  have h: "bn_val E ?h = djn_base (bn_val E rmod) ?n"
    using P(1) by (simp add: djn_base_def mod_val [OF i] times_u_val [OF i] times_val [OF i]
        unsigned_minus_1_eq_mask mask_eq_exp_minus_1)
  have hr: "0 \<le> bn_val E ?h" "bn_val E ?h < ?n" using P(1) unfolding h djn_base_def by simp_all
  have "lane (bn_val E ?h) ?n (bn_val E (pk_nsquare pk))"
    unfolding lane_def using hr P by linarith
  then obtain hs where hs: "modExp_1 E ?h (pk_n pk) (pk_nsquare pk) = Inr hs"
    "bn_val E hs = mpow (bn_val E ?h) ?n (bn_val E (pk_nsquare pk))"
    using modExp_1_ok [of E ?h "pk_n pk" "pk_nsquare pk"] ok by (metis env_ok_simps(5))
  show ?thesis
  proof (rule that)
    show "enableDJN E fuel pk w =
        (Inr (pk\<lparr>pk_hs := bn_assign E hs, pk_randbits := drop_bit 1 (pk_bits pk), pk_enable_DJN := True\<rparr>), w1)"
      using hs(1) by (simp add: enableDJN_def Let_def bindP_def s)
    show "bn_val E (bn_assign E hs) = mpow (djn_base (bn_val E rmod) ?n) ?n (?n\<^sup>2)"
      by (simp add: bn_assign_copy copy_val [OF i] hs(2) h P(3))
  qed
qed

lemma enableDJN_ok:
  assumes ok: "env_ok E" and core: "pk_core E pk" and run: "enableDJN E fuel pk w = (Inr pk', w')"
  obtains r hs where "pk' = pk\<lparr>pk_hs := hs, pk_randbits := drop_bit 1 (pk_bits pk), pk_enable_DJN := True\<rparr>"
    "same_but_rng w w'"
    "bn_val E hs = mpow (djn_base r (bn_val E (pk_n pk))) (bn_val E (pk_n pk)) ((bn_val E (pk_n pk))\<^sup>2)"
    "\<exists>x \<ge> 0. r = x mod bn_val E (pk_n pk) \<and> (x = 0 \<or> coprime x (bn_val E (pk_n pk)))"
proof -
  note P = pk_coreD [OF core]
  obtain rmod w1 where s: "djn_sample E (pk_n pk) fuel w = (Inr rmod, w1)"
    using run by (auto simp: enableDJN_def elim!: bindP_InrE)
  obtain hs where hs: "enableDJN E fuel pk w =
      (Inr (pk\<lparr>pk_hs := hs, pk_randbits := drop_bit 1 (pk_bits pk), pk_enable_DJN := True\<rparr>), w1)"
    "bn_val E hs = mpow (djn_base (bn_val E rmod) (bn_val E (pk_n pk))) (bn_val E (pk_n pk)) ((bn_val E (pk_n pk))\<^sup>2)"
    by (rule enableDJN_run [OF ok core s])
  show ?thesis
  proof (rule that [OF _ _ hs(2) djn_sample_ok(2) [OF ok P(1) s]])
    show "pk' = pk\<lparr>pk_hs := hs, pk_randbits := drop_bit 1 (pk_bits pk), pk_enable_DJN := True\<rparr>"
      using hs(1) run by simp
    show "same_but_rng w w'" using djn_sample_ok(1) [OF ok P(1) s] hs(1) run by simp
  qed
qed

lemma coprime_djn_base:
  assumes "coprime r n" "coprime (2 ^ 32 - 1) n" "n \<noteq> 0"
  shows "coprime (djn_base r n) n"
  using assms unfolding djn_base_def by (simp add: coprime_mod_left_iff)

text \<open>A key with DJN parameters from a draw that is not zero is valid.\<close>

lemma enableDJN_inv:
  assumes ok: "env_ok E" and core: "pk_core E pk" and run: "enableDJN E fuel pk w = (Inr pk', w')"
    and n: "coprime (2 ^ 32 - 1) (bn_val E (pk_n pk))" "2 ^ nat (pk_bits pk - 1) \<le> bn_val E (pk_n pk)"
    "2 \<le> pk_bits pk"
    and nz: "bn_val E (pk_hs pk') \<noteq> 0"
  shows "pk_core E pk'" "djn_params E pk'"
proof -
  let ?n = "bn_val E (pk_n pk)"
  obtain r hs where e: "pk' = pk\<lparr>pk_hs := hs, pk_randbits := drop_bit 1 (pk_bits pk), pk_enable_DJN := True\<rparr>"
    and hs: "bn_val E hs = mpow (djn_base r ?n) ?n (?n\<^sup>2)"
    and r: "\<exists>x \<ge> 0. r = x mod ?n \<and> (x = 0 \<or> coprime x ?n)"
    by (rule enableDJN_ok [OF ok core run])
  note P = pk_coreD [OF core]
  show "pk_core E pk'" using core by (simp add: e pk_core_def)
  have "r \<noteq> 0"
  proof
    assume "r = 0"
    then have "bn_val E hs = 0" using P(1) by (simp add: hs djn_base_def mpow_def power_0_left)
    then show False using nz by (simp add: e)
  qed
  then have "coprime r ?n" using r P(1) by (auto simp: coprime_mod_left_iff)
  then have "coprime (djn_base r ?n) ?n" by (rule coprime_djn_base) (use n(1) P(1) in simp_all)
  moreover have db: "drop_bit 1 (pk_bits pk) = pk_bits pk div 2" by (simp add: drop_bit_eq_div)
  moreover have "(2::int) ^ nat (pk_bits pk div 2) \<le> 2 ^ nat (pk_bits pk - 1)"
    using n(3) by (intro power_increasing) auto
  then have "2 ^ nat (pk_bits pk div 2) \<le> ?n\<^sup>2" using n(2) P(3,7) by linarith
  ultimately show "djn_params E pk'"
    using hs n(3) unfolding djn_params_def by (auto simp: e)
qed

section \<open>Archives\<close>

text \<open>A key read back from its archive has the same numbers, mode and parameters.\<close>

lemma pk_load_save:
  assumes ok: "env_ok E" and inv: "pk_inv E pk" and bits: "32 \<le> pk_bits pk"
  obtains pk' where "pk_load E (pk_save E pk) pk0 w = (Inr pk', w)" "pk_inv E pk'"
    "bn_val E (pk_n pk') = bn_val E (pk_n pk)" "pk_enable_DJN pk' = pk_enable_DJN pk"
    "pk_enable_DJN pk \<Longrightarrow> bn_val E (pk_hs pk') = bn_val E (pk_hs pk) \<and> pk_randbits pk' = pk_randbits pk"
    "pk_bits pk' = pk_bits pk" "\<not> pk_testv pk'"
proof -
  have i: "ipp_ok E" and core: "pk_core E pk" using ok inv by (simp_all add: pk_inv_def)
  note P = pk_coreD [OF core]
  let ?n = "bn_load E (bn_save E (pk_n pk))" and ?hs = "bn_load E (bn_save E (pk_hs pk))"
  have nv: "bn_val E ?n = bn_val E (pk_n pk)" "bn_val E ?hs = bn_val E (pk_hs pk)"
    by (rule load_save [OF i])+
  have len: "\<not> sgn (pk_bits pk) * (\<bar>pk_bits pk\<bar> div 32) \<le> 0"
    using bits by (simp add: not_le pos_imp_zdiv_pos_iff)
  obtain pk1 where pk1: "pk_create E 0 ?n (pk_bits pk) False pk0 w = (Inr pk1, w)" "pk_inv E pk1"
    "bn_val E (pk_n pk1) = bn_val E ?n" "pk_bits pk1 = pk_bits pk" "\<not> pk_enable_DJN pk1" "\<not> pk_testv pk1"
    by (rule pk_create_normal [OF i, of ?n "pk_bits pk" 0 pk0 w]) (use P in \<open>auto simp: nv\<close>)
  show ?thesis
  proof (cases "pk_enable_DJN pk")
    case True
    let ?pk = "pk1\<lparr>pk_enable_DJN := True, pk_hs := bn_assign E ?hs, pk_randbits := pk_randbits pk\<rparr>"
    have "pk_load E (pk_save E pk) pk0 w = (Inr ?pk, w)"
      using len True by (simp add: pk_load_def pk_save_def Let_def pk_create_hs_def bindP_def pk1(1))
    moreover have "djn_params E ?pk"
      using inv True by (simp add: djn_params_def pk_inv_def pk1(3) nv bn_assign_copy copy_val [OF i])
    then have "pk_inv E ?pk" using pk1(2) by (simp add: pk_inv_def pk_core_def)
    ultimately show ?thesis
      using that [of ?pk] pk1 True by (simp add: nv bn_assign_copy copy_val [OF i])
  next
    case False
    have "pk_load E (pk_save E pk) pk0 w = (Inr pk1, w)"
      using len False pk1(1) by (simp add: pk_load_def pk_save_def Let_def)
    then show ?thesis using that [of pk1] pk1 False by (simp add: nv)
  qed
qed

end
