(* ===== verification/CipherText.thy ===== *)
theory CipherText
  imports PubKey
begin

text \<open>
  The class \<open>CipherText\<close> (\<open>src/ipcl/ciphertext.cpp\<close>) and the mixed operators of
  \<open>PlainText\<close>: homomorphic addition of ciphertexts and of a plaintext, multiplication by a
  plaintext, rotation. The lemmas show that they refine addition and multiplication of the
  encrypted numbers (\<open>enc_of\<close> of \<open>NumTheory\<close>); the interface \<open>additive_scheme\<close> states it for
  vectors.
\<close>

section \<open>Construction\<close>

definition with_key :: "('b, 'z) ipp_scheme \<Rightarrow> 'b pubkey \<Rightarrow> 'b base_text \<Rightarrow> 'b ciphertext" where
  "with_key I pk t = base_text.extend t \<lparr>m_pk = PublicKey_copy I pk\<rparr>"

definition CipherText_u32 :: "('b, 'z) ipp_scheme \<Rightarrow> 'b pubkey \<Rightarrow> u32 \<Rightarrow> 'b ciphertext" where
  "CipherText_u32 I pk n = with_key I pk (BaseText_u32 I n)"

definition CipherText_u32s :: "('b, 'z) ipp_scheme \<Rightarrow> 'b pubkey \<Rightarrow> u32 list \<Rightarrow> 'b ciphertext" where
  "CipherText_u32s I pk n_v = with_key I pk (BaseText_u32s I n_v)"

definition CipherText_bn :: "('b, 'z) ipp_scheme \<Rightarrow> 'b pubkey \<Rightarrow> 'b \<Rightarrow> 'b ciphertext" where
  "CipherText_bn I pk bn = with_key I pk (BaseText_bn I bn)"

definition CipherText_copy :: "('b, 'z) ipp_scheme \<Rightarrow> 'b ciphertext \<Rightarrow> 'b ciphertext" where
  "CipherText_copy I ct = base_text.extend (BaseText_copy I ct) \<lparr>m_pk = m_pk ct\<rparr>"

definition CipherText_assign :: "('b, 'z) ipp_scheme \<Rightarrow> bool \<Rightarrow> 'b ciphertext \<Rightarrow> 'b ciphertext \<Rightarrow> 'b ciphertext" where
  "CipherText_assign I same this other = (BaseText_assign I same this other)\<lparr>m_pk := m_pk other\<rparr>"

section \<open>Operators\<close>

definition raw_add :: "('b, 'z) ipp_scheme \<Rightarrow> 'b ciphertext \<Rightarrow> 'b \<Rightarrow> 'b \<Rightarrow> 'b" where
  "raw_add I this a b =
     (let sq = BigNumber_copy I (pk_nsquare (m_pk this)) in bn_mod I (bn_times I a b) sq)"

definition raw_mul :: "('b, 'z) ipcl_scheme \<Rightarrow> 'b ciphertext \<Rightarrow> 'b \<Rightarrow> 'b \<Rightarrow> 'b result" where
  "raw_mul E this a b = modExp_1 E a b (pk_nsquare (m_pk this))"

definition raw_mul_v ::
  "('b, 'r, 'z) env_scheme \<Rightarrow> 'b ciphertext \<Rightarrow> 'b list \<Rightarrow> 'b list \<Rightarrow> ('r world, 'b list) prog" where
  "raw_mul_v E this a b =
     (let v_size = length a; sq = replicate v_size (BigNumber_copy E (pk_nsquare (m_pk this)))
      in bindP (optimal_ratio (Config E) v_size IPCL_HYBRID_MODEXP_RATIO_MULTIPLY) (\<lambda>_.
         modExp E a b sq))"

definition CT_plus_CT :: "('b, 'z) ipp_scheme \<Rightarrow> 'b ciphertext \<Rightarrow> 'b ciphertext \<Rightarrow> 'b ciphertext result" where
  "CT_plus_CT I this other =
     (let b_size = getSize other
      in bindR (errorCheck (m_size this = b_size \<or> b_size = 1) ''CT + CT error: Size mismatch!'') (\<lambda>_.
         bindR (errorCheck (bn_eq I (pk_n (m_pk this)) (pk_n (m_pk other)))
           ''CT + CT error: 2 different public keys detected!'') (\<lambda>_.
         if m_size this = 1 then
           bindR (vec_at (m_texts this) 0) (\<lambda>a. bindR (vec_at (getTexts I other) 0) (\<lambda>b.
           Inr (CipherText_bn I (m_pk this) (raw_add I this a b))))
         else
           bindR (mapR (\<lambda>i. bindR (vec_at (m_texts this) i) (\<lambda>a.
               bindR (vec_at (m_texts other) (if b_size = 1 then 0 else i)) (\<lambda>b.
               Inr (bn_assign I (raw_add I this a b))))) [0..<unat (m_size this)]) (\<lambda>s.
           Inr (CipherText_bns I (m_pk this) s)))))"

definition CT_plus_PT :: "('b, 'r, 'z) env_scheme \<Rightarrow> 'b ciphertext \<Rightarrow> ('b, 'y) base_text_scheme
    \<Rightarrow> ('r world, 'b ciphertext) prog" where
  "CT_plus_PT E this other =
     bindP (encrypt E (m_pk this) other False) (\<lambda>b. liftR (CT_plus_CT E this b))"

definition CT_times_PT :: "('b, 'r, 'z) env_scheme \<Rightarrow> 'b ciphertext \<Rightarrow> ('b, 'y) base_text_scheme
    \<Rightarrow> ('r world, 'b ciphertext) prog" where
  "CT_times_PT E this other =
     (let b_size = getSize other
      in bindP (liftR (errorCheck (m_size this = b_size \<or> b_size = 1) ''CT * PT error: Size mismatch!'')) (\<lambda>_.
         if m_size this = 1 then
           liftR (bindR (vec_at (m_texts this) 0) (\<lambda>a. bindR (vec_at (getTexts E other) 0) (\<lambda>b.
             bindR (raw_mul E this a b) (\<lambda>p. Inr (CipherText_bn E (m_pk this) p)))))
         else
           bindP (if b_size = 1 then
                    bindP (liftR (getElement E other 0)) (\<lambda>b.
                    let b_v = replicate (unat (m_size this)) (BigNumber_copy E b)
                    in raw_mul_v E this (m_texts this) b_v)
                  else raw_mul_v E this (m_texts this) (getTexts E other)) (\<lambda>p.
           retP (CipherText_bns E (m_pk this) p))))"

definition PT_plus_CT :: "('b, 'r, 'z) env_scheme \<Rightarrow> ('b, 'y) base_text_scheme \<Rightarrow> 'b ciphertext
    \<Rightarrow> ('r world, 'b ciphertext) prog" where
  "PT_plus_CT E this other = CT_plus_PT E other this"

definition PT_times_CT :: "('b, 'r, 'z) env_scheme \<Rightarrow> ('b, 'y) base_text_scheme \<Rightarrow> 'b ciphertext
    \<Rightarrow> ('r world, 'b ciphertext) prog" where
  "PT_times_CT E this other = CT_times_PT E other this"

definition getCipherText :: "('b, 'z) ipp_scheme \<Rightarrow> 'b ciphertext \<Rightarrow> u64 \<Rightarrow> 'b ciphertext result" where
  "getCipherText I this idx =
     bindR (errorCheck (idx \<ge> 0 \<and> idx < m_size this) ''CipherText::getCipherText index is out of range'') (\<lambda>_.
     bindR (vec_at (m_texts this) (unat idx)) (\<lambda>b. Inr (CipherText_bn I (m_pk this) b)))"

definition getPubKey :: "'b ciphertext \<Rightarrow> 'b pubkey" where
  "getPubKey this = m_pk this"

text \<open>Here the lower bound is an \<open>int\<close>, the upper bound a \<open>std::size_t\<close>.\<close>

definition CipherText_rotate :: "('b, 'z) ipp_scheme \<Rightarrow> u32 \<Rightarrow> 'b ciphertext \<Rightarrow> 'b ciphertext result" where
  "CipherText_rotate I shift this =
     bindR (errorCheck (m_size this \<noteq> 1) ''rotate: Cannot rotate single CipherText'') (\<lambda>_.
     bindR (errorCheck (sint shift \<ge> sint (- size_to_int (m_size this)) \<and> int_to_size shift \<le> m_size this)
       ''rotate: Cannot shift more than the test size'') (\<lambda>_.
     if shift = 0 \<or> int_to_size shift = m_size this \<or> shift = - size_to_int (m_size this)
     then Inr (CipherText_bns I (m_pk this) (m_texts this))
     else
       let shift = (if sint shift > 0 then size_to_int (m_size this - int_to_size shift) else - shift);
           new_bn = getTexts I this
       in bindR (std_rotate new_bn shift) (\<lambda>new_bn. Inr (CipherText_bns I (m_pk this) new_bn))))"

section \<open>The values of the results\<close>

text \<open>An operand of one element is used for all positions.\<close>

definition stretch :: "nat \<Rightarrow> 'a list \<Rightarrow> 'a list" where
  "stretch k xs = (if length xs = 1 then replicate k (hd xs) else xs)"

lemma stretch_nth:
  assumes "length xs = k \<or> length xs = 1" "i < k"
  shows "length (stretch k xs) = k" "stretch k xs ! i = xs ! (if length xs = 1 then 0 else i)"
  using assms by (cases xs; auto simp: stretch_def)+

lemma stretch_length: "length xs = k \<or> length xs = 1 \<Longrightarrow> length (stretch k xs) = k"
  by (auto simp: stretch_def)

lemma with_key_simps [simp]:
  "m_pk (with_key I pk t) = PublicKey_copy I pk" "m_texts (with_key I pk t) = m_texts t"
  "m_size (with_key I pk t) = m_size t"
  by (simp_all add: with_key_def base_text.extend_def)

lemma with_key_inv [simp]: "text_inv (with_key I pk t) = text_inv t"
  and with_key_vals [simp]: "text_vals I (with_key I pk t) = text_vals I t"
  by (simp_all add: text_inv_def text_vals_def)

lemma CipherText_bns_with_key: "CipherText_bns I pk v = with_key I pk (BaseText_bns I v)"
  by (simp add: CipherText_bns_def with_key_def)

lemma raw_add_val:
  assumes "ipp_ok I" "pk_core I (m_pk t)"
  shows "bn_val I (raw_add I t a b) = bn_val I a * bn_val I b mod (bn_val I (pk_n (m_pk t)))\<^sup>2"
proof -
  have "0 < bn_val I (BigNumber_copy I (pk_nsquare (m_pk t)))"
    using pk_coreD(6) [OF assms(2)] by (simp add: copy_val [OF assms(1)])
  then show ?thesis
    by (simp add: raw_add_def mod_val [OF assms(1)] times_val [OF assms(1)] copy_val [OF assms(1)]
        pk_coreD(3) [OF assms(2)])
qed

lemma text_inv_size: "text_inv t \<Longrightarrow> m_size t = 1 \<longleftrightarrow> length (m_texts t) = 1"
  by (simp add: text_inv_def word_unat_eq_iff)

lemma text_inv_eq: "text_inv s \<Longrightarrow> text_inv t \<Longrightarrow> m_size s = m_size t \<longleftrightarrow> length (m_texts s) = length (m_texts t)"
  by (metis text_inv_def word_unat_eq_iff)

lemma bn_eq_val: "ipp_ok I \<Longrightarrow> 0 < bn_val I a \<Longrightarrow> 0 < bn_val I b \<Longrightarrow> bn_eq I a b \<longleftrightarrow> bn_val I a = bn_val I b"
  by (simp add: comparison_val)

text \<open>The two branches of the addition: one element, and a loop.\<close>

lemma CT_plus_CT_one:
  assumes i: "ipp_ok I" and k: "pk_core I (m_pk a)" and m: "m_size a = 1" "m_texts a = [x]" "m_texts b = [y]"
    and g: "getSize b = 1" "bn_eq I (pk_n (m_pk a)) (pk_n (m_pk b))"
  shows "\<exists>c. CT_plus_CT I a b = Inr c \<and> text_inv c \<and> m_pk c = PublicKey_copy I (m_pk a) \<and>
    text_vals I c = [bn_val I x * bn_val I y mod (bn_val I (pk_n (m_pk a)))\<^sup>2]"
proof -
  let ?c = "CipherText_bn I (m_pk a) (raw_add I a x (BigNumber_copy I y))"
  have "CT_plus_CT I a b = Inr ?c" using g m by (simp add: CT_plus_CT_def Let_def getTexts_def)
  moreover have "text_vals I ?c = [bn_val I x * bn_val I y mod (bn_val I (pk_n (m_pk a)))\<^sup>2]"
    by (simp add: CipherText_bn_def text_vals_simps(3) [OF i] raw_add_val [OF i k] copy_val [OF i])
  ultimately show ?thesis by (simp add: CipherText_bn_def)
qed

lemma CT_plus_CT_many:
  assumes i: "ipp_ok I" and k: "pk_core I (m_pk a)" and ia: "text_inv a" and m: "m_size a \<noteq> 1"
    and g: "m_size a = getSize b \<or> getSize b = 1" "bn_eq I (pk_n (m_pk a)) (pk_n (m_pk b))"
    and one: "getSize b = 1 \<longleftrightarrow> length (m_texts b) = 1"
    and len: "length (m_texts b) = length (m_texts a) \<or> length (m_texts b) = 1"
  shows "\<exists>c. CT_plus_CT I a b = Inr c \<and> text_inv c \<and> m_pk c = PublicKey_copy I (m_pk a) \<and>
    text_vals I c = map2 (\<lambda>x y. x * y mod (bn_val I (pk_n (m_pk a)))\<^sup>2) (text_vals I a)
      (stretch (length (m_texts a)) (text_vals I b))"
proof -
  let ?k = "length (m_texts a)" and ?j = "\<lambda>l. if getSize b = 1 then 0 else l"
  let ?s = "map (\<lambda>l. bn_assign I (raw_add I a (m_texts a ! l) (m_texts b ! ?j l))) [0..<?k]"
  let ?c = "CipherText_bns I (m_pk a) ?s"
  have "mapR (\<lambda>i. bindR (vec_at (m_texts a) i) (\<lambda>x. bindR (vec_at (m_texts b) (?j i)) (\<lambda>y.
      Inr (bn_assign I (raw_add I a x y))))) [0..<?k] = Inr ?s"
    by (rule mapR_ok) (use len one in auto)
  then have "CT_plus_CT I a b = Inr ?c" using g m ia by (simp add: CT_plus_CT_def Let_def text_inv_def)
  moreover have "text_inv ?c" using text_length [OF ia] by (intro CipherText_bns_inv) simp
  moreover have "text_vals I ?c = map2 (\<lambda>x y. x * y mod (bn_val I (pk_n (m_pk a)))\<^sup>2) (text_vals I a)
      (stretch ?k (text_vals I b))"
    using len one by (intro nth_equalityI)
      (auto simp: CipherText_bns_vals [OF i] bn_assign_copy copy_val [OF i] raw_add_val [OF i k]
        stretch_nth stretch_length text_vals_def)
  ultimately show ?thesis by simp
qed

lemma CT_plus_CT_vals:
  assumes i: "ipp_ok I" and ia: "text_inv a" and ib: "text_inv b"
    and ka: "pk_core I (m_pk a)" and kb: "pk_core I (m_pk b)"
    and n: "bn_val I (pk_n (m_pk a)) = bn_val I (pk_n (m_pk b))"
    and len: "length (m_texts b) = length (m_texts a) \<or> length (m_texts b) = 1"
  obtains c where "CT_plus_CT I a b = Inr c" "text_inv c" "m_pk c = PublicKey_copy I (m_pk a)"
    "text_vals I c = map2 (\<lambda>x y. x * y mod (bn_val I (pk_n (m_pk a)))\<^sup>2) (text_vals I a)
       (stretch (length (m_texts a)) (text_vals I b))"
proof -
  have g1: "m_size a = getSize b \<or> getSize b = 1"
    using len text_inv_eq [OF ia ib] text_inv_size [OF ib] by (auto simp: getSize_def)
  have g2: "bn_eq I (pk_n (m_pk a)) (pk_n (m_pk b))"
    using bn_eq_val [OF i] n pk_coreD(1) [OF ka] pk_coreD(1) [OF kb] by simp
  have one: "getSize b = 1 \<longleftrightarrow> length (m_texts b) = 1" using text_inv_size [OF ib] by (simp add: getSize_def)
  show ?thesis
  proof (cases "m_size a = 1")
    case True
    then have k: "length (m_texts a) = 1" "length (m_texts b) = 1" using text_inv_size [OF ia] len by auto
    obtain x where x: "m_texts a = [x]" using k(1) by (cases "m_texts a") auto
    obtain y where y: "m_texts b = [y]" using k(2) by (cases "m_texts b") auto
    have "getSize b = 1" using k(2) one by blast
    from CT_plus_CT_one [OF i ka True x y this g2] show ?thesis
      using that by (auto simp: x y text_vals_def [of I a] text_vals_def [of I b] stretch_def)
  next
    case False
    from CT_plus_CT_many [OF i ka ia False g1 g2 one len] show ?thesis using that by blast
  qed
qed

text \<open>Powers, where the ciphertexts are reduced and the plaintexts are not larger than \<open>n\<^sup>2\<close>.\<close>

lemma raw_mul_v_vals:
  assumes ok: "env_ok E" and k: "pk_core E (m_pk t)" and a: "a \<noteq> []" "length b = length a"
    "\<forall>x \<in> set a. 0 \<le> bn_val E x \<and> bn_val E x < (bn_val E (pk_n (m_pk t)))\<^sup>2"
    "\<forall>x \<in> set b. 0 \<le> bn_val E x \<and> bn_val E x \<le> (bn_val E (pk_n (m_pk t)))\<^sup>2"
  obtains p where "raw_mul_v E t a b w = (Inr p, w)"
    "map (bn_val E) p = map2 (\<lambda>x y. mpow x y ((bn_val E (pk_n (m_pk t)))\<^sup>2)) (map (bn_val E) a) (map (bn_val E) b)"
proof -
  have i: "ipp_ok E" and c: "cpu_ok E" using ok by simp_all
  note P = pk_coreD [OF k]
  let ?sq = "BigNumber_copy E (pk_nsquare (m_pk t))"
  have v: "bn_val E ?sq = (bn_val E (pk_n (m_pk t)))\<^sup>2" by (simp add: copy_val [OF i] P(3))
  have "\<exists>os. fst (modExp E a b (replicate (length a) ?sq) w) = Inr os \<and>
    map (bn_val E) os = map2 (\<lambda>b e. mpow (bn_val E b) (bn_val E e) (bn_val E ?sq)) a b"
    by (rule me.same_modulus [OF c]) (use a P in \<open>simp_all add: copy_val [OF i]\<close>)
  then obtain p where p: "fst (modExp E a b (replicate (length a) ?sq) w) = Inr p"
    "map (bn_val E) p = map2 (\<lambda>b e. mpow (bn_val E b) (bn_val E e) (bn_val E ?sq)) a b" by blast
  have "raw_mul_v E t a b w = (Inr p, w)"
    using c by (simp add: raw_mul_v_def Let_def bindP_def optimal_ratio_cpu modExp_run [OF c p(1)])
  moreover have "map (bn_val E) p =
      map2 (\<lambda>x y. mpow x y ((bn_val E (pk_n (m_pk t)))\<^sup>2)) (map (bn_val E) a) (map (bn_val E) b)"
    unfolding p(2) v by (rule nth_equalityI) simp_all
  ultimately show ?thesis by (rule that)
qed

text \<open>The two branches of the multiplication.\<close>

lemma CT_times_PT_one:
  assumes ok: "env_ok E" and k: "pk_core E (m_pk a)" and m: "m_size a = 1" "m_texts a = [x]" "m_texts b = [y]" "getSize b = 1"
    and r: "0 \<le> bn_val E x" "bn_val E x < (bn_val E (pk_n (m_pk a)))\<^sup>2"
      "0 \<le> bn_val E y" "bn_val E y \<le> (bn_val E (pk_n (m_pk a)))\<^sup>2"
  shows "\<exists>c. CT_times_PT E a b w = (Inr c, w) \<and> text_inv c \<and> m_pk c = PublicKey_copy E (m_pk a) \<and>
    text_vals E c = [mpow (bn_val E x) (bn_val E y) ((bn_val E (pk_n (m_pk a)))\<^sup>2)]"
proof -
  have i: "ipp_ok E" using ok by simp
  note P = pk_coreD [OF k]
  have "lane (bn_val E x) (bn_val E (BigNumber_copy E y)) (bn_val E (pk_nsquare (m_pk a)))"
    using r P(5,6) by (simp add: lane_def copy_val [OF i] P(3))
  then obtain p where p: "modExp_1 E x (BigNumber_copy E y) (pk_nsquare (m_pk a)) = Inr p"
    "bn_val E p = mpow (bn_val E x) (bn_val E (BigNumber_copy E y)) (bn_val E (pk_nsquare (m_pk a)))"
    using modExp_1_ok [of E x "BigNumber_copy E y" "pk_nsquare (m_pk a)"] ok by (metis env_ok_simps(5))
  have "CT_times_PT E a b w = (Inr (CipherText_bn E (m_pk a) p), w)"
    using m p(1) by (simp add: CT_times_PT_def Let_def getTexts_def raw_mul_def bindP_def)
  moreover have "text_vals E (CipherText_bn E (m_pk a) p) = [mpow (bn_val E x) (bn_val E y) ((bn_val E (pk_n (m_pk a)))\<^sup>2)]"
    by (simp add: CipherText_bn_def text_vals_simps(3) [OF i] p(2) copy_val [OF i] P(3))
  ultimately show ?thesis by (simp add: CipherText_bn_def)
qed

lemma CT_times_PT_many:
  assumes ok: "env_ok E" and ia: "text_inv a" and ib: "text_inv b" and k: "pk_core E (m_pk a)" and m: "m_size a \<noteq> 1"
    and g: "m_size a = getSize b \<or> getSize b = 1"
    and len: "m_texts a \<noteq> []" "length (m_texts b) = length (m_texts a) \<or> length (m_texts b) = 1"
    and ra: "\<forall>x \<in> set (m_texts a). 0 \<le> bn_val E x \<and> bn_val E x < (bn_val E (pk_n (m_pk a)))\<^sup>2"
    and rb: "\<forall>x \<in> set (text_vals E b). 0 \<le> x \<and> x \<le> (bn_val E (pk_n (m_pk a)))\<^sup>2"
  shows "\<exists>c. CT_times_PT E a b w = (Inr c, w) \<and> text_inv c \<and> m_pk c = PublicKey_copy E (m_pk a) \<and>
    text_vals E c = map2 (\<lambda>x y. mpow x y ((bn_val E (pk_n (m_pk a)))\<^sup>2)) (text_vals E a)
       (stretch (length (m_texts a)) (text_vals E b))"
proof -
  have i: "ipp_ok E" using ok by simp
  let ?N = "(bn_val E (pk_n (m_pk a)))\<^sup>2" and ?k = "length (m_texts a)"
  have b0: "m_texts b \<noteq> []" using len by auto
  define bs where "bs = (if getSize b = 1 then replicate ?k (BigNumber_copy E (BigNumber_copy E (m_texts b ! 0)))
    else getTexts E b)"
  have one: "getSize b = 1 \<longleftrightarrow> length (m_texts b) = 1" using text_inv_size [OF ib] by (simp add: getSize_def)
  have bl: "length bs = ?k" using len(2) by (auto simp: bs_def one getTexts_def)
  have bv: "map (bn_val E) bs = stretch ?k (text_vals E b)"
    by (cases "m_texts b") (auto simp: bs_def one stretch_def text_vals_def copy_val [OF i] getTexts_def)
  have "set (stretch ?k (text_vals E b)) \<subseteq> set (text_vals E b)"
    using b0 by (cases "m_texts b") (auto simp: stretch_def text_vals_def split: if_splits)
  then have br: "\<forall>x \<in> set bs. 0 \<le> bn_val E x \<and> bn_val E x \<le> ?N"
    using rb arg_cong [OF bv, of set] by auto
  obtain p where p: "raw_mul_v E a (m_texts a) bs w = (Inr p, w)"
    "map (bn_val E) p = map2 (\<lambda>x y. mpow x y ?N) (map (bn_val E) (m_texts a)) (map (bn_val E) bs)"
    by (rule raw_mul_v_vals [OF ok k len(1) bl ra br])
  have "0 < m_size b" using text_pos [OF ib] b0 by simp
  then have "getElement E b 0 = Inr (BigNumber_copy E (m_texts b ! 0))"
    using b0 by (simp add: getElement_def)
  then have "CT_times_PT E a b w = (Inr (CipherText_bns E (m_pk a) p), w)"
    using g m p(1) ia by (auto simp: CT_times_PT_def Let_def bindP_def bs_def text_inv_def)
  moreover have lp: "length p = ?k" using arg_cong [OF p(2), of length] bl by simp
  have "text_inv (CipherText_bns E (m_pk a) p)"
    using text_length [OF ia] by (intro CipherText_bns_inv) (simp add: lp)
  moreover have "text_vals E (CipherText_bns E (m_pk a) p)
      = map2 (\<lambda>x y. mpow x y ?N) (text_vals E a) (stretch ?k (text_vals E b))"
    unfolding CipherText_bns_vals [OF i] p(2) bv by (simp add: text_vals_def)
  ultimately show ?thesis by simp
qed

lemma CT_times_PT_vals:
  assumes ok: "env_ok E" and ia: "text_inv a" and ib: "text_inv b" and k: "pk_core E (m_pk a)"
    and len: "m_texts a \<noteq> []" "length (m_texts b) = length (m_texts a) \<or> length (m_texts b) = 1"
    and ra: "\<forall>x \<in> set (text_vals E a). 0 \<le> x \<and> x < (bn_val E (pk_n (m_pk a)))\<^sup>2"
    and rb: "\<forall>x \<in> set (text_vals E b). 0 \<le> x \<and> x \<le> (bn_val E (pk_n (m_pk a)))\<^sup>2"
  obtains c where "CT_times_PT E a b w = (Inr c, w)" "text_inv c" "m_pk c = PublicKey_copy E (m_pk a)"
    "text_vals E c = map2 (\<lambda>x y. mpow x y ((bn_val E (pk_n (m_pk a)))\<^sup>2)) (text_vals E a)
       (stretch (length (m_texts a)) (text_vals E b))"
proof -
  have g: "m_size a = getSize b \<or> getSize b = 1"
    using len text_inv_eq [OF ia ib] text_inv_size [OF ib] by (auto simp: getSize_def)
  have ra': "\<forall>x \<in> set (m_texts a). 0 \<le> bn_val E x \<and> bn_val E x < (bn_val E (pk_n (m_pk a)))\<^sup>2"
    using ra by (simp add: text_vals_def)
  show ?thesis
  proof (cases "m_size a = 1")
    case True
    then have l: "length (m_texts a) = 1" "length (m_texts b) = 1" using text_inv_size [OF ia] len by auto
    obtain x where x: "m_texts a = [x]" using l(1) by (cases "m_texts a") auto
    obtain y where y: "m_texts b = [y]" using l(2) by (cases "m_texts b") auto
    have s: "getSize b = 1" using text_inv_size [OF ib] l(2) by (simp add: getSize_def)
    from CT_times_PT_one [OF ok k True x y s, of w] ra' rb show ?thesis
      using that by (auto simp: x y text_vals_def [of E a] text_vals_def [of E b] stretch_def)
  next
    case False
    from CT_times_PT_many [OF ok ia ib k False g len ra' rb, of w] show ?thesis using that by blast
  qed
qed

section \<open>Refinement of the encrypted numbers\<close>

text \<open>\<open>ct\<close> encrypts the vector \<open>ms\<close> under its key: the abstraction relation of the class.\<close>

definition ct_n :: "('b, 'z) ipp_scheme \<Rightarrow> 'b ciphertext \<Rightarrow> int" where
  "ct_n I ct = bn_val I (pk_n (m_pk ct))"

definition ct_enc :: "('b, 'z) ipp_scheme \<Rightarrow> 'b ciphertext \<Rightarrow> int list \<Rightarrow> bool" where
  "ct_enc I ct ms \<longleftrightarrow> text_inv ct \<and> pk_inv I (m_pk ct) \<and>
     list_all2 (\<lambda>m c. enc_of (ct_n I ct) m c \<and> 0 \<le> c \<and> c < (ct_n I ct)\<^sup>2) ms (text_vals I ct)"

lemma ct_encD:
  assumes "ct_enc I ct ms"
  shows "text_inv ct" "pk_inv I (m_pk ct)" "pk_core I (m_pk ct)" "length (m_texts ct) = length ms"
    "\<And>i. i < length ms \<Longrightarrow> enc_of (ct_n I ct) (ms ! i) (text_vals I ct ! i)"
    "\<forall>c \<in> set (text_vals I ct). 0 \<le> c \<and> c < (ct_n I ct)\<^sup>2"
proof -
  show "text_inv ct" "pk_inv I (m_pk ct)" and core: "pk_core I (m_pk ct)"
    using assms by (simp_all add: ct_enc_def pk_inv_def)
  have L: "length ms = length (m_texts ct)" and
    all: "\<And>i. i < length ms \<Longrightarrow> enc_of (ct_n I ct) (ms ! i) (text_vals I ct ! i) \<and>
      0 \<le> text_vals I ct ! i \<and> text_vals I ct ! i < (ct_n I ct)\<^sup>2"
    using assms by (simp_all add: ct_enc_def list_all2_conv_all_nth)
  show "length (m_texts ct) = length ms" by (simp add: L)
  show "\<And>i. i < length ms \<Longrightarrow> enc_of (ct_n I ct) (ms ! i) (text_vals I ct ! i)" using all by blast
  show "\<forall>c \<in> set (text_vals I ct). 0 \<le> c \<and> c < (ct_n I ct)\<^sup>2"
    using all L by (metis in_set_conv_nth length_text_vals)
qed

lemma ct_encI:
  assumes "text_inv ct" "pk_inv I (m_pk ct)" "length ms = length (text_vals I ct)"
    "\<And>i. i < length ms \<Longrightarrow> enc_of (ct_n I ct) (ms ! i) (text_vals I ct ! i) \<and>
      0 \<le> text_vals I ct ! i \<and> text_vals I ct ! i < (ct_n I ct)\<^sup>2"
  shows "ct_enc I ct ms"
  using assms by (simp add: ct_enc_def list_all2_conv_all_nth)

text \<open>A result whose elements are computed position by position.\<close>

lemma ct_enc_map2:
  assumes i: "ipp_ok I" and a: "ct_enc I a ms"
    and c: "text_inv c" "m_pk c = PublicKey_copy I (m_pk a)"
    "text_vals I c = map2 f (text_vals I a) ys" and l: "length ys = length ms" "length zs = length ms"
    and f: "\<And>i. i < length ms \<Longrightarrow> enc_of (ct_n I a) (ms ! i) (text_vals I a ! i) \<Longrightarrow>
      enc_of (ct_n I a) (zs ! i) (f (text_vals I a ! i) (ys ! i)) \<and>
      0 \<le> f (text_vals I a ! i) (ys ! i) \<and> f (text_vals I a ! i) (ys ! i) < (ct_n I a)\<^sup>2"
  shows "ct_enc I c zs"
proof (rule ct_encI)
  note D = ct_encD [OF a]
  have n: "ct_n I c = ct_n I a" by (simp add: ct_n_def c(2))
  show "text_inv c" by (rule c)
  show "pk_inv I (m_pk c)" using D(2) by (simp add: c(2) PublicKey_copy_inv [OF i])
  show "length zs = length (text_vals I c)" using l D(4) by (simp add: c(3))
  fix j assume "j < length zs"
  then have j: "j < length ms" by (simp add: l)
  have "text_vals I c ! j = f (text_vals I a ! j) (ys ! j)"
    using j l D(4) by (simp add: c(3))
  then show "enc_of (ct_n I c) (zs ! j) (text_vals I c ! j) \<and> 0 \<le> text_vals I c ! j \<and>
      text_vals I c ! j < (ct_n I c)\<^sup>2"
    using f [OF j D(5) [OF j]] by (simp add: n)
qed

lemma square_pos: "pk_core I pk \<Longrightarrow> 0 < (bn_val I (pk_n pk))\<^sup>2"
  using pk_coreD(1) [of I pk] by simp

lemma CT_plus_CT_enc:
  assumes i: "ipp_ok I" and a: "ct_enc I a ms" and b: "ct_enc I b ms'" and n: "ct_n I a = ct_n I b"
    and len: "length ms' = length ms \<or> length ms' = 1"
  obtains c where "CT_plus_CT I a b = Inr c" "ct_enc I c (map2 (+) ms (stretch (length ms) ms'))"
    "m_pk c = PublicKey_copy I (m_pk a)"
proof -
  note A = ct_encD [OF a] and B = ct_encD [OF b]
  obtain c where c: "CT_plus_CT I a b = Inr c" "text_inv c" "m_pk c = PublicKey_copy I (m_pk a)"
    "text_vals I c = map2 (\<lambda>x y. x * y mod (bn_val I (pk_n (m_pk a)))\<^sup>2) (text_vals I a)
       (stretch (length (m_texts a)) (text_vals I b))"
    by (rule CT_plus_CT_vals [OF i A(1) B(1) A(3) B(3)])
      (use n len A(4) B(4) in \<open>simp_all add: ct_n_def\<close>)
  have "ct_enc I c (map2 (+) ms (stretch (length ms) ms'))"
  proof (rule ct_enc_map2 [OF i a c(2,3,4)])
    show "length (stretch (length (m_texts a)) (text_vals I b)) = length ms"
      using len A(4) B(4) by (simp add: stretch_length)
    show "length (map2 (+) ms (stretch (length ms) ms')) = length ms"
      using len by (simp add: stretch_length)
    fix j assume j: "j < length ms" and e: "enc_of (ct_n I a) (ms ! j) (text_vals I a ! j)"
    let ?l = "if length ms' = 1 then 0 else j"
    have "?l < length ms'" using j len by auto
    then have "enc_of (ct_n I a) (ms' ! ?l) (text_vals I b ! ?l)"
      using B(5) [of ?l] by (simp add: n)
    then have "enc_of (ct_n I a) (ms ! j + ms' ! ?l) (text_vals I a ! j * text_vals I b ! ?l)"
      by (rule enc_of_mult [OF e])
    then show "enc_of (ct_n I a) (map2 (+) ms (stretch (length ms) ms') ! j)
        (text_vals I a ! j * stretch (length (m_texts a)) (text_vals I b) ! j mod (bn_val I (pk_n (m_pk a)))\<^sup>2) \<and>
      0 \<le> text_vals I a ! j * stretch (length (m_texts a)) (text_vals I b) ! j mod (bn_val I (pk_n (m_pk a)))\<^sup>2 \<and>
      text_vals I a ! j * stretch (length (m_texts a)) (text_vals I b) ! j mod (bn_val I (pk_n (m_pk a)))\<^sup>2
        < (ct_n I a)\<^sup>2"
      using j len A(4) B(4) square_pos [OF A(3)]
      by (simp add: stretch_nth stretch_length flip: ct_n_def)
  qed
  then show ?thesis using that c by blast
qed

lemma CT_times_PT_enc:
  assumes ok: "env_ok E" and a: "ct_enc E a ms" and ib: "text_inv b"
    and len: "ms \<noteq> []" "length (text_vals E b) = length ms \<or> length (text_vals E b) = 1"
    and rb: "\<forall>x \<in> set (text_vals E b). 0 \<le> x \<and> x \<le> (ct_n E a)\<^sup>2"
  obtains c where "CT_times_PT E a b w = (Inr c, w)"
    "ct_enc E c (map2 (*) ms (stretch (length ms) (text_vals E b)))"
    "m_pk c = PublicKey_copy E (m_pk a)"
proof -
  have i: "ipp_ok E" using ok by simp
  note A = ct_encD [OF a]
  obtain c where c: "CT_times_PT E a b w = (Inr c, w)" "text_inv c" "m_pk c = PublicKey_copy E (m_pk a)"
    "text_vals E c = map2 (\<lambda>x y. mpow x y ((bn_val E (pk_n (m_pk a)))\<^sup>2)) (text_vals E a)
       (stretch (length (m_texts a)) (text_vals E b))"
    by (rule CT_times_PT_vals [OF ok A(1) ib A(3)]) (use len A(4,6) rb in \<open>auto simp: ct_n_def\<close>)
  have "ct_enc E c (map2 (*) ms (stretch (length ms) (text_vals E b)))"
  proof (rule ct_enc_map2 [OF i a c(2,3,4)])
    show "length (stretch (length (m_texts a)) (text_vals E b)) = length ms"
      using len A(4) by (simp add: stretch_length)
    show "length (map2 (*) ms (stretch (length ms) (text_vals E b))) = length ms"
      using len by (simp add: stretch_length)
    fix j assume j: "j < length ms" and e: "enc_of (ct_n E a) (ms ! j) (text_vals E a ! j)"
    let ?y = "stretch (length ms) (text_vals E b) ! j"
    have "?y \<in> set (text_vals E b)"
      using j len by (auto simp: stretch_nth)
    then have y: "0 \<le> ?y" using rb by blast
    have "enc_of (ct_n E a) (ms ! j * int (nat ?y)) (text_vals E a ! j ^ nat ?y)"
      by (rule enc_of_power [OF e])
    then show "enc_of (ct_n E a) (map2 (*) ms (stretch (length ms) (text_vals E b)) ! j)
        (mpow (text_vals E a ! j) (stretch (length (m_texts a)) (text_vals E b) ! j) ((bn_val E (pk_n (m_pk a)))\<^sup>2)) \<and>
      0 \<le> mpow (text_vals E a ! j) (stretch (length (m_texts a)) (text_vals E b) ! j) ((bn_val E (pk_n (m_pk a)))\<^sup>2) \<and>
      mpow (text_vals E a ! j) (stretch (length (m_texts a)) (text_vals E b) ! j) ((bn_val E (pk_n (m_pk a)))\<^sup>2)
        < (ct_n E a)\<^sup>2"
      using j len A(4) y square_pos [OF A(3)]
      by (simp add: stretch_length mpow_def flip: ct_n_def)
  qed
  then show ?thesis using that c by blast
qed

section \<open>Encryption refines the abstract one\<close>

text \<open>The random number gives a unit: always with DJN, else if it is coprime to \<open>n\<close>.\<close>

definition obf_unit :: "('b, 'z) ipp_scheme \<Rightarrow> 'b pubkey \<Rightarrow> int \<Rightarrow> bool" where
  "obf_unit I pk x \<longleftrightarrow> pk_enable_DJN pk \<or> coprime x (bn_val I (pk_n pk))"

lemma enc_val_enc:
  assumes inv: "pk_inv I pk" and x: "obf_unit I pk x"
  shows "enc_of (bn_val I (pk_n pk)) m (enc_val I pk m x)"
proof -
  let ?n = "bn_val I (pk_n pk)"
  have core: "pk_core I pk" using inv by (simp add: pk_inv_def)
  have "\<exists>r. coprime r ?n \<and> obf_val I pk x mod ?n\<^sup>2 = r ^ nat ?n mod ?n\<^sup>2"
  proof (cases "pk_enable_DJN pk")
    case True
    then obtain h where h: "coprime h ?n" "bn_val I (pk_hs pk) = mpow h ?n (?n\<^sup>2)"
      using inv by (auto simp: pk_inv_def djn_params_def)
    have "(h ^ nat ?n) ^ nat x = (h ^ nat x) ^ nat ?n" by (metis power_mult mult.commute)
    then have "obf_val I pk x mod ?n\<^sup>2 = (h ^ nat x) ^ nat ?n mod ?n\<^sup>2"
      using True by (simp add: obf_val_def h(2) mpow_def pk_coreD(3) [OF core] power_mod)
    moreover have "coprime (h ^ nat x) ?n" using h(1) by simp
    ultimately show ?thesis by blast
  next
    case False
    then show ?thesis
      using x by (auto simp: obf_unit_def obf_val_def mpow_def pk_coreD(3) [OF core])
  qed
  then obtain r where "coprime r ?n" "obf_val I pk x mod ?n\<^sup>2 = r ^ nat ?n mod ?n\<^sup>2" by blast
  then have "enc_of ?n m ((1 + ?n * m) * obf_val I pk x)"
    by (rule enc_of_obfuscate [OF enc_of_trivial])
  then show ?thesis by (simp add: enc_val_def)
qed

lemma encrypt_plain_enc:
  assumes ok: "env_ok E" and inv: "pk_inv E pk" and t: "text_inv pt" "0 < m_size pt"
  obtains ct where "encrypt E pk pt False w = (Inr ct, w)" "ct_enc E ct (text_vals E pt)"
    "m_pk ct = PublicKey_copy E pk"
proof -
  have i: "ipp_ok E" and core: "pk_core E pk" using ok inv by (simp_all add: pk_inv_def)
  obtain ct where ct: "encrypt E pk pt False w = (Inr ct, w)" "text_inv ct" "m_pk ct = PublicKey_copy E pk"
    "text_vals E ct = map (plain_val E pk) (text_vals E pt)"
    by (rule encrypt_plain [OF ok inv t])
  have n: "ct_n E ct = bn_val E (pk_n pk)" by (simp add: ct_n_def ct(3))
  have "ct_enc E ct (text_vals E pt)"
    by (rule ct_encI)
      (use ct(2,4) inv square_pos [OF core] in
        \<open>simp_all add: ct(3) PublicKey_copy_inv [OF i] n plain_val_def enc_of_trivial del: length_text_vals\<close>)
  then show ?thesis using that ct by blast
qed

lemma enc_vals_ct_enc:
  assumes i: "ipp_ok E" and inv: "pk_inv E pk"
    and ct: "text_inv ct" "m_pk ct = PublicKey_copy E pk" "text_vals E ct = map2 (enc_val E pk) ms xs"
    and l: "length xs = length ms" and u: "\<forall>x \<in> set xs. obf_unit E pk x"
  shows "ct_enc E ct ms"
proof (rule ct_encI)
  have core: "pk_core E pk" using inv by (simp add: pk_inv_def)
  have n: "ct_n E ct = bn_val E (pk_n pk)" by (simp add: ct_n_def ct(2))
  show "text_inv ct" by (rule ct)
  show "pk_inv E (m_pk ct)" using inv by (simp add: ct(2) PublicKey_copy_inv [OF i])
  show "length ms = length (text_vals E ct)" by (simp add: ct(3) l del: length_text_vals)
  fix j assume j: "j < length ms"
  have v: "text_vals E ct ! j = enc_val E pk (ms ! j) (xs ! j)" using j l by (simp add: ct(3))
  have "obf_unit E pk (xs ! j)" using u j l by simp
  then show "enc_of (ct_n E ct) (ms ! j) (text_vals E ct ! j) \<and> 0 \<le> text_vals E ct ! j \<and>
      text_vals E ct ! j < (ct_n E ct)\<^sup>2"
    unfolding v n using enc_val_enc [OF inv] square_pos [OF core] by (simp add: enc_val_def)
qed

text \<open>The plaintext operand of an addition is encrypted without obfuscation.\<close>

lemma CT_plus_PT_enc:
  assumes ok: "env_ok E" and a: "ct_enc E a ms" and b: "text_inv b"
    and len: "length (text_vals E b) = length ms \<or> length (text_vals E b) = 1" "text_vals E b \<noteq> []"
  obtains c where "CT_plus_PT E a b w = (Inr c, w)"
    "ct_enc E c (map2 (+) ms (stretch (length ms) (text_vals E b)))"
    "m_pk c = PublicKey_copy E (m_pk a)"
proof -
  have i: "ipp_ok E" using ok by simp
  note A = ct_encD [OF a]
  have b0: "0 < m_size b" using text_pos [OF b] len(2) by (auto simp: text_vals_def)
  obtain b' where b': "encrypt E (m_pk a) b False w = (Inr b', w)" "ct_enc E b' (text_vals E b)"
    "m_pk b' = PublicKey_copy E (m_pk a)"
    by (rule encrypt_plain_enc [OF ok A(2) b b0])
  have n: "ct_n E a = ct_n E b'" by (simp add: ct_n_def b'(3))
  obtain c where "CT_plus_CT E a b' = Inr c" "ct_enc E c (map2 (+) ms (stretch (length ms) (text_vals E b)))"
    "m_pk c = PublicKey_copy E (m_pk a)"
    by (rule CT_plus_CT_enc [OF i a b'(2) n len(1)])
  then show ?thesis using that by (simp add: CT_plus_PT_def bindP_def b'(1))
qed

section \<open>The homomorphic interface\<close>

text \<open>
  What an application computes with: ciphertexts that stand for vectors of numbers, addition
  of two of the same key and length, and multiplication by a plaintext of that length.
\<close>

locale additive_scheme =
  fixes ok :: "'i \<Rightarrow> bool"
    and enc :: "'i \<Rightarrow> 'c \<Rightarrow> int list \<Rightarrow> bool"
    and key :: "'i \<Rightarrow> 'c \<Rightarrow> int"
    and admits :: "'i \<Rightarrow> int \<Rightarrow> 'p \<Rightarrow> int list \<Rightarrow> bool"
    and plus :: "'i \<Rightarrow> 'c \<Rightarrow> 'c \<Rightarrow> 'c result"
    and scale :: "'i \<Rightarrow> 'c \<Rightarrow> 'p \<Rightarrow> 'c result"
  assumes plus_enc: "ok I \<Longrightarrow> enc I a ms \<Longrightarrow> enc I b ms' \<Longrightarrow> key I a = key I b \<Longrightarrow>
      length ms' = length ms \<Longrightarrow>
      \<exists>c. plus I a b = Inr c \<and> enc I c (map2 (+) ms ms') \<and> key I c = key I a"
    and scale_enc: "ok I \<Longrightarrow> enc I a ms \<Longrightarrow> ms \<noteq> [] \<Longrightarrow> admits I (key I a) p ks \<Longrightarrow>
      length ks = length ms \<Longrightarrow>
      \<exists>c. scale I a p = Inr c \<and> enc I c (map2 (*) ms ks) \<and> key I c = key I a"
begin

text \<open>A weighted sum, added to an accumulator.\<close>

fun weighted_sum :: "'i \<Rightarrow> 'c \<Rightarrow> ('c \<times> 'p) list \<Rightarrow> 'c result" where
  "weighted_sum I acc [] = Inr acc"
| "weighted_sum I acc ((c, p) # rest) =
     bindR (scale I c p) (\<lambda>t. bindR (plus I acc t) (\<lambda>acc. weighted_sum I acc rest))"

fun weighted :: "int list \<Rightarrow> (int list \<times> int list) list \<Rightarrow> int list" where
  "weighted acc [] = acc"
| "weighted acc ((ms, ks) # rest) = weighted (map2 (+) acc (map2 (*) ms ks)) rest"

lemma weighted_sum_enc:
  assumes "ok I" "enc I acc ms0" "ms0 \<noteq> []"
    "list_all2 (\<lambda>(c, p) (ms, ks). enc I c ms \<and> key I c = key I acc \<and> admits I (key I acc) p ks \<and>
      length ms = length ms0 \<and> length ks = length ms0) cps mks"
  shows "\<exists>c. weighted_sum I acc cps = Inr c \<and> enc I c (weighted ms0 mks) \<and> key I c = key I acc"
  using assms(2-4)
proof (induction cps arbitrary: acc ms0 mks)
  case Nil
  then show ?case by simp
next
  case (Cons cp cps)
  obtain c p where cp: "cp = (c, p)" by (cases cp)
  obtain ms ks mks' where mks: "mks = (ms, ks) # mks'"
    using Cons.prems(3) by (cases mks) auto
  have h: "enc I c ms" "key I c = key I acc" "admits I (key I acc) p ks" "length ms = length ms0"
    "length ks = length ms0"
    using Cons.prems(3) by (simp_all add: cp mks)
  have "ms \<noteq> []" using h(4) Cons.prems(2) by auto
  then obtain t where t: "scale I c p = Inr t" "enc I t (map2 (*) ms ks)" "key I t = key I c"
    using scale_enc [OF assms(1) h(1), of p ks] h by auto
  obtain s where s: "plus I acc t = Inr s" "enc I s (map2 (+) ms0 (map2 (*) ms ks))" "key I s = key I acc"
    using plus_enc [OF assms(1) Cons.prems(1) t(2)] t(3) h by auto
  have "\<exists>c. weighted_sum I s cps = Inr c \<and> enc I c (weighted (map2 (+) ms0 (map2 (*) ms ks)) mks') \<and>
      key I c = key I s"
    by (rule Cons.IH [OF s(2)]) (use Cons.prems(2,3) h s(3) in \<open>auto simp: mks cp zip_eq_Nil_iff\<close>)
  then show ?case by (simp add: cp mks t(1) s(1,3))
qed

end

definition pt_admits :: "('b, 'z) ipp_scheme \<Rightarrow> int \<Rightarrow> 'b base_text \<Rightarrow> int list \<Rightarrow> bool" where
  "pt_admits I n p ks \<longleftrightarrow> text_inv p \<and> text_vals I p = ks \<and> (\<forall>k \<in> set ks. 0 \<le> k \<and> k \<le> n\<^sup>2)"

interpretation paillier: additive_scheme env_ok ct_enc ct_n pt_admits CT_plus_CT
  "\<lambda>E c p. fst (CT_times_PT E c p w)" for w
proof unfold_locales
  fix E :: "('a, 'b, 'c) env_scheme" and a b ms ms'
  assume h: "env_ok E" "ct_enc E a ms" "ct_enc E b ms'" "ct_n E a = ct_n E b" "length ms' = length ms"
  have i: "ipp_ok E" using h(1) by simp
  have l: "length ms' = length ms \<or> length ms' = 1" using h(5) by simp
  have s: "stretch (length ms) ms' = ms'"
    using h(5) by (cases ms') (auto simp: stretch_def)
  obtain c where "CT_plus_CT E a b = Inr c" "ct_enc E c (map2 (+) ms (stretch (length ms) ms'))"
    "m_pk c = PublicKey_copy E (m_pk a)"
    by (rule CT_plus_CT_enc [OF i h(2,3,4) l])
  then show "\<exists>c. CT_plus_CT E a b = Inr c \<and> ct_enc E c (map2 (+) ms ms') \<and> ct_n E c = ct_n E a"
    by (simp add: s ct_n_def)
next
  fix E :: "('a, 'b, 'c) env_scheme" and a ms p ks
  assume h: "env_ok E" "ct_enc E a ms" "ms \<noteq> []" "pt_admits E (ct_n E a) p ks" "length ks = length ms"
  have p: "text_inv p" "text_vals E p = ks" "\<forall>x \<in> set (text_vals E p). 0 \<le> x \<and> x \<le> (ct_n E a)\<^sup>2"
    using h(4) by (simp_all add: pt_admits_def)
  have l: "length (text_vals E p) = length ms \<or> length (text_vals E p) = 1" using h(5) p(2) by simp
  have s: "stretch (length ms) ks = ks"
    using h(5) by (cases ks) (auto simp: stretch_def)
  obtain c where "CT_times_PT E a p w = (Inr c, w)"
    "ct_enc E c (map2 (*) ms (stretch (length ms) (text_vals E p)))" "m_pk c = PublicKey_copy E (m_pk a)"
    by (rule CT_times_PT_enc [OF h(1,2) p(1) h(3) l p(3)])
  then show "\<exists>c. fst (CT_times_PT E a p w) = Inr c \<and> ct_enc E c (map2 (*) ms ks) \<and> ct_n E c = ct_n E a"
    by (simp add: s p(2) ct_n_def)
qed

section \<open>Rotation\<close>

lemma uint_of_int_64: "uint (word_of_int k :: u64) = k mod 2 ^ 64"
  by (simp add: uint_word_of_int)

lemma sint_of_int_32: "- (2 ^ 31) \<le> k \<Longrightarrow> k < 2 ^ 31 \<Longrightarrow> sint (word_of_int k :: u32) = k"
  unfolding sint_sbintrunc' by (rule signed_take_bit_int_eq_self) simp_all

lemma sint_of_nat_32: "m < 2 ^ 31 \<Longrightarrow> sint (word_of_int (int m) :: u32) = int m"
  "m < 2 ^ 31 \<Longrightarrow> sint (word_of_int (- int m) :: u32) = - int m"
  by (rule sint_of_int_32; simp)+

lemma sint_range_32: "- (2 ^ 31) \<le> sint (s :: u32)" "sint s < 2 ^ 31"
  using sint_range_size [of s] by (simp_all add: word_size)

lemma unat_int_to_size: "0 \<le> sint s \<Longrightarrow> unat (int_to_size s) = nat (sint s)"
proof -
  assume s: "0 \<le> sint s"
  have "sint s mod 2 ^ 64 = sint s"
    by (rule mod_pos_pos_trivial) (use s sint_range_32(2) [of s] in simp_all)
  then have "uint (int_to_size s) = sint s"
    unfolding int_to_size_def uint_of_int_64 .
  then show ?thesis by (metis unat_eq_nat_uint)
qed

lemma sint_size_to_int: "unat n < 2 ^ 31 \<Longrightarrow> sint (size_to_int n) = int (unat n)"
proof -
  assume n: "unat n < 2 ^ 31"
  have "sint (word_of_int (int (unat n)) :: u32) = int (unat n)"
    by (rule sint_of_nat_32 [OF n])
  then show ?thesis unfolding size_to_int_def uint_nat .
qed

lemma sint_minus_size: "unat n < 2 ^ 31 \<Longrightarrow> sint (- size_to_int n) = - int (unat n)"
proof -
  assume n: "unat n < 2 ^ 31"
  have "sint (word_of_int (- int (unat n)) :: u32) = - int (unat n)"
    by (rule sint_of_nat_32 [OF n])
  then show ?thesis unfolding size_to_int_def uint_nat wi_hom_neg .
qed

text \<open>A positive shift moves the last elements to the front.\<close>

lemma CipherText_rotate_pos:
  assumes i: "ipp_ok I" and t: "text_inv ct" and n: "1 < unat (m_size ct)" "unat (m_size ct) < 2 ^ 31"
    and s: "0 < sint shift" "sint shift < int (unat (m_size ct))"
  obtains c where "CipherText_rotate I shift ct = Inr c" "text_inv c" "m_pk c = PublicKey_copy I (m_pk ct)"
    "text_vals I c = rotate (unat (m_size ct) - nat (sint shift)) (text_vals I ct)"
proof -
  let ?k = "unat (m_size ct)" and ?s = "nat (sint shift)"
  have us: "unat (int_to_size shift) = ?s" using s(1) by (intro unat_int_to_size) simp
  have sk: "?s < ?k" using s by linarith
  have le: "int_to_size shift \<le> m_size ct" using sk by (simp add: word_le_nat_alt us)
  have "unat (m_size ct - int_to_size shift) = ?k - ?s" using le by (simp add: unat_sub us)
  then have mid: "sint (size_to_int (m_size ct - int_to_size shift)) = int (?k - ?s)"
    using n(2) by (subst sint_size_to_int) simp_all
  have ms: "sint (size_to_int (m_size ct)) = int ?k" using n(2) by (rule sint_size_to_int)
  have neg: "sint (- size_to_int (m_size ct)) = - int ?k" using n(2) by (rule sint_minus_size)
  have n1: "m_size ct \<noteq> 1" using n(1) by auto
  have g: "sint shift \<ge> sint (- size_to_int (m_size ct)) \<and> int_to_size shift \<le> m_size ct"
    using s le by (simp add: neg)
  have "int_to_size shift \<noteq> m_size ct" using us sk by auto
  moreover have "shift \<noteq> - size_to_int (m_size ct)" using neg s by auto
  ultimately have ne: "\<not> (shift = 0 \<or> int_to_size shift = m_size ct \<or> shift = - size_to_int (m_size ct))"
    using s(1) by auto
  let ?v = "getTexts I ct" and ?m = "size_to_int (m_size ct - int_to_size shift)"
  have len: "length ?v = ?k" using t by (simp add: getTexts_def text_inv_def)
  have rot: "std_rotate ?v ?m = Inr (rotate (?k - ?s) ?v)"
  proof -
    have "?k - ?s < ?k" using s sk by linarith
    then have "(?k - ?s) mod length ?v = ?k - ?s" by (simp add: len)
    then show ?thesis by (simp add: std_rotate_def mid rotate_drop_take len)
  qed
  let ?c = "CipherText_bns I (m_pk ct) (rotate (?k - ?s) ?v)"
  have "CipherText_rotate I shift ct = Inr ?c"
    unfolding CipherText_rotate_def errorCheck_def if_P [OF n1] if_P [OF g] if_not_P [OF ne] if_P [OF s(1)] Let_def
    by (simp add: rot)
  moreover have "text_inv ?c"
    using text_length [OF t] len t by (intro CipherText_bns_inv) (simp add: text_inv_def)
  moreover have "text_vals I ?c = rotate (?k - ?s) (text_vals I ct)"
    unfolding CipherText_bns_vals [OF i] text_vals_simps(6) [OF i, symmetric, of ct]
    by (simp add: rotate_map)
  ultimately show ?thesis using that by simp
qed

text \<open>A negative shift is converted to a large \<open>std::size_t\<close>, and refused.\<close>

lemma CipherText_rotate_neg:
  assumes "m_size ct \<noteq> 1" "m_size ct < 2 ^ 63" "sint shift < 0"
  shows "CipherText_rotate I shift ct = Inl (RuntimeError ''rotate: Cannot shift more than the test size'')"
proof -
  note r = sint_range_32(1) [of shift]
  have "uint (int_to_size shift) = sint shift mod 2 ^ 64"
    unfolding int_to_size_def uint_of_int_64 ..
  also have "\<dots> = (sint shift + 2 ^ 64) mod 2 ^ 64" by simp
  also have "\<dots> = sint shift + 2 ^ 64" by (rule mod_pos_pos_trivial) (use assms(3) r in simp_all)
  finally have u: "uint (int_to_size shift) = sint shift + 2 ^ 64" .
  have "uint (m_size ct) < 2 ^ 63" using assms(2) by (simp add: word_less_def)
  then have "\<not> int_to_size shift \<le> m_size ct" using u r by (simp add: word_le_def)
  then have g: "\<not> (sint shift \<ge> sint (- size_to_int (m_size ct)) \<and> int_to_size shift \<le> m_size ct)" by blast
  show ?thesis
    unfolding CipherText_rotate_def errorCheck_def if_P [OF assms(1)] if_not_P [OF g] by simp
qed

end
