(* ===== verification/PriKey.thy ===== *)
theory PriKey
  imports CipherText
begin

text \<open>
  The class \<open>PrivateKey\<close> (\<open>src/ipcl/pri_key.cpp\<close>, \<open>pri_key.hpp\<close>): the two constructors with
  their precomputed members, decryption with and without the Chinese remainder theorem, and
  the archive. The lemmas show that a key made from valid primes satisfies \<open>sk_inv\<close>, and that
  with such a key both decryptions give the encrypted number modulo \<open>n\<close>.
\<close>

section \<open>State\<close>

record 'b prikey =
  sk_isInitialized :: bool
  sk_enable_crt :: bool
  sk_n :: 'b
  sk_nsquare :: 'b
  sk_g :: 'b
  sk_p :: 'b
  sk_q :: 'b
  sk_pminusone :: 'b
  sk_qminusone :: 'b
  sk_psquare :: 'b
  sk_qsquare :: 'b
  sk_pinverse :: 'b
  sk_hp :: 'b
  sk_hq :: 'b
  sk_lambda :: 'b
  sk_x :: 'b

section \<open>Construction\<close>

definition lcm_BN :: "('b, 'z) ipp_scheme \<Rightarrow> 'b \<Rightarrow> 'b \<Rightarrow> 'b" where
  "lcm_BN I p q =
     (let gcd = BigNumber_copy I p; gcd = Gcd_BN I p q gcd
      in bn_div I (bn_times I p q) gcd)"

definition computeLfun :: "('b, 'z) ipp_scheme \<Rightarrow> 'b \<Rightarrow> 'b \<Rightarrow> 'b" where
  "computeLfun I a b = bn_div I (bn_minus_u I a 1) b"

text \<open>\<open>g\<close> is the member \<open>m_g\<close>, which is set before.\<close>

definition computeHfun :: "('b, 'z) ipcl_scheme \<Rightarrow> 'b \<Rightarrow> 'b \<Rightarrow> 'b \<Rightarrow> 'b result" where
  "computeHfun I g a b =
     (let xm = bn_minus_u I a 1; base = bn_mod I g b
      in bindR (modExp_1 I base xm b) (\<lambda>pm.
         let lcrt = computeLfun I pm a in Inr (bn_InverseMul I a lcrt)))"

text \<open>
  The members computed from \<open>n\<close>, \<open>n\<^sup>2\<close>, \<open>g\<close> and the primes, in the order of the initialisers.
  The archive assigns the same expressions to the members; \<open>st\<close> is how a value gets into its
  member, by construction or by assignment.
\<close>

definition sk_fields :: "('b, 'z) ipcl_scheme \<Rightarrow> ('b \<Rightarrow> 'b) \<Rightarrow> bool \<Rightarrow> 'b \<Rightarrow> 'b \<Rightarrow> 'b \<Rightarrow> 'b \<Rightarrow> 'b
    \<Rightarrow> 'b prikey result" where
  "sk_fields I st init n nsquare g p q =
     (let mp = (if bn_less I q p then BigNumber_copy I q else BigNumber_copy I p);
          mq = (if bn_less I q p then BigNumber_copy I p else BigNumber_copy I q);
          pminusone = st (bn_minus_u I mp 1); qminusone = st (bn_minus_u I mq 1);
          psquare = st (bn_times I mp mp); qsquare = st (bn_times I mq mq);
          pinverse = st (bn_InverseMul I mq mp)
      in bindR (computeHfun I g mp psquare) (\<lambda>hp.
         bindR (computeHfun I g mq qsquare) (\<lambda>hq.
         let lambda = st (lcm_BN I pminusone qminusone)
         in bindR (modExp_1 I g lambda nsquare) (\<lambda>gl.
            let x = bn_InverseMul I n (bn_div I (bn_minus_u I gl 1) n)
            in Inr \<lparr>sk_isInitialized = init, sk_enable_crt = True, sk_n = n, sk_nsquare = nsquare,
                   sk_g = g, sk_p = mp, sk_q = mq, sk_pminusone = pminusone, sk_qminusone = qminusone,
                   sk_psquare = psquare, sk_qsquare = qsquare, sk_pinverse = pinverse,
                   sk_hp = st hp, sk_hq = st hq, sk_lambda = lambda, sk_x = st x\<rparr>))))"

text \<open>The checks of both constructors come after the members are computed.\<close>

definition sk_checks :: "('b, 'z) ipp_scheme \<Rightarrow> 'b prikey \<Rightarrow> 'b prikey result" where
  "sk_checks I sk =
     bindR (errorCheck (bn_eq I (bn_times I (sk_p sk) (sk_q sk)) (sk_n sk))
       ''PrivateKey ctor: Public key does not match p * q.'') (\<lambda>_.
     bindR (errorCheck (bn_neq I (sk_p sk) (sk_q sk)) ''PrivateKey ctor: p and q are same'') (\<lambda>_.
     Inr (sk\<lparr>sk_isInitialized := True\<rparr>)))"

definition PrivateKey_pk :: "('b, 'z) ipcl_scheme \<Rightarrow> 'b pubkey \<Rightarrow> 'b \<Rightarrow> 'b \<Rightarrow> 'b prikey result" where
  "PrivateKey_pk I pk p q =
     bindR (sk_fields I (\<lambda>v. v) False (pk_n pk) (pk_nsquare pk) (pk_g pk) p q) (sk_checks I)"

definition PrivateKey_n :: "('b, 'z) ipcl_scheme \<Rightarrow> 'b \<Rightarrow> 'b \<Rightarrow> 'b \<Rightarrow> 'b prikey result" where
  "PrivateKey_n I n p q =
     (let m_n = BigNumber_copy I n; nsquare = BigNumber_copy I (bn_times I m_n m_n);
          g = BigNumber_copy I (bn_plus_u I m_n 1)
      in bindR (sk_fields I (\<lambda>v. v) False m_n nsquare g p q) (sk_checks I))"

definition enableCRT :: "bool \<Rightarrow> 'b prikey \<Rightarrow> 'b prikey" where
  "enableCRT crt sk = sk\<lparr>sk_enable_crt := crt\<rparr>"

text \<open>The implicit copy constructor: the pointers are shared, the other members copied.\<close>

definition PrivateKey_copy :: "('b, 'z) ipp_scheme \<Rightarrow> 'b prikey \<Rightarrow> 'b prikey" where
  "PrivateKey_copy I sk = sk\<lparr>sk_pminusone := BigNumber_copy I (sk_pminusone sk),
     sk_qminusone := BigNumber_copy I (sk_qminusone sk), sk_psquare := BigNumber_copy I (sk_psquare sk),
     sk_qsquare := BigNumber_copy I (sk_qsquare sk), sk_pinverse := BigNumber_copy I (sk_pinverse sk),
     sk_hp := BigNumber_copy I (sk_hp sk), sk_hq := BigNumber_copy I (sk_hq sk),
     sk_lambda := BigNumber_copy I (sk_lambda sk), sk_x := BigNumber_copy I (sk_x sk)\<rparr>"

section \<open>Decryption\<close>

definition computeCRT :: "('b, 'z) ipp_scheme \<Rightarrow> 'b prikey \<Rightarrow> 'b \<Rightarrow> 'b \<Rightarrow> 'b" where
  "computeCRT I sk mp mq =
     (let u = bn_mod I (bn_times I (bn_minus I mq mp) (sk_pinverse sk)) (sk_q sk)
      in bn_plus I mp (bn_times I u (sk_p sk)))"

definition decryptRAW :: "('b, 'r, 'z) env_scheme \<Rightarrow> 'b prikey \<Rightarrow> nat \<Rightarrow> 'b list \<Rightarrow> ('r world, 'b list) prog" where
  "decryptRAW E sk v_size ciphertext =
     (let pow_lambda = replicate v_size (BigNumber_copy E (sk_lambda sk));
          modulo = replicate v_size (BigNumber_copy E (sk_nsquare sk))
      in bindP (modExp E ciphertext pow_lambda modulo) (\<lambda>res.
         liftR (mapR (\<lambda>i. bindR (vec_at res i) (\<lambda>r.
           let nn = BigNumber_copy E (sk_n sk); xx = BigNumber_copy E (sk_x sk);
               m = bn_times E (bn_div E (bn_minus_u E r 1) nn) xx
           in Inr (bn_assign E (bn_mod E m nn)))) [0..<v_size])))"

definition decryptCRT :: "('b, 'r, 'z) env_scheme \<Rightarrow> 'b prikey \<Rightarrow> nat \<Rightarrow> 'b list \<Rightarrow> ('r world, 'b list) prog" where
  "decryptCRT E sk v_size ciphertext =
     (let pm1 = replicate v_size (BigNumber_copy E (sk_pminusone sk));
          qm1 = replicate v_size (BigNumber_copy E (sk_qminusone sk));
          psq = replicate v_size (BigNumber_copy E (sk_psquare sk));
          qsq = replicate v_size (BigNumber_copy E (sk_qsquare sk))
      in bindP (liftR (mapR (\<lambda>i. bindR (vec_at ciphertext i) (\<lambda>c.
           Inr (bn_assign E (bn_mod E c (psq ! i)), bn_assign E (bn_mod E c (qsq ! i))))) [0..<v_size])) (\<lambda>base.
         bindP (modExp E (map fst base) pm1 psq) (\<lambda>resp.
         bindP (modExp E (map snd base) qm1 qsq) (\<lambda>resq.
         liftR (mapR (\<lambda>i. bindR (vec_at resp i) (\<lambda>rp. bindR (vec_at resq i) (\<lambda>rq.
           let dp = bn_mod E (bn_times E (computeLfun E rp (sk_p sk)) (sk_hp sk)) (sk_p sk);
               dq = bn_mod E (bn_times E (computeLfun E rq (sk_q sk)) (sk_hq sk)) (sk_q sk)
           in Inr (bn_assign E (computeCRT E sk dp dq))))) [0..<v_size])))))"

definition decrypt :: "('b, 'r, 'z) env_scheme \<Rightarrow> 'b prikey \<Rightarrow> 'b ciphertext \<Rightarrow> ('r world, 'b base_text) prog" where
  "decrypt E sk ct =
     bindP (liftR (errorCheck (sk_isInitialized sk) ''decrypt: Private key is NOT initialized.'')) (\<lambda>_.
     bindP (liftR (errorCheck (bn_eq E (pk_n (getPubKey ct)) (sk_n sk))
       ''decrypt: The value of N in public key mismatch.'')) (\<lambda>_.
     let ct_size = getSize ct
     in bindP (liftR (errorCheck (ct_size > 0) ''decrypt: Cannot decrypt empty CipherText'')) (\<lambda>_.
        let ct_bn = getTexts E ct
        in bindP (optimal_ratio (Config E) (unat ct_size) IPCL_HYBRID_MODEXP_RATIO_DECRYPT) (\<lambda>_.
           bindP (if sk_enable_crt sk then decryptCRT E sk (unat ct_size) ct_bn
                  else decryptRAW E sk (unat ct_size) ct_bn) (\<lambda>pt_bn.
           retP (BaseText_bns E pt_bn))))))"

section \<open>The archive\<close>

definition sk_save :: "('b, 'z) ipp_scheme \<Rightarrow> 'b prikey \<Rightarrow> int \<times> bn_archive \<times> bn_archive" where
  "sk_save I sk = (BitSize I (sk_p sk), bn_save I (sk_p sk), bn_save I (sk_q sk))"

text \<open>As for the public key, \<open>load\<close> first allocates numbers of \<open>bits / 32\<close> words.\<close>

definition sk_load :: "('b, 'z) ipcl_scheme \<Rightarrow> int \<times> bn_archive \<times> bn_archive \<Rightarrow> 'b prikey result" where
  "sk_load I ar =
     (let (bits, p_ar, q_ar) = ar; bn_len = sgn bits * (\<bar>bits\<bar> div 32)
      in if bn_len \<le> 0 then Inl (Undefined ''PrivateKey::load: no words'')
         else let p = bn_load I p_ar; q = bn_load I q_ar;
                  m_n = BigNumber_copy I (bn_times I p q);
                  nsquare = BigNumber_copy I (bn_times I m_n m_n);
                  g = BigNumber_copy I (bn_plus_u I m_n 1)
              in sk_fields I (bn_assign I) True m_n nsquare g p q)"

section \<open>Numbers in the precomputed members\<close>

lemma tdiv_pos: "0 \<le> a \<Longrightarrow> 0 < b \<Longrightarrow> tdiv a b = a div b"
  by (cases "a = 0") (simp_all add: tdiv_def)

lemma lcm_BN_val:
  assumes i: "ipp_ok I" and p: "0 < bn_val I a" "0 < bn_val I b"
  shows "bn_val I (lcm_BN I a b) = lcm (bn_val I a) (bn_val I b)"
proof -
  have g: "bn_val I (bn_gcd I a b) = gcd (bn_val I a) (bn_val I b)" by (rule gcd_val [OF i p])
  have "bn_val I (lcm_BN I a b) = tdiv (bn_val I a * bn_val I b) (gcd (bn_val I a) (bn_val I b))"
    unfolding lcm_BN_def Let_def bn_gcd_def [symmetric]
    using p by (simp add: div_val [OF i] times_val [OF i] g)
  also have "\<dots> = lcm (bn_val I a) (bn_val I b)"
    using p by (simp add: tdiv_pos lcm_int_def lcm_nat_def nat_mult_distrib zdiv_int gcd_int_def)
  finally show ?thesis .
qed

text \<open>\<open>L\<close> of a power that is one more than a multiple of \<open>b\<close> modulo \<open>b\<^sup>2\<close>.\<close>

lemma computeLfun_val:
  assumes i: "ipp_ok I" and b: "1 < bn_val I b" and a: "bn_val I a = (1 + bn_val I b * k) mod (bn_val I b)\<^sup>2"
  shows "bn_val I (computeLfun I a b) = k mod bn_val I b"
proof -
  have v: "bn_val I a = 1 + bn_val I b * (k mod bn_val I b)"
    using a one_plus_mod_square [OF b] by simp
  have k: "0 \<le> k mod bn_val I b" using b by simp
  have "bn_val I (computeLfun I a b) = tdiv (bn_val I b * (k mod bn_val I b)) (bn_val I b)"
    using b k by (simp add: computeLfun_def div_val [OF i] minus_u_val [OF i] v)
  also have "\<dots> = k mod bn_val I b" using b k by (simp add: tdiv_pos)
  finally show ?thesis .
qed

text \<open>The factors the two halves of the decryption multiply with.\<close>

definition h_inverse :: "int \<Rightarrow> int \<Rightarrow> int \<Rightarrow> bool" where
  "h_inverse p q h \<longleftrightarrow> (q * (p - 1) mod p * h) mod p = 1 mod p"

lemma valid_pqD:
  assumes "valid_pq p q"
  shows "1 < p" "1 < q" "odd p" "odd q" "coprime p q" "1 < p * q"
proof -
  have pq: "is_prime p" "is_prime q" "p \<noteq> q" "\<not> p dvd q - 1" "\<not> q dvd p - 1"
    using assms by (auto simp: valid_pq_def)
  show p: "1 < p" "1 < q" using is_prime_gt_1 pq by auto
  then show "1 < p * q" by (simp add: less_1_mult)
  show "coprime p q" by (rule distinct_primes_coprime [OF pq(1-3)])
  have two: "a = 2" if "is_prime a" "even a" for a :: int
  proof (rule ccontr)
    assume "a \<noteq> 2"
    then have "2 \<in> {2..<a}" using is_prime_gt_1 [OF that(1)] by simp
    then show False using that by (auto simp: is_prime_def)
  qed
  have odd1: "odd a" if "is_prime a" "is_prime b" "a \<noteq> b" "\<not> a dvd b - 1" for a b :: int
  proof
    assume "even a"
    then have a: "a = 2" using two that(1) by blast
    then have "odd b" using two that(2,3) by blast
    then show False using that(4) a by simp
  qed
  show "odd p" by (rule odd1 [OF pq(1-4)])
  show "odd q" by (rule odd1 [OF pq(2,1)]) (use pq in auto)
qed

lemma computeHfun_ok:
  assumes ok: "ipp_me_ok I" and v: "valid_pq (bn_val I a) q"
    and g: "bn_val I g = bn_val I a * q + 1" and b: "bn_val I b = (bn_val I a)\<^sup>2"
  shows "\<exists>h. computeHfun I g a b = Inr h \<and> h_inverse (bn_val I a) q (bn_val I h)"
proof -
  have i: "ipp_ok I" using ok by (simp add: ipp_me_ok_def)
  let ?p = "bn_val I a"
  note D = valid_pqD [OF v]
  have p2: "1 < ?p\<^sup>2" "?p \<le> ?p\<^sup>2" using D(1) by (simp_all add: power2_eq_square less_1_mult)
  let ?base = "bn_mod I g b" and ?xm = "bn_minus_u I a 1"
  have base: "bn_val I ?base = (1 + ?p * q * 1) mod ?p\<^sup>2"
    using mod_val [OF i, of b g] D(1) by (simp add: b g add.commute)
  have xm: "bn_val I ?xm = ?p - 1" using D(1) by (simp add: minus_u_val [OF i])
  have "lane (bn_val I ?base) (bn_val I ?xm) (bn_val I b)"
    using D p2 by (simp add: lane_def base xm b)
  from modExp_1_ok [OF ok this] obtain pm where pm: "modExp_1 I ?base ?xm b = Inr pm"
    "bn_val I pm = mpow (bn_val I ?base) (bn_val I ?xm) (bn_val I b)" .
  have "bn_val I pm = (1 + ?p * q * 1) ^ nat (?p - 1) mod ?p\<^sup>2"
    by (simp add: pm(2) base xm b mpow_def power_mod)
  also have "\<dots> = (1 + ?p * (q * 1 * (?p - 1))) mod ?p\<^sup>2"
    by (rule decrypt_crt_power [OF v enc_of_trivial])
  finally have l: "bn_val I (computeLfun I pm a) = q * (?p - 1) mod ?p"
    using computeLfun_val [OF i D(1), of pm "q * (?p - 1)"] by simp
  have p: "is_prime ?p" using v by (simp add: valid_pq_def)
  have "\<not> ?p dvd ?p - 1" using D(1) by (auto dest: zdvd_imp_le)
  then have "coprime ?p (?p - 1)" by (rule is_prime_coprime [OF p])
  then have c: "coprime (q * (?p - 1)) ?p" using D(5) by (simp add: coprime_commute)
  then have c': "coprime (q * (?p - 1) mod ?p) ?p" using D(1) by (simp add: coprime_mod_left_iff)
  have "q * (?p - 1) mod ?p \<noteq> 0"
  proof
    assume "q * (?p - 1) mod ?p = 0"
    then show False using c' D(1) by simp
  qed
  moreover have lt: "0 \<le> q * (?p - 1) mod ?p" "q * (?p - 1) mod ?p < ?p" using D(1) by simp_all
  ultimately have "0 < q * (?p - 1) mod ?p" by linarith
  then have "h_inverse ?p q (bn_val I (bn_InverseMul I a (computeLfun I pm a)))"
    unfolding h_inverse_def l [symmetric]
    using InverseMul_val [OF i, of "computeLfun I pm a" a] c' lt(2) by (simp only: l)
  then show ?thesis by (simp add: computeHfun_def pm(1))
qed

section \<open>The invariant\<close>

text \<open>What the members of a key are, in terms of its primes.\<close>

definition sk_vals :: "('b, 'z) ipp_scheme \<Rightarrow> 'b prikey \<Rightarrow> int \<Rightarrow> int \<Rightarrow> bool" where
  "sk_vals I sk p q \<longleftrightarrow>
     bn_val I (sk_p sk) = p \<and> bn_val I (sk_q sk) = q \<and> bn_val I (sk_n sk) = p * q \<and>
     bn_val I (sk_nsquare sk) = (p * q)\<^sup>2 \<and> bn_val I (sk_g sk) = p * q + 1 \<and>
     bn_val I (sk_pminusone sk) = p - 1 \<and> bn_val I (sk_qminusone sk) = q - 1 \<and>
     bn_val I (sk_psquare sk) = p\<^sup>2 \<and> bn_val I (sk_qsquare sk) = q\<^sup>2 \<and>
     p * bn_val I (sk_pinverse sk) mod q = 1 mod q \<and>
     h_inverse p q (bn_val I (sk_hp sk)) \<and> h_inverse q p (bn_val I (sk_hq sk)) \<and>
     bn_val I (sk_lambda sk) = lcm (p - 1) (q - 1) \<and>
     (lcm (p - 1) (q - 1) mod (p * q) * bn_val I (sk_x sk)) mod (p * q) = 1 mod (p * q)"

definition sk_inv :: "('b, 'z) ipp_scheme \<Rightarrow> 'b prikey \<Rightarrow> int \<Rightarrow> int \<Rightarrow> bool" where
  "sk_inv I sk p q \<longleftrightarrow> sk_isInitialized sk \<and> valid_pq p q \<and> p < q \<and> sk_vals I sk p q"

lemma enableCRT_same: "enableCRT (sk_enable_crt sk) sk = sk"
  by (simp add: enableCRT_def)

lemma enableCRT_inv [simp]:
  "sk_inv I (enableCRT b sk) p q = sk_inv I sk p q"
  "sk_n (enableCRT b sk) = sk_n sk" "sk_enable_crt (enableCRT b sk) = b"
  by (simp_all add: enableCRT_def sk_inv_def sk_vals_def)

lemma PrivateKey_copy_inv: "ipp_ok I \<Longrightarrow> sk_inv I (PrivateKey_copy I sk) p q = sk_inv I sk p q"
  by (simp add: sk_inv_def sk_vals_def PrivateKey_copy_def copy_val)

text \<open>The exponent of the decryption without the remainder theorem.\<close>

lemma lcm_bounds:
  assumes v: "valid_pq p q"
  shows "p - 1 dvd lcm (p - 1) (q - 1)" "q - 1 dvd lcm (p - 1) (q - 1)" "0 < lcm (p - 1) (q - 1)"
    "lcm (p - 1) (q - 1) < p * q" "coprime (lcm (p - 1) (q - 1)) (p * q)"
proof -
  note D = valid_pqD [OF v]
  show "p - 1 dvd lcm (p - 1) (q - 1)" "q - 1 dvd lcm (p - 1) (q - 1)" by simp_all
  show pos: "0 < lcm (p - 1) (q - 1)" using D(1,2) by (simp add: lcm_pos_int)
  have dvd: "lcm (p - 1) (q - 1) dvd (p - 1) * (q - 1)" by simp
  have "0 < (p - 1) * (q - 1)" using D(1,2) by simp
  then have "lcm (p - 1) (q - 1) \<le> (p - 1) * (q - 1)" using dvd by (rule zdvd_imp_le [rotated])
  also have "\<dots> < p * q" using D(1,2) by (simp add: algebra_simps)
  finally show "lcm (p - 1) (q - 1) < p * q" .
  show "coprime (lcm (p - 1) (q - 1)) (p * q)"
    using coprime_n_lambda [OF v dvd] by (simp add: coprime_commute)
qed

lemma sk_x_ok:
  assumes ok: "ipp_me_ok I" and v: "valid_pq p q" and n: "bn_val I n = p * q" "bn_val I nsq = (p * q)\<^sup>2"
    "bn_val I g = p * q + 1" and lam: "bn_val I lam = lcm (p - 1) (q - 1)"
  shows "\<exists>gl. modExp_1 I g lam nsq = Inr gl \<and>
    (lcm (p - 1) (q - 1) mod (p * q) * bn_val I (bn_InverseMul I n (bn_div I (bn_minus_u I gl 1) n)))
      mod (p * q) = 1 mod (p * q)"
proof -
  have i: "ipp_ok I" using ok by (simp add: ipp_me_ok_def)
  note D = valid_pqD [OF v] and L = lcm_bounds [OF v]
  let ?n = "p * q" and ?l = "lcm (p - 1) (q - 1)"
  have "?n * 2 \<le> ?n * ?n" by (rule mult_left_mono) (use D(6) in simp_all)
  then have n2: "?n + 1 < ?n\<^sup>2" using D(6) by (simp add: power2_eq_square)
  have "lane (bn_val I g) (bn_val I lam) (bn_val I nsq)"
    using D n2 L(3) by (simp add: lane_def n lam)
  from modExp_1_ok [OF ok this] obtain gl where gl: "modExp_1 I g lam nsq = Inr gl"
    "bn_val I gl = mpow (bn_val I g) (bn_val I lam) (bn_val I nsq)" .
  have "bn_val I gl = (1 + ?n * 1) ^ nat ?l mod ?n\<^sup>2"
    by (simp add: gl(2) n lam mpow_def add.commute)
  also have "\<dots> = (1 + ?n * (1 * ?l)) mod ?n\<^sup>2"
    by (rule decrypt_raw_power [OF v enc_of_trivial]) (use L in simp_all)
  finally have "bn_val I (computeLfun I gl n) = ?l mod ?n"
    using computeLfun_val [OF i, of n gl ?l] D(6) by (simp add: n)
  then have l: "bn_val I (computeLfun I gl n) = ?l" using L(3,4) by simp
  then have "?l * bn_val I (bn_InverseMul I n (computeLfun I gl n)) mod ?n = 1 mod ?n"
    using InverseMul_val [OF i, of "computeLfun I gl n" n] L by (simp add: n)
  then show ?thesis using gl(1) L(3,4) by (simp add: computeLfun_def)
qed

lemma sk_fields_ok:
  assumes ok: "ipp_me_ok I" and st: "\<And>v. bn_val I (st v) = bn_val I v"
    and v: "valid_pq (bn_val I p) (bn_val I q)"
    and n: "bn_val I n = bn_val I p * bn_val I q" "bn_val I nsq = (bn_val I n)\<^sup>2" "bn_val I g = bn_val I n + 1"
  shows "\<exists>sk. sk_fields I st b n nsq g p q = Inr sk \<and> sk_isInitialized sk = b \<and> sk_enable_crt sk \<and>
    sk_n sk = n \<and> sk_vals I sk (min (bn_val I p) (bn_val I q)) (max (bn_val I p) (bn_val I q))"
proof -
  have i: "ipp_ok I" using ok by (simp add: ipp_me_ok_def)
  define mp where "mp = (if bn_less I q p then BigNumber_copy I q else BigNumber_copy I p)"
  define mq where "mq = (if bn_less I q p then BigNumber_copy I p else BigNumber_copy I q)"
  let ?p = "min (bn_val I p) (bn_val I q)" and ?q = "max (bn_val I p) (bn_val I q)"
  have pos: "1 < bn_val I p" "1 < bn_val I q" using valid_pqD [OF v] by simp_all
  have less: "bn_less I q p \<longleftrightarrow> bn_val I q < bn_val I p" using pos by (simp add: comparison_val [OF i])
  have vals: "bn_val I mp = ?p" "bn_val I mq = ?q"
    by (auto simp: mp_def mq_def less copy_val [OF i])
  have v': "valid_pq ?p ?q" using v valid_pq_sym [OF v] by (auto simp: min_def max_def)
  have pq: "bn_val I p * bn_val I q = ?p * ?q" by (simp add: min_def max_def)
  have lt: "?p < ?q" using v by (auto simp: valid_pq_def)
  note D = valid_pqD [OF v']
  let ?pm = "st (bn_minus_u I mp 1)" and ?qm = "st (bn_minus_u I mq 1)"
  have pm: "bn_val I ?pm = ?p - 1" "bn_val I ?qm = ?q - 1"
    using pos by (simp_all add: st minus_u_val [OF i] vals)
  have sq: "bn_val I (st (bn_times I mp mp)) = ?p\<^sup>2" "bn_val I (st (bn_times I mq mq)) = ?q\<^sup>2"
    by (simp_all add: st times_val [OF i] vals power2_eq_square)
  have g: "bn_val I g = ?p * ?q + 1" using n pq by simp
  obtain hp where hp: "computeHfun I g mp (st (bn_times I mp mp)) = Inr hp" "h_inverse ?p ?q (bn_val I hp)"
    using computeHfun_ok [OF ok, of mp ?q g "st (bn_times I mp mp)"] v' g sq by (auto simp: vals)
  obtain hq where hq: "computeHfun I g mq (st (bn_times I mq mq)) = Inr hq" "h_inverse ?q ?p (bn_val I hq)"
    using computeHfun_ok [OF ok, of mq ?p g "st (bn_times I mq mq)"] valid_pq_sym [OF v'] g sq
    by (auto simp: vals mult.commute)
  let ?lam = "st (lcm_BN I ?pm ?qm)"
  have pp: "0 < bn_val I ?pm" "0 < bn_val I ?qm" using pm D(1,2) by linarith+
  have lam: "bn_val I ?lam = lcm (?p - 1) (?q - 1)"
    unfolding st [of "lcm_BN I ?pm ?qm"] lcm_BN_val [OF i pp] pm ..
  have n': "bn_val I n = ?p * ?q" "bn_val I nsq = (?p * ?q)\<^sup>2" using n pq by simp_all
  obtain gl where gl: "modExp_1 I g ?lam nsq = Inr gl"
    "(lcm (?p - 1) (?q - 1) mod (?p * ?q) * bn_val I (bn_InverseMul I n (bn_div I (bn_minus_u I gl 1) n)))
      mod (?p * ?q) = 1 mod (?p * ?q)"
    using sk_x_ok [OF ok v' n' g lam] by blast
  have pinv: "?p * bn_val I (bn_InverseMul I mq mp) mod ?q = 1 mod ?q"
    using InverseMul_val [OF i, of mp mq] D lt by (simp add: vals)
  let ?sk = "\<lparr>sk_isInitialized = b, sk_enable_crt = True, sk_n = n, sk_nsquare = nsq,
    sk_g = g, sk_p = mp, sk_q = mq, sk_pminusone = ?pm, sk_qminusone = ?qm,
    sk_psquare = st (bn_times I mp mp), sk_qsquare = st (bn_times I mq mq),
    sk_pinverse = st (bn_InverseMul I mq mp), sk_hp = st hp, sk_hq = st hq, sk_lambda = ?lam,
    sk_x = st (bn_InverseMul I n (bn_div I (bn_minus_u I gl 1) n))\<rparr>"
  have eq: "sk_fields I st b n nsq g p q = Inr ?sk"
    unfolding sk_fields_def Let_def mp_def [symmetric] mq_def [symmetric] hp(1) hq(1) bindR_Inr gl(1) ..
  have "sk_vals I ?sk ?p ?q"
    unfolding sk_vals_def prikey.simps vals n' g pm sq lam
    using hp(2) hq(2) gl(2) pinv unfolding st by blast
  then show ?thesis unfolding eq by simp
qed

text \<open>Both constructors give such a key when \<open>n = p q\<close> for valid primes, in either order.\<close>

lemma sk_checks_ok:
  assumes i: "ipp_ok I" and v: "valid_pq p q" "p < q" and sk: "sk_vals I sk p q"
  shows "sk_checks I sk = Inr (sk\<lparr>sk_isInitialized := True\<rparr>)"
    "sk_inv I (sk\<lparr>sk_isInitialized := True\<rparr>) p q"
proof -
  note D = valid_pqD [OF v(1)]
  have t: "bn_val I (bn_times I (sk_p sk) (sk_q sk)) = p * q"
    using sk by (simp add: times_val [OF i] sk_vals_def)
  have "bn_eq I (bn_times I (sk_p sk) (sk_q sk)) (sk_n sk)"
    by (subst comparison_val(3) [OF i]) (use sk in \<open>simp_all add: t sk_vals_def\<close>)
  moreover have "bn_neq I (sk_p sk) (sk_q sk)"
    by (subst comparison_val(4) [OF i]) (use sk v(2) D in \<open>simp_all add: sk_vals_def\<close>)
  ultimately show "sk_checks I sk = Inr (sk\<lparr>sk_isInitialized := True\<rparr>)" by (simp add: sk_checks_def)
  show "sk_inv I (sk\<lparr>sk_isInitialized := True\<rparr>) p q" using sk v by (simp add: sk_inv_def sk_vals_def)
qed

lemma sk_built:
  assumes ok: "ipp_me_ok I" and v: "valid_pq (bn_val I p) (bn_val I q)"
    and n: "bn_val I n = bn_val I p * bn_val I q" "bn_val I nsq = (bn_val I n)\<^sup>2" "bn_val I g = bn_val I n + 1"
  shows "\<exists>sk. bindR (sk_fields I (\<lambda>v. v) False n nsq g p q) (sk_checks I) = Inr sk \<and> sk_enable_crt sk \<and>
    sk_n sk = n \<and> sk_inv I sk (min (bn_val I p) (bn_val I q)) (max (bn_val I p) (bn_val I q))"
proof -
  have i: "ipp_ok I" using ok by (simp add: ipp_me_ok_def)
  let ?p = "min (bn_val I p) (bn_val I q)" and ?q = "max (bn_val I p) (bn_val I q)"
  have v': "valid_pq ?p ?q" using v valid_pq_sym [OF v] by (auto simp: min_def max_def)
  have lt: "?p < ?q" using v by (auto simp: valid_pq_def)
  obtain sk where sk: "sk_fields I (\<lambda>v. v) False n nsq g p q = Inr sk" "sk_enable_crt sk" "sk_n sk = n"
    "sk_vals I sk ?p ?q"
    using sk_fields_ok [OF ok _ v n, of "\<lambda>v. v"] by blast
  show ?thesis using sk(2,3) sk_checks_ok [OF i v' lt sk(4)] by (simp add: sk(1))
qed

lemma PrivateKey_pk_ok:
  assumes ok: "ipp_me_ok I" and pk: "pk_core I pk" and v: "valid_pq (bn_val I p) (bn_val I q)"
    and n: "bn_val I (pk_n pk) = bn_val I p * bn_val I q"
  shows "\<exists>sk. PrivateKey_pk I pk p q = Inr sk \<and> sk_enable_crt sk \<and> sk_n sk = pk_n pk \<and>
    sk_inv I sk (min (bn_val I p) (bn_val I q)) (max (bn_val I p) (bn_val I q))"
  unfolding PrivateKey_pk_def
  by (rule sk_built [OF ok v n]) (use pk in \<open>simp_all add: pk_core_def\<close>)

lemma PrivateKey_n_ok:
  assumes ok: "ipp_me_ok I" and v: "valid_pq (bn_val I p) (bn_val I q)"
    and n: "bn_val I n = bn_val I p * bn_val I q"
  shows "\<exists>sk. PrivateKey_n I n p q = Inr sk \<and> sk_enable_crt sk \<and>
    sk_inv I sk (min (bn_val I p) (bn_val I q)) (max (bn_val I p) (bn_val I q))"
proof -
  have i: "ipp_ok I" using ok by (simp add: ipp_me_ok_def)
  let ?n = "BigNumber_copy I n"
  have "\<exists>sk. bindR (sk_fields I (\<lambda>v. v) False ?n (BigNumber_copy I (bn_times I ?n ?n))
      (BigNumber_copy I (bn_plus_u I ?n 1)) p q) (sk_checks I) = Inr sk \<and> sk_enable_crt sk \<and>
    sk_n sk = ?n \<and> sk_inv I sk (min (bn_val I p) (bn_val I q)) (max (bn_val I p) (bn_val I q))"
    by (rule sk_built [OF ok v])
      (use n in \<open>simp_all add: copy_val [OF i] times_val [OF i] plus_u_val [OF i] power2_eq_square\<close>)
  then show ?thesis unfolding PrivateKey_n_def Let_def by blast
qed

section \<open>Constructor errors\<close>

text \<open>
  The members are computed before the primes are checked. For odd numbers larger than one that
  computation raises nothing, so the checks decide.
\<close>

lemma computeHfun_total:
  assumes ok: "ipp_me_ok I" and a: "odd (bn_val I a)" "1 < bn_val I a" and b: "bn_val I b = (bn_val I a)\<^sup>2"
  shows "\<exists>h. computeHfun I g a b = Inr h"
proof -
  have i: "ipp_ok I" using ok by (simp add: ipp_me_ok_def)
  have b1: "1 < bn_val I b" using a(2) by (simp add: b power2_eq_square less_1_mult)
  have "lane (bn_val I (bn_mod I g b)) (bn_val I (bn_minus_u I a 1)) (bn_val I b)"
    unfolding lane_def
  proof (intro conjI)
    have m: "bn_val I (bn_mod I g b) = bn_val I g mod bn_val I b" using b1 by (intro mod_val [OF i]) simp
    show "0 \<le> bn_val I (bn_mod I g b)" "bn_val I (bn_mod I g b) < bn_val I b" unfolding m using b1 by simp_all
    show "0 \<le> bn_val I (bn_minus_u I a 1)" using a(2) by (simp add: minus_u_val [OF i])
    show "odd (bn_val I b)" unfolding b using a(1) by simp
    show "1 < bn_val I b" by (rule b1)
  qed
  then obtain pm where "modExp_1 I (bn_mod I g b) (bn_minus_u I a 1) b = Inr pm"
    by (rule modExp_1_ok [OF ok])
  then show ?thesis by (simp add: computeHfun_def)
qed

lemma sk_fields_total:
  assumes ok: "ipp_me_ok I" and p: "odd (bn_val I p)" "1 < bn_val I p" and q: "odd (bn_val I q)" "1 < bn_val I q"
    and n: "odd (bn_val I nsq)" "0 \<le> bn_val I g" "bn_val I g < bn_val I nsq" "1 < bn_val I nsq"
  shows "\<exists>sk. sk_fields I (\<lambda>v. v) b n nsq g p q = Inr sk \<and> sk_n sk = n \<and>
    bn_val I (sk_p sk) = min (bn_val I p) (bn_val I q) \<and> bn_val I (sk_q sk) = max (bn_val I p) (bn_val I q)"
proof -
  have i: "ipp_ok I" using ok by (simp add: ipp_me_ok_def)
  define mp where "mp = (if bn_less I q p then BigNumber_copy I q else BigNumber_copy I p)"
  define mq where "mq = (if bn_less I q p then BigNumber_copy I p else BigNumber_copy I q)"
  have less: "bn_less I q p \<longleftrightarrow> bn_val I q < bn_val I p" using p q by (simp add: comparison_val [OF i])
  have v: "bn_val I mp = min (bn_val I p) (bn_val I q)" "bn_val I mq = max (bn_val I p) (bn_val I q)"
    by (auto simp: mp_def mq_def less copy_val [OF i])
  have o: "odd (bn_val I mp)" "1 < bn_val I mp" "odd (bn_val I mq)" "1 < bn_val I mq"
    using p q by (simp_all add: v min_def max_def)
  obtain hp where hp: "computeHfun I g mp (bn_times I mp mp) = Inr hp"
    using computeHfun_total [OF ok o(1,2)] times_val [OF i] by (metis power2_eq_square)
  obtain hq where hq: "computeHfun I g mq (bn_times I mq mq) = Inr hq"
    using computeHfun_total [OF ok o(3,4)] times_val [OF i] by (metis power2_eq_square)
  let ?pm = "bn_minus_u I mp 1" and ?qm = "bn_minus_u I mq 1"
  have pm: "bn_val I ?pm = bn_val I mp - 1" "bn_val I ?qm = bn_val I mq - 1"
    using o by (simp_all add: minus_u_val [OF i])
  then have "bn_val I (lcm_BN I ?pm ?qm) = lcm (bn_val I mp - 1) (bn_val I mq - 1)"
    using lcm_BN_val [OF i, of ?pm ?qm] o by simp
  then have "lane (bn_val I g) (bn_val I (lcm_BN I ?pm ?qm)) (bn_val I nsq)"
    using n by (simp add: lane_def)
  then obtain gl where gl: "modExp_1 I g (lcm_BN I ?pm ?qm) nsq = Inr gl"
    by (rule modExp_1_ok [OF ok])
  show ?thesis
    unfolding sk_fields_def Let_def mp_def [symmetric] mq_def [symmetric] hp hq bindR_Inr gl by (simp add: v)
qed

lemma PrivateKey_pk_checks:
  assumes ok: "ipp_me_ok I" and pk: "pk_core I pk" and p: "odd (bn_val I p)" "1 < bn_val I p"
    and q: "odd (bn_val I q)" "1 < bn_val I q"
  shows "bn_val I (pk_n pk) \<noteq> bn_val I p * bn_val I q \<Longrightarrow> PrivateKey_pk I pk p q =
      Inl (RuntimeError ''PrivateKey ctor: Public key does not match p * q.'')"
    and "bn_val I (pk_n pk) = bn_val I p * bn_val I q \<Longrightarrow> bn_val I p = bn_val I q \<Longrightarrow> PrivateKey_pk I pk p q =
      Inl (RuntimeError ''PrivateKey ctor: p and q are same'')"
    and "bn_val I (pk_n pk) = bn_val I p * bn_val I q \<Longrightarrow> bn_val I p \<noteq> bn_val I q \<Longrightarrow>
      \<exists>sk. PrivateKey_pk I pk p q = Inr sk"
proof -
  have i: "ipp_ok I" using ok by (simp add: ipp_me_ok_def)
  note P = pk_coreD [OF pk]
  have g: "bn_val I (pk_g pk) = bn_val I (pk_n pk) + 1" using pk by (simp add: pk_core_def)
  have "bn_val I (pk_n pk) * 2 \<le> bn_val I (pk_n pk) * bn_val I (pk_n pk)"
    by (rule mult_left_mono) (use P(1) in simp_all)
  then have "bn_val I (pk_g pk) < bn_val I (pk_nsquare pk)" using P(1) g unfolding P(3) power2_eq_square by linarith
  then obtain sk where sk: "sk_fields I (\<lambda>v. v) False (pk_n pk) (pk_nsquare pk) (pk_g pk) p q = Inr sk"
    "sk_n sk = pk_n pk" "bn_val I (sk_p sk) = min (bn_val I p) (bn_val I q)"
    "bn_val I (sk_q sk) = max (bn_val I p) (bn_val I q)"
    using sk_fields_total [OF ok p q P(5) _ _ P(6), of "pk_g pk"] P(1) g by auto
  have t: "bn_val I (bn_times I (sk_p sk) (sk_q sk)) = bn_val I p * bn_val I q"
    by (simp add: times_val [OF i] sk(3,4) min_def max_def)
  have "bn_eq I (bn_times I (sk_p sk) (sk_q sk)) (sk_n sk) \<longleftrightarrow> bn_val I p * bn_val I q = bn_val I (pk_n pk)"
    by (subst comparison_val(3) [OF i]) (use p q P(1) in \<open>simp_all add: t sk(2)\<close>)
  moreover have "bn_neq I (sk_p sk) (sk_q sk) \<longleftrightarrow> bn_val I p \<noteq> bn_val I q"
    by (subst comparison_val(4) [OF i]) (use p q in \<open>auto simp: sk(3,4) min_def max_def\<close>)
  ultimately show "bn_val I (pk_n pk) \<noteq> bn_val I p * bn_val I q \<Longrightarrow> PrivateKey_pk I pk p q =
      Inl (RuntimeError ''PrivateKey ctor: Public key does not match p * q.'')"
    "bn_val I (pk_n pk) = bn_val I p * bn_val I q \<Longrightarrow> bn_val I p = bn_val I q \<Longrightarrow> PrivateKey_pk I pk p q =
      Inl (RuntimeError ''PrivateKey ctor: p and q are same'')"
    "bn_val I (pk_n pk) = bn_val I p * bn_val I q \<Longrightarrow> bn_val I p \<noteq> bn_val I q \<Longrightarrow>
      \<exists>sk. PrivateKey_pk I pk p q = Inr sk"
    by (auto simp: PrivateKey_pk_def sk(1) sk_checks_def)
qed

section \<open>Decryption\<close>

text \<open>The elements both decryptions compute.\<close>

lemma raw_element:
  assumes i: "ipp_ok I" and sk: "sk_inv I sk p q" and e: "enc_of (p * q) m c"
    and r: "bn_val I r = mpow c (lcm (p - 1) (q - 1)) ((p * q)\<^sup>2)"
  shows "bn_val I (bn_mod I (bn_times I (bn_div I (bn_minus_u I r 1) (BigNumber_copy I (sk_n sk)))
    (BigNumber_copy I (sk_x sk))) (BigNumber_copy I (sk_n sk))) = m mod (p * q)"
proof -
  have v: "valid_pq p q" and s: "sk_vals I sk p q" using sk by (simp_all add: sk_inv_def)
  note D = valid_pqD [OF v] and L = lcm_bounds [OF v]
  let ?n = "p * q" and ?l = "lcm (p - 1) (q - 1)" and ?N = "BigNumber_copy I (sk_n sk)"
  have N: "bn_val I ?N = ?n" using s by (simp add: copy_val [OF i] sk_vals_def)
  have "bn_val I r = (1 + ?n * (m * ?l)) mod ?n\<^sup>2"
    unfolding r mpow_def by (rule decrypt_raw_power [OF v e]) (use L in simp_all)
  then have l: "bn_val I (computeLfun I r ?N) = m * ?l mod ?n"
    using computeLfun_val [OF i, of ?N r "m * ?l"] D(6) N by simp
  have "bn_val I (bn_mod I (bn_times I (computeLfun I r ?N) (BigNumber_copy I (sk_x sk))) ?N)
      = (m * ?l mod ?n * bn_val I (sk_x sk)) mod ?n"
    using mod_val [OF i, of ?N] D(6) N by (simp add: times_val [OF i] l copy_val [OF i])
  also have "\<dots> = m mod ?n"
    by (rule L_times_inverse) (use s in \<open>simp add: sk_vals_def\<close>)
  finally show ?thesis by (simp add: computeLfun_def)
qed

lemma crt_half:
  assumes i: "ipp_ok I" and v: "valid_pq p q" and e: "enc_of (p * q) m c" and P: "bn_val I P = p"
    and r: "bn_val I r = mpow (c mod p\<^sup>2) (p - 1) (p\<^sup>2)" and h: "h_inverse p q (bn_val I H)"
  shows "bn_val I (bn_mod I (bn_times I (computeLfun I r P) H) P) = m mod p"
proof -
  note D = valid_pqD [OF v]
  have "bn_val I r = c ^ nat (p - 1) mod p\<^sup>2" unfolding r mpow_def by (rule power_mod)
  also have "\<dots> = (1 + p * (q * m * (p - 1))) mod p\<^sup>2" by (rule decrypt_crt_power [OF v e])
  finally have l: "bn_val I (computeLfun I r P) = m * (q * (p - 1)) mod p"
    using computeLfun_val [OF i, of P r "q * m * (p - 1)"] D(1) by (simp add: P algebra_simps)
  have "bn_val I (bn_mod I (bn_times I (computeLfun I r P) H) P)
      = (m * (q * (p - 1)) mod p * bn_val I H) mod p"
    using mod_val [OF i, of P] D(1) by (simp add: P times_val [OF i] l)
  also have "\<dots> = m mod p"
    by (rule L_times_inverse) (use h in \<open>simp add: h_inverse_def\<close>)
  finally show ?thesis .
qed

lemma computeCRT_val:
  assumes i: "ipp_ok I" and sk: "sk_inv I sk p q" and m: "bn_val I mp = m mod p" "bn_val I mq = m mod q"
  shows "bn_val I (computeCRT I sk mp mq) = m mod (p * q)"
proof -
  have v: "valid_pq p q" and s: "sk_vals I sk p q" using sk by (simp_all add: sk_inv_def)
  note D = valid_pqD [OF v]
  have pos: "0 \<le> bn_val I mq * bn_val I mp" using D m by simp
  have "bn_val I (computeCRT I sk mp mq) =
      m mod p + ((m mod q - m mod p) * bn_val I (sk_pinverse sk) mod q) * p"
    using mod_val [OF i, of "sk_q sk"] s D m pos
    by (simp add: computeCRT_def Let_def plus_val [OF i] times_val [OF i] minus_val [OF i] sk_vals_def)
  also have "\<dots> = m mod (p * q)"
    by (rule crt_combine) (use D s in \<open>simp_all add: sk_vals_def\<close>)
  finally show ?thesis .
qed

text \<open>The elements of a vector of ciphertexts.\<close>

definition enc_elems :: "('b, 'z) ipp_scheme \<Rightarrow> int \<Rightarrow> 'b list \<Rightarrow> int list \<Rightarrow> bool" where
  "enc_elems I n cs ms \<longleftrightarrow> cs \<noteq> [] \<and>
     list_all2 (\<lambda>m c. enc_of n m (bn_val I c) \<and> 0 \<le> bn_val I c \<and> bn_val I c < n\<^sup>2) ms cs"

lemma enc_elemsD:
  assumes "enc_elems I n cs ms"
  shows "cs \<noteq> []" "length ms = length cs" "\<And>i. i < length cs \<Longrightarrow> enc_of n (ms ! i) (bn_val I (cs ! i))"
    "\<forall>c \<in> set cs. 0 \<le> bn_val I c \<and> bn_val I c < n\<^sup>2"
  using assms by (auto simp: enc_elems_def list_all2_conv_all_nth all_set_conv_all_nth)

lemma powers_run:
  assumes ok: "env_ok E" and m: "odd (bn_val E m)" "1 < bn_val E m"
    and e: "0 \<le> bn_val E e" "bn_val E e \<le> bn_val E m"
    and b: "bs \<noteq> []" "\<forall>b \<in> set bs. 0 \<le> bn_val E b \<and> bn_val E b < bn_val E m"
  shows "\<exists>rs. modExp E bs (replicate (length bs) (BigNumber_copy E e)) (replicate (length bs) (BigNumber_copy E m)) w
      = (Inr rs, w) \<and> length rs = length bs \<and>
    (\<forall>i < length bs. bn_val E (rs ! i) = mpow (bn_val E (bs ! i)) (bn_val E e) (bn_val E m))"
proof -
  have i: "ipp_ok E" and c: "cpu_ok E" using ok by simp_all
  let ?e = "BigNumber_copy E e" and ?m = "BigNumber_copy E m"
  have "\<exists>rs. fst (modExp E bs (replicate (length bs) ?e) (replicate (length bs) ?m) w) = Inr rs \<and>
    map (bn_val E) rs = map (\<lambda>b. mpow (bn_val E b) (bn_val E ?e) (bn_val E ?m)) bs"
    by (rule me.same_exponent [OF c b(1)]) (use m e b in \<open>simp_all add: copy_val [OF i]\<close>)
  then obtain rs where rs: "fst (modExp E bs (replicate (length bs) ?e) (replicate (length bs) ?m) w) = Inr rs"
    "map (bn_val E) rs = map (\<lambda>b. mpow (bn_val E b) (bn_val E e) (bn_val E m)) bs"
    by (auto simp: copy_val [OF i])
  have "length rs = length bs" using arg_cong [OF rs(2), of length] by simp
  moreover have "bn_val E (rs ! i) = mpow (bn_val E (bs ! i)) (bn_val E e) (bn_val E m)" if "i < length bs" for i
    using arg_cong [OF rs(2), of "\<lambda>l. l ! i"] that calculation by simp
  ultimately show ?thesis using modExp_run [OF c rs(1)] by blast
qed

lemma square_bounds: "1 < (n :: int) \<Longrightarrow> 1 < n\<^sup>2 \<and> n \<le> n\<^sup>2"
  by (simp add: power2_eq_square less_1_mult)

lemma decryptRAW_ok:
  assumes ok: "env_ok E" and sk: "sk_inv E sk p q" and cs: "enc_elems E (p * q) cs ms"
  shows "\<exists>ps. decryptRAW E sk (length cs) cs w = (Inr ps, w) \<and> map (bn_val E) ps = map (\<lambda>m. m mod (p * q)) ms"
proof -
  have i: "ipp_ok E" using ok by simp
  have v: "valid_pq p q" and s: "sk_vals E sk p q" using sk by (simp_all add: sk_inv_def)
  note C = enc_elemsD [OF cs] and D = valid_pqD [OF v] and L = lcm_bounds [OF v]
  let ?n = "p * q" and ?l = "lcm (p - 1) (q - 1)"
  have sv: "bn_val E (sk_nsquare sk) = ?n\<^sup>2" "bn_val E (sk_lambda sk) = ?l" using s by (simp_all add: sk_vals_def)
  have "odd (bn_val E (sk_nsquare sk))" "1 < bn_val E (sk_nsquare sk)" "0 \<le> bn_val E (sk_lambda sk)"
    "bn_val E (sk_lambda sk) \<le> bn_val E (sk_nsquare sk)"
    "\<forall>c \<in> set cs. 0 \<le> bn_val E c \<and> bn_val E c < bn_val E (sk_nsquare sk)"
    unfolding sv using D(3,4) square_bounds [OF D(6)] L(3,4) C(4) by (auto simp del: lcm_ge_0_int) 
  from powers_run [OF ok this(1-4) C(1) this(5), of w]
  obtain rs where rs: "modExp E cs (replicate (length cs) (BigNumber_copy E (sk_lambda sk)))
      (replicate (length cs) (BigNumber_copy E (sk_nsquare sk))) w = (Inr rs, w)" "length rs = length cs"
    "\<forall>j < length cs. bn_val E (rs ! j) = mpow (bn_val E (cs ! j)) ?l (?n\<^sup>2)"
    unfolding sv by blast
  let ?nn = "BigNumber_copy E (sk_n sk)" and ?xx = "BigNumber_copy E (sk_x sk)"
  let ?f = "\<lambda>r. bn_assign E (bn_mod E (bn_times E (bn_div E (bn_minus_u E r 1) ?nn) ?xx) ?nn)"
  have "mapR (\<lambda>j. bindR (vec_at rs j) (\<lambda>r. Inr (?f r))) [0..<length cs] = Inr (map (\<lambda>j. ?f (rs ! j)) [0..<length cs])"
    by (rule mapR_ok) (simp add: rs(2))
  then have "decryptRAW E sk (length cs) cs w = (Inr (map (\<lambda>j. ?f (rs ! j)) [0..<length cs]), w)"
    by (simp add: decryptRAW_def Let_def bindP_def rs(1))
  moreover have "map (bn_val E) (map (\<lambda>j. ?f (rs ! j)) [0..<length cs]) = map (\<lambda>m. m mod ?n) ms"
  proof (rule nth_equalityI)
    show "length (map (bn_val E) (map (\<lambda>j. ?f (rs ! j)) [0..<length cs])) = length (map (\<lambda>m. m mod ?n) ms)"
      by (simp add: C(2))
    fix j assume "j < length (map (bn_val E) (map (\<lambda>j. ?f (rs ! j)) [0..<length cs]))"
    then have j: "j < length cs" by simp
    have "bn_val E (?f (rs ! j)) = ms ! j mod ?n"
      unfolding bn_assign_copy copy_val [OF i]
      by (rule raw_element [OF i sk C(3) [OF j]]) (use rs(3) j in blast)
    then show "map (bn_val E) (map (\<lambda>j. ?f (rs ! j)) [0..<length cs]) ! j = map (\<lambda>m. m mod ?n) ms ! j"
      using j by (simp add: C(2))
  qed
  ultimately show ?thesis by blast
qed

text \<open>One half of the decryption with the remainder theorem: residues and their powers.\<close>

definition residues :: "('b, 'z) ipp_scheme \<Rightarrow> 'b \<Rightarrow> 'b list \<Rightarrow> 'b list" where
  "residues I sq cs = map (\<lambda>j. bn_assign I (bn_mod I (cs ! j) (BigNumber_copy I sq))) [0..<length cs]"

lemma crt_powers:
  assumes ok: "env_ok E" and cs: "cs \<noteq> []" and p: "1 < p" "odd p"
    and sq: "bn_val E sq = p\<^sup>2" and pm: "bn_val E pm = p - 1"
  shows "\<exists>rs. modExp E (residues E sq cs) (replicate (length cs) (BigNumber_copy E pm))
      (replicate (length cs) (BigNumber_copy E sq)) w = (Inr rs, w) \<and> length rs = length cs \<and>
    (\<forall>j < length cs. bn_val E (rs ! j) = mpow (bn_val E (cs ! j) mod p\<^sup>2) (p - 1) (p\<^sup>2))"
proof -
  have i: "ipp_ok E" using ok by simp
  note B = square_bounds [OF p(1)]
  let ?b = "residues E sq cs"
  have len: "length ?b = length cs" by (simp add: residues_def)
  have v: "bn_val E (?b ! j) = bn_val E (cs ! j) mod p\<^sup>2" if "j < length cs" for j
    using that mod_val [OF i, of "BigNumber_copy E sq"] p(1)
    by (simp add: residues_def bn_assign_copy copy_val [OF i] sq)
  have "\<forall>c \<in> set ?b. 0 \<le> bn_val E c \<and> bn_val E c < bn_val E sq" "?b \<noteq> []"
    using p(1) cs by (simp_all add: all_set_conv_all_nth len v sq) (simp add: residues_def)
  moreover have "odd (bn_val E sq)" "1 < bn_val E sq" "0 \<le> bn_val E pm" "bn_val E pm \<le> bn_val E sq"
    unfolding sq pm using p B by simp_all
  ultimately show ?thesis
    using powers_run [OF ok, of sq pm ?b w] unfolding len sq pm by (metis v)
qed

lemma decryptCRT_ok:
  assumes ok: "env_ok E" and sk: "sk_inv E sk p q" and cs: "enc_elems E (p * q) cs ms"
  shows "\<exists>ps. decryptCRT E sk (length cs) cs w = (Inr ps, w) \<and> map (bn_val E) ps = map (\<lambda>m. m mod (p * q)) ms"
proof -
  have i: "ipp_ok E" using ok by simp
  have v: "valid_pq p q" and s: "sk_vals E sk p q" using sk by (simp_all add: sk_inv_def)
  note C = enc_elemsD [OF cs] and D = valid_pqD [OF v] and v' = valid_pq_sym [OF v]
  let ?k = "length cs" and ?n = "p * q"
  have sv: "bn_val E (sk_psquare sk) = p\<^sup>2" "bn_val E (sk_qsquare sk) = q\<^sup>2" "bn_val E (sk_p sk) = p"
    "bn_val E (sk_q sk) = q" "bn_val E (sk_pminusone sk) = p - 1" "bn_val E (sk_qminusone sk) = q - 1"
    "h_inverse p q (bn_val E (sk_hp sk))" "h_inverse q p (bn_val E (sk_hq sk))"
    using s by (simp_all add: sk_vals_def)
  let ?bp = "residues E (sk_psquare sk) cs" and ?bq = "residues E (sk_qsquare sk) cs"
  obtain rp where rp: "modExp E ?bp (replicate ?k (BigNumber_copy E (sk_pminusone sk)))
      (replicate ?k (BigNumber_copy E (sk_psquare sk))) w = (Inr rp, w)" "length rp = ?k"
    "\<forall>j < ?k. bn_val E (rp ! j) = mpow (bn_val E (cs ! j) mod p\<^sup>2) (p - 1) (p\<^sup>2)"
    using crt_powers [OF ok C(1) D(1,3) sv(1,5)] by blast
  obtain rq where rq: "modExp E ?bq (replicate ?k (BigNumber_copy E (sk_qminusone sk)))
      (replicate ?k (BigNumber_copy E (sk_qsquare sk))) w = (Inr rq, w)" "length rq = ?k"
    "\<forall>j < ?k. bn_val E (rq ! j) = mpow (bn_val E (cs ! j) mod q\<^sup>2) (q - 1) (q\<^sup>2)"
    using crt_powers [OF ok C(1) D(2,4) sv(2,6)] by blast
  let ?d = "\<lambda>r P H. bn_mod E (bn_times E (computeLfun E r P) H) P"
  let ?f = "\<lambda>j. bn_assign E (computeCRT E sk (?d (rp ! j) (sk_p sk) (sk_hp sk)) (?d (rq ! j) (sk_q sk) (sk_hq sk)))"
  have base: "mapR (\<lambda>j. bindR (vec_at cs j) (\<lambda>c.
      Inr (bn_assign E (bn_mod E c (replicate ?k (BigNumber_copy E (sk_psquare sk)) ! j)),
           bn_assign E (bn_mod E c (replicate ?k (BigNumber_copy E (sk_qsquare sk)) ! j))))) [0..<?k]
    = Inr (zip ?bp ?bq)"
    unfolding residues_def zip_map_map zip_same_conv_map map_map
    by (rule trans [OF mapR_ok]) (auto)
  have loop: "mapR (\<lambda>j. bindR (vec_at rp j) (\<lambda>a. bindR (vec_at rq j) (\<lambda>b.
      Inr (bn_assign E (computeCRT E sk (?d a (sk_p sk) (sk_hp sk)) (?d b (sk_q sk) (sk_hq sk))))))) [0..<?k]
    = Inr (map ?f [0..<?k])"
    by (rule mapR_ok) (simp add: rp(2) rq(2))
  have len: "length ?bp = ?k" "length ?bq = ?k" by (simp_all add: residues_def)
  have "decryptCRT E sk ?k cs w = (Inr (map ?f [0..<?k]), w)"
    unfolding decryptCRT_def Let_def base using rp(1) rq(1) loop by (simp add: bindP_def len)
  moreover have "map (bn_val E) (map ?f [0..<?k]) = map (\<lambda>m. m mod ?n) ms"
  proof (rule nth_equalityI)
    show "length (map (bn_val E) (map ?f [0..<?k])) = length (map (\<lambda>m. m mod ?n) ms)" by (simp add: C(2))
    fix j assume "j < length (map (bn_val E) (map ?f [0..<?k]))"
    then have j: "j < ?k" by simp
    have e: "enc_of (q * p) (ms ! j) (bn_val E (cs ! j))" using C(3) [OF j] by (simp add: mult.commute)
    have "bn_val E (?d (rp ! j) (sk_p sk) (sk_hp sk)) = ms ! j mod p"
      by (rule crt_half [OF i v C(3) [OF j] sv(3) _ sv(7)]) (use rp(3) j in blast)
    moreover have "bn_val E (?d (rq ! j) (sk_q sk) (sk_hq sk)) = ms ! j mod q"
      by (rule crt_half [OF i v' e sv(4) _ sv(8)]) (use rq(3) j in blast)
    ultimately have "bn_val E (?f j) = ms ! j mod ?n"
      unfolding bn_assign_copy copy_val [OF i] by (rule computeCRT_val [OF i sk])
    then show "map (bn_val E) (map ?f [0..<?k]) ! j = map (\<lambda>m. m mod ?n) ms ! j" using j by (simp add: C(2))
  qed
  ultimately show ?thesis by blast
qed

lemma decrypt_ok:
  assumes ok: "env_ok E" and sk: "sk_inv E sk p q" and ct: "ct_enc E ct ms" "ms \<noteq> []" "ct_n E ct = p * q"
  shows "\<exists>pt. decrypt E sk ct w = (Inr pt, w) \<and> text_inv pt \<and> text_vals E pt = map (\<lambda>m. m mod (p * q)) ms"
proof -
  have i: "ipp_ok E" and c: "cpu_ok E" using ok by simp_all
  note C = ct_encD [OF ct(1)]
  have v: "valid_pq p q" and s: "sk_vals E sk p q" and init: "sk_isInitialized sk"
    using sk by (simp_all add: sk_inv_def)
  note D = valid_pqD [OF v]
  let ?cs = "getTexts E ct" and ?n = "p * q"
  have gv: "map (bn_val E) ?cs = text_vals E ct" by (rule text_vals_simps(6) [OF i])
  have len: "length ?cs = unat (m_size ct)" using C(1) by (simp add: getTexts_def text_inv_def)
  have "length ?cs = length ms" using len C(1,4) by (simp add: text_inv_def)
  moreover have "list_all2 (\<lambda>m c. enc_of ?n m c \<and> 0 \<le> c \<and> c < ?n\<^sup>2) ms (map (bn_val E) ?cs)"
    using ct(1,3) unfolding ct_enc_def gv by simp
  ultimately have cs: "enc_elems E ?n ?cs ms"
    using ct(2) by (auto simp: enc_elems_def list.rel_map)
  have "m_texts ct \<noteq> []" using C(4) ct(2) by auto
  then have k: "0 < m_size ct" using text_pos [OF C(1)] by simp
  have n: "bn_eq E (pk_n (m_pk ct)) (sk_n sk)"
    using ct(3) s D(6) by (subst comparison_val(3) [OF i]) (simp_all add: ct_n_def sk_vals_def)
  have "\<exists>ps. (if sk_enable_crt sk then decryptCRT E sk (length ?cs) ?cs else decryptRAW E sk (length ?cs) ?cs) w
      = (Inr ps, w) \<and> map (bn_val E) ps = map (\<lambda>m. m mod ?n) ms"
    using decryptCRT_ok [OF ok sk cs] decryptRAW_ok [OF ok sk cs] by simp
  then obtain ps where ps: "(if sk_enable_crt sk then decryptCRT E sk (length ?cs) ?cs
      else decryptRAW E sk (length ?cs) ?cs) w = (Inr ps, w)" "map (bn_val E) ps = map (\<lambda>m. m mod ?n) ms"
    by blast
  have "decrypt E sk ct w = (Inr (BaseText_bns E ps), w)"
    using init n k c ps(1) unfolding len
    by (simp add: decrypt_def getPubKey_def getSize_def bindP_def optimal_ratio_cpu Let_def split del: if_split)
  moreover have "length ps = length ms" using arg_cong [OF ps(2), of length] by simp
  then have "text_inv (BaseText_bns E ps)" using text_length [OF C(1)] C(4) by simp
  moreover have "text_vals E (BaseText_bns E ps) = map (\<lambda>m. m mod ?n) ms"
    by (simp add: text_vals_simps [OF i] ps(2))
  ultimately show ?thesis by blast
qed

lemma decrypt_errors:
  "\<not> sk_isInitialized sk \<Longrightarrow>
    decrypt E sk ct w = (Inl (RuntimeError ''decrypt: Private key is NOT initialized.''), w)"
  "sk_isInitialized sk \<Longrightarrow> \<not> bn_eq E (pk_n (m_pk ct)) (sk_n sk) \<Longrightarrow>
    decrypt E sk ct w = (Inl (RuntimeError ''decrypt: The value of N in public key mismatch.''), w)"
  "sk_isInitialized sk \<Longrightarrow> bn_eq E (pk_n (m_pk ct)) (sk_n sk) \<Longrightarrow> m_size ct = 0 \<Longrightarrow>
    decrypt E sk ct w = (Inl (RuntimeError ''decrypt: Cannot decrypt empty CipherText''), w)"
  by (simp_all add: decrypt_def getPubKey_def getSize_def)

section \<open>Encryption and decryption\<close>

lemma text_vals_ne: "text_inv t \<Longrightarrow> 0 < m_size t \<Longrightarrow> text_vals I t \<noteq> []"
  by (simp add: text_pos text_vals_def)

lemma map2_stretch_ne:
  assumes "length ys = length xs \<or> length ys = 1" "xs \<noteq> []"
  shows "map2 f xs (stretch (length xs) ys) \<noteq> []"
proof -
  have "length (map2 f xs (stretch (length xs) ys)) = length xs"
    using stretch_length [OF assms(1)] by simp
  then show ?thesis using assms(2) by (metis length_0_conv)
qed

lemma encrypt_secure_run:
  assumes run: "encrypt E pk pt True w = (Inr ct, w')" and cpu: "\<not> use_qat (Config E)"
  shows "\<exists>os. obfuscator E pk (length (m_texts pt)) w = (Inr os, w') \<and> pk_isInitialized pk \<and> 0 < m_size pt"
proof -
  have init: "pk_isInitialized pk" and sz: "0 < m_size pt"
    using run encrypt_errors [where pk = pk and pt = pt and w = w and E = E]
    by (metis Inl_Inr_False prod.inject, metis Inl_Inr_False prod.inject word_neq_0_conv)
  have "\<exists>F. raw_encrypt E pk ts True = bindP (obfuscator E pk (length ts)) (\<lambda>os. liftR (F os))" for ts
    unfolding raw_encrypt_def applyObfuscator_def obfuscator_def Let_def by (simp only: length_map simp_thms if_True, rule exI, rule refl)
  then obtain F where r: "raw_encrypt E pk (getTexts E pt) True
      = bindP (obfuscator E pk (length (getTexts E pt))) (\<lambda>os. liftR (F os))" by blast
  obtain cs where cs: "raw_encrypt E pk (getTexts E pt) True w = (Inr cs, w')"
    using run init sz cpu
    by (auto simp: encrypt_def getSize_def bindP_def optimal_ratio_cpu Let_def split: prod.splits sum.splits)
  obtain os where "obfuscator E pk (length (getTexts E pt)) w = (Inr os, w')"
    using cs unfolding r by (auto simp: liftR_def elim!: bindP_InrE)
  then show ?thesis using init sz by (simp add: getTexts_def)
qed

text \<open>
  A secure encryption that succeeds has drawn a number for every text; the ciphertext
  encrypts the plaintext if they give units, which they always do with DJN.
\<close>

lemma encrypt_secure_enc:
  assumes ok: "env_ok E" and inv: "pk_inv E pk" and t: "text_inv pt" "\<not> pk_testv pk"
    and run: "encrypt E pk pt True w = (Inr ct, w')"
  shows "same_but_rng w w' \<and> m_pk ct = PublicKey_copy E pk \<and>
    (\<exists>xs. length xs = length (m_texts pt) \<and> (\<forall>x \<in> set xs. draw_range E pk x) \<and>
      ((\<forall>x \<in> set xs. obf_unit E pk x) \<longrightarrow> ct_enc E ct (text_vals E pt)))"
proof -
  have i: "ipp_ok E" using ok by simp
  obtain os where os: "obfuscator E pk (length (m_texts pt)) w = (Inr os, w')" and sz: "0 < m_size pt"
    using encrypt_secure_run [OF run] ok by (metis cpu_ok_simps(3) env_ok_simps(1))
  have l: "0 < length (m_texts pt)" using sz t(1) by (simp add: text_pos)
  note R = obfuscator_random [OF ok inv t(2) l os]
  obtain xs where xs: "length xs = length (m_texts pt)" "\<forall>x \<in> set xs. draw_range E pk x"
    "map (bn_val E) os = map (obf_val E pk) xs" using R(2) by blast
  obtain ct' where ct': "encrypt E pk pt True w = (Inr ct', w')" "text_inv ct'" "m_pk ct' = PublicKey_copy E pk"
    "text_vals E ct' = map2 (enc_val E pk) (text_vals E pt) xs"
    by (rule encrypt_secure_os [OF ok inv t(1) sz os xs(3,1)])
  have e: "ct' = ct" using ct'(1) run by simp
  have "ct_enc E ct (text_vals E pt)" if "\<forall>x \<in> set xs. obf_unit E pk x"
  proof (rule enc_vals_ct_enc [OF i inv _ _ _ _ that])
    show "text_inv ct" "m_pk ct = PublicKey_copy E pk" "text_vals E ct = map2 (enc_val E pk) (text_vals E pt) xs"
      using ct'(2-4) e by simp_all
    show "length xs = length (text_vals E pt)" using xs(1) by simp
  qed
  then show ?thesis using R(1) xs(1,2) ct'(3) e by blast
qed

section \<open>Archive\<close>

lemma sk_load_save:
  assumes ok: "ipp_me_ok I" and sk: "sk_inv I sk p q" and bits: "2 ^ 31 \<le> p"
  shows "\<exists>sk'. sk_load I (sk_save I sk) = Inr sk' \<and> sk_inv I sk' p q \<and> sk_enable_crt sk'"
proof -
  have i: "ipp_ok I" using ok by (simp add: ipp_me_ok_def)
  have v: "valid_pq p q" "p < q" and s: "bn_val I (sk_p sk) = p" "bn_val I (sk_q sk) = q"
    using sk by (simp_all add: sk_inv_def sk_vals_def)
  let ?p = "bn_load I (bn_save I (sk_p sk))" and ?q = "bn_load I (bn_save I (sk_q sk))"
  have pv: "bn_val I ?p = p" "bn_val I ?q = q" using s by (simp_all add: load_save [OF i])
  have "32 \<le> BitSize I (sk_p sk)"
  proof (rule ccontr)
    assume "\<not> 32 \<le> BitSize I (sk_p sk)"
    then have "nat (BitSize I (sk_p sk)) \<le> 31" by simp
    then have "(2::int) ^ nat (BitSize I (sk_p sk)) \<le> 2 ^ 31" by (rule power_increasing) simp
    moreover have "p < 2 ^ nat (BitSize I (sk_p sk))"
      using BitSize_val [OF i, of "sk_p sk"] bits s(1) abs_bn_val [of I "sk_p sk"]
        nat_bits_upper [of "bn_mag I (sk_p sk)"] by (simp flip: of_nat_less_iff)
    ultimately show False using bits by linarith
  qed
  then have len: "\<not> sgn (BitSize I (sk_p sk)) * (\<bar>BitSize I (sk_p sk)\<bar> div 32) \<le> 0"
    by (simp add: not_le pos_imp_zdiv_pos_iff)
  let ?n = "BigNumber_copy I (bn_times I ?p ?q)"
  have "\<exists>sk'. sk_fields I (bn_assign I) True ?n (BigNumber_copy I (bn_times I ?n ?n))
      (BigNumber_copy I (bn_plus_u I ?n 1)) ?p ?q = Inr sk' \<and> sk_isInitialized sk' = True \<and> sk_enable_crt sk' \<and>
      sk_n sk' = ?n \<and> sk_vals I sk' (min (bn_val I ?p) (bn_val I ?q)) (max (bn_val I ?p) (bn_val I ?q))"
    by (rule sk_fields_ok [OF ok])
      (use v in \<open>simp_all add: bn_assign_copy copy_val [OF i] times_val [OF i] plus_u_val [OF i] pv power2_eq_square\<close>)
  then show ?thesis
    using v len by (simp add: sk_load_def sk_save_def Let_def pv sk_inv_def min_def max_def split: if_splits) auto
qed

end
