(* ===== verification/KeyGen.thy ===== *)
theory KeyGen
  imports PriKey
begin

text \<open>
  Key generation, \<open>src/ipcl/keygen.cpp\<close>: the prime generator with its retry loop, the two
  loops that look for a pair of primes, and \<open>generateKeypair\<close>. Every loop that draws has fuel
  for its iterations; the lemmas show what a pair that is accepted satisfies, and that the
  loops end when the generator delivers.
\<close>

section \<open>Primes\<close>

definition N_BIT_SIZE_MAX :: int where
  "N_BIT_SIZE_MAX = 2048"

definition N_BIT_SIZE_MIN :: int where
  "N_BIT_SIZE_MIN = 200"

text \<open>The parameter of the generator: nothing, or with the software generator a seeded state.\<close>

definition rand_param :: "('b, 'r, 'z) env_scheme \<Rightarrow> int \<Rightarrow> 'r \<Rightarrow> u8 list \<times> 'r" where
  "rand_param E prime_size r =
     (if kRNGenType (Config E) = PSEUDO then
        let buff = replicate (nat prime_size) 0; prng = PRNGInit E (int seed_size) buff;
            (seed, r) = rand32u E seed_size r;
            seed_bn = BigNumber_data E (Some seed) (int seed_size) IppsBigNumPOS
        in (PRNGSetSeed E seed_bn prng, r)
      else ([], r))"

text \<open>The loop of \<open>getPrimeBN\<close>: the generator is called until it reports success.\<close>

fun prime_loop :: "('b, 'r, 'z) env_scheme \<Rightarrow> int \<Rightarrow> nat \<Rightarrow> 'b \<Rightarrow> u8 list \<times> 'r \<Rightarrow> 'b result \<times> 'r" where
  "prime_loop E max_bits 0 x s = (Inl OutOfFuel, snd s)"
| "prime_loop E max_bits (Suc fuel) x s =
     (let ((stat, x), s) = PrimeGen_BN E x max_bits 10 (ippGenRandom E) s
      in if stat \<noteq> ippStsNoErr then prime_loop E max_bits fuel x s else (Inr x, snd s))"

definition getPrimeBN :: "('b, 'r, 'z) env_scheme \<Rightarrow> nat \<Rightarrow> int \<Rightarrow> ('r world, 'b) prog" where
  "getPrimeBN E fuel max_bits w =
     (let prime_size = PrimeGetSize E max_bits;
          s = rand_param E prime_size (rng w);
          prime_bn = BigNumber_data E None (max_bits div 8) IppsBigNumPOS;
          (res, r) = prime_loop E max_bits fuel prime_bn s
      in (res, w\<lparr>rng := r\<rparr>))"

definition getPrimeDistance :: "('b, 'z) ipp_scheme \<Rightarrow> int \<Rightarrow> 'b" where
  "getPrimeDistance I key_size =
     (let count = word_of_int (key_size div 2 - 100) :: u64;
          ct32 = count div 32; res = count AND 31;
          tmp = (replicate (unat (ct32 + 1)) 0)[unat ct32 := push_bit (unat res) (1 :: u32)]
      in BigNumber_data I (Some tmp) (int (length tmp)) IppsBigNumPOS)"

definition isClosePrimeBN :: "('b, 'z) ipp_scheme \<Rightarrow> 'b \<Rightarrow> 'b \<Rightarrow> 'b \<Rightarrow> bool" where
  "isClosePrimeBN I p q ref_dist =
     (let real_dist = (if bn_ge I p q then bn_minus I p q else bn_minus I q p)
      in if bn_greater I real_dist ref_dist then False else True)"

section \<open>Pairs of primes\<close>

text \<open>\<open>while (q == p)\<close> of \<open>getNormalBN\<close>.\<close>

fun other_prime :: "('b, 'r, 'z) env_scheme \<Rightarrow> nat \<Rightarrow> int \<Rightarrow> 'b \<Rightarrow> nat \<Rightarrow> 'b \<Rightarrow> ('r world, 'b) prog" where
  "other_prime E fuel bits p 0 q = (if bn_eq E q p then liftR (Inl OutOfFuel) else retP q)"
| "other_prime E fuel bits p (Suc k) q =
     (if bn_eq E q p then bindP (getPrimeBN E fuel bits) (\<lambda>x. other_prime E fuel bits p k (bn_assign E x))
      else retP q)"

fun normal_loop :: "('b, 'r, 'z) env_scheme \<Rightarrow> nat \<Rightarrow> int \<Rightarrow> 'b \<Rightarrow> nat \<Rightarrow> int \<Rightarrow> 'b \<Rightarrow> 'b \<Rightarrow> 'b
    \<Rightarrow> ('r world, 'b \<times> 'b \<times> 'b) prog" where
  "normal_loop E fuel n_length ref_dist 0 len p q n =
     (if len \<noteq> n_length \<or> isClosePrimeBN E p q ref_dist then liftR (Inl OutOfFuel) else retP (p, q, n))"
| "normal_loop E fuel n_length ref_dist (Suc k) len p q n =
     (if len \<noteq> n_length \<or> isClosePrimeBN E p q ref_dist then
        bindP (getPrimeBN E fuel (n_length div 2)) (\<lambda>x.
        let p = bn_assign E x; q = bn_assign E p
        in bindP (other_prime E fuel (n_length div 2) p fuel q) (\<lambda>q.
           let n = bn_assign E (bn_times E p q)
           in normal_loop E fuel n_length ref_dist k (BitSize E n) p q n))
      else retP (p, q, n))"

definition getNormalBN :: "('b, 'r, 'z) env_scheme \<Rightarrow> nat \<Rightarrow> int \<Rightarrow> 'b \<Rightarrow> ('r world, 'b \<times> 'b \<times> 'b) prog" where
  "getNormalBN E fuel n_length ref_dist =
     (let zero = BigNumber_u32 E 0 in normal_loop E fuel n_length ref_dist fuel 0 zero zero zero)"

text \<open>\<open>do p = ... while (!p.TestBit(1))\<close>, and the loop for \<open>q\<close>, which tests \<open>p\<close> again.\<close>

fun djn_p :: "('b, 'r, 'z) env_scheme \<Rightarrow> nat \<Rightarrow> int \<Rightarrow> nat \<Rightarrow> ('r world, 'b) prog" where
  "djn_p E fuel bits 0 = liftR (Inl OutOfFuel)"
| "djn_p E fuel bits (Suc k) =
     bindP (getPrimeBN E fuel bits) (\<lambda>x.
     let p = bn_assign E x
     in bindP (liftR (TestBit E p 1)) (\<lambda>b. if \<not> b then djn_p E fuel bits k else retP p))"

fun djn_q :: "('b, 'r, 'z) env_scheme \<Rightarrow> nat \<Rightarrow> int \<Rightarrow> 'b \<Rightarrow> nat \<Rightarrow> ('r world, 'b) prog" where
  "djn_q E fuel bits p 0 = liftR (Inl OutOfFuel)"
| "djn_q E fuel bits p (Suc k) =
     bindP (getPrimeBN E fuel bits) (\<lambda>x.
     let q = bn_assign E x
     in if bn_eq E q p then djn_q E fuel bits p k
        else bindP (liftR (TestBit E p 1)) (\<lambda>b. if \<not> b then djn_q E fuel bits p k else retP q))"

fun djn_loop :: "('b, 'r, 'z) env_scheme \<Rightarrow> nat \<Rightarrow> int \<Rightarrow> 'b \<Rightarrow> nat \<Rightarrow> ('r world, 'b \<times> 'b \<times> 'b) prog" where
  "djn_loop E fuel n_length ref_dist 0 = liftR (Inl OutOfFuel)"
| "djn_loop E fuel n_length ref_dist (Suc k) =
     bindP (djn_p E fuel (n_length div 2) fuel) (\<lambda>p.
     bindP (djn_q E fuel (n_length div 2) p fuel) (\<lambda>q.
     let gcd = bn_assign E (bn_gcd E (bn_minus_u E p 1) (bn_minus_u E q 1));
         n = bn_assign E (bn_times E p q)
     in if bn_compare E gcd (BigNumber_s32 E 2) \<noteq> 0 \<or> BitSize E n \<noteq> n_length \<or> isClosePrimeBN E p q ref_dist
        then djn_loop E fuel n_length ref_dist k else retP (p, q, n)))"

definition getDJNBN :: "('b, 'r, 'z) env_scheme \<Rightarrow> nat \<Rightarrow> int \<Rightarrow> 'b \<Rightarrow> ('r world, 'b \<times> 'b \<times> 'b) prog" where
  "getDJNBN E fuel n_length ref_dist = djn_loop E fuel n_length ref_dist fuel"

section \<open>Key pairs\<close>

definition generateKeypair ::
  "('b, 'r, 'z) env_scheme \<Rightarrow> nat \<Rightarrow> int \<Rightarrow> bool \<Rightarrow> ('r world, 'b pubkey \<times> 'b prikey) prog" where
  "generateKeypair E fuel n_length enable_DJN =
     bindP (liftR (errorCheck (n_length \<le> N_BIT_SIZE_MAX)
       ''generateKeyPair: modulus size in bits should belong to either 1Kb, 2Kb, 3Kb or 4Kb range only, key size exceed the range!!!'')) (\<lambda>_.
     bindP (liftR (errorCheck (n_length \<ge> N_BIT_SIZE_MIN \<and> n_length mod 4 = 0)
       ''generateKeyPair: key size should >=200, and divisible by 4'')) (\<lambda>_.
     let ref_dist = getPrimeDistance E n_length
     in bindP (if enable_DJN then getDJNBN E fuel n_length ref_dist else getNormalBN E fuel n_length ref_dist) (\<lambda>(p, q, n).
        bindP (PublicKey_new E fuel n n_length enable_DJN) (\<lambda>pk.
        bindP (liftR (PrivateKey_pk E pk p q)) (\<lambda>sk.
        retP (PublicKey_copy E pk, PrivateKey_copy E sk))))))"

section \<open>What the generator returns\<close>

text \<open>
  The documented behaviour of \<open>ippsPrimeGen_BN\<close>: a number it reports as generated has exactly
  the bits asked for and is odd. That it is prime is the probabilistic part; where a result
  needs it, it says so.
\<close>

definition prime_ok :: "('b, 'r, 'z) env_scheme \<Rightarrow> bool" where
  "prime_ok E \<longleftrightarrow> (\<forall>x bits s stat y s'. 2 \<le> bits \<and> bits \<le> 32 * Room E x \<and>
     PrimeGen_BN E x bits 10 (ippGenRandom E) s = ((stat, y), s') \<longrightarrow>
     Room E y = Room E x \<and>
     (stat = ippStsNoErr \<longrightarrow> 2 ^ nat (bits - 1) < bn_val E y \<and> bn_val E y < 2 ^ nat bits \<and> odd (bn_val E y)))"

definition prime_sized :: "int \<Rightarrow> int \<Rightarrow> bool" where
  "prime_sized bits v \<longleftrightarrow> 2 ^ nat (bits - 1) < v \<and> v < 2 ^ nat bits \<and> odd v"

lemma prime_sized_gt_1: "prime_sized bits v \<Longrightarrow> 1 < v"
  unfolding prime_sized_def by (meson le_less_trans one_le_power one_le_numeral)

lemma prime_loop_ok:
  assumes ok: "prime_ok E" and b: "2 \<le> bits"
  shows "prime_loop E bits fuel x s = (Inr y, r) \<Longrightarrow> bits \<le> 32 * Room E x \<Longrightarrow> prime_sized bits (bn_val E y)"
proof (induction fuel arbitrary: x s)
  case (Suc fuel)
  obtain stat z s' where g: "PrimeGen_BN E x bits 10 (ippGenRandom E) s = ((stat, z), s')"
    by (metis prod.collapse)
  have c: "Room E z = Room E x" "stat = ippStsNoErr \<Longrightarrow> prime_sized bits (bn_val E z)"
    using ok b g Suc.prems(2) unfolding prime_ok_def prime_sized_def by blast+
  show ?case
  proof (cases "stat = ippStsNoErr")
    case True
    then show ?thesis using Suc.prems(1) c(2) by (simp add: g)
  next
    case False
    then have "prime_loop E bits fuel z s' = (Inr y, r)" using Suc.prems(1) by (simp add: g)
    then show ?thesis by (rule Suc.IH) (use Suc.prems(2) c(1) in simp)
  qed
qed simp

lemma prime_room:
  assumes "ipp_ok E" "8 \<le> bits"
  shows "bits \<le> 32 * Room E (BigNumber_data E None (bits div 8) IppsBigNumPOS)"
proof -
  have "bits div 8 \<le> Room E (BigNumber_data E None (bits div 8) IppsBigNumPOS)"
    by (rule room_BigNumber_room) (use assms in simp_all)
  moreover have "1 \<le> bits div 8" using assms(2) by linarith
  ultimately show ?thesis by linarith
qed

lemma getPrimeBN_ok:
  assumes ok: "ipp_ok E" "prime_ok E" and b: "8 \<le> bits" and run: "getPrimeBN E fuel bits w = (Inr y, w')"
  shows "same_but_rng w w'" "prime_sized bits (bn_val E y)"
proof -
  obtain r where p: "prime_loop E bits fuel (BigNumber_data E None (bits div 8) IppsBigNumPOS)
      (rand_param E (PrimeGetSize E bits) (rng w)) = (Inr y, r)" and w': "w' = w\<lparr>rng := r\<rparr>"
    using run unfolding getPrimeBN_def Let_def by (cases "prime_loop E bits fuel
      (BigNumber_data E None (bits div 8) IppsBigNumPOS) (rand_param E (PrimeGetSize E bits) (rng w))") simp
  show "same_but_rng w w'" unfolding same_but_rng_def by (rule exI) (rule w')
  show "prime_sized bits (bn_val E y)"
    by (rule prime_loop_ok [OF ok(2) _ p prime_room [OF ok(1) b]]) (use b in simp)
qed

text \<open>The loop ends when the generator succeeds: after \<open>k\<close> failures, fuel \<open>k + 1\<close> is enough.\<close>

fun prime_failures :: "('b, 'r, 'z) env_scheme \<Rightarrow> int \<Rightarrow> nat \<Rightarrow> 'b \<Rightarrow> u8 list \<times> 'r \<Rightarrow> bool" where
  "prime_failures E bits 0 x s \<longleftrightarrow> fst (fst (PrimeGen_BN E x bits 10 (ippGenRandom E) s)) = ippStsNoErr"
| "prime_failures E bits (Suc k) x s \<longleftrightarrow>
     (case PrimeGen_BN E x bits 10 (ippGenRandom E) s of
        ((stat, x), s) \<Rightarrow> stat \<noteq> ippStsNoErr \<and> prime_failures E bits k x s)"

lemma prime_loop_terminates:
  "prime_failures E bits k x s \<Longrightarrow> k < fuel \<Longrightarrow> \<exists>y r. prime_loop E bits fuel x s = (Inr y, r)"
proof (induction k arbitrary: x s fuel)
  case 0
  then show ?case by (cases fuel) (auto split: prod.splits)
next
  case (Suc k)
  then obtain f where f: "fuel = Suc f" by (cases fuel) auto
  obtain stat z s' where g: "PrimeGen_BN E x bits 10 (ippGenRandom E) s = ((stat, z), s')"
    by (metis prod.collapse)
  have "prime_failures E bits k z s'" "stat \<noteq> ippStsNoErr" using Suc.prems(1) by (simp_all add: g)
  then show ?case using Suc.IH [of z s' f] Suc.prems(2) by (simp add: f g)
qed

lemma getPrimeBN_terminates:
  assumes "prime_failures E bits k (BigNumber_data E None (bits div 8) IppsBigNumPOS)
      (rand_param E (PrimeGetSize E bits) (rng w))" "k < fuel"
  shows "\<exists>y w'. getPrimeBN E fuel bits w = (Inr y, w')"
  using prime_loop_terminates [OF assms] unfolding getPrimeBN_def Let_def by auto

section \<open>The distance\<close>

text \<open>The words of the distance: one bit set, at the position of the count.\<close>

lemma distance_words:
  fixes c :: u64
  assumes c: "unat c < 2 ^ 31"
  defines "tmp \<equiv> (replicate (unat (c div 32 + 1)) 0)[unat (c div 32) := push_bit (unat (c AND 31)) (1 :: u32)]"
  shows "words_val tmp = 2 ^ unat c" "length tmp = unat c div 32 + 1"
proof -
  let ?r = "unat c mod 32" and ?q = "unat c div 32"
  have q: "unat (c div 32) = ?q" by (simp add: unat_div)
  have "c AND 31 = take_bit 5 c" by (simp add: take_bit_eq_mask mask_eq_exp_minus_1)
  then have r: "unat (c AND 31) = ?r" by (simp add: unsigned_take_bit_eq take_bit_eq_mod unat_mod)
  have "?q + 1 < 2 ^ 64" using c by simp
  then have q1: "unat (c div 32 + 1) = ?q + 1" using q by (subst unat_add_lem [THEN iffD1]) simp_all
  have t: "(replicate (m + 1) 0)[m := x] = replicate m 0 @ [x]" for m and x :: u32
    by (induction m) simp_all
  have "(2::nat) ^ ?r < 2 ^ 32" by (rule power_strict_increasing) simp_all
  then have "unat (of_nat (2 ^ ?r) :: u32) = 2 ^ ?r" by (intro of_nat_inverse [OF refl]) simp
  moreover have "of_nat (2 ^ ?r) = (2 :: u32) ^ ?r" by simp
  ultimately have p: "unat ((2 :: u32) ^ ?r) = 2 ^ ?r" by (simp only:)
  have tmp: "tmp = replicate ?q 0 @ [push_bit ?r 1]" unfolding tmp_def q q1 r by (rule t)
  have "words_val tmp = 2 ^ (32 * ?q) * 2 ^ ?r" by (simp add: tmp words_val_append p)
  also have "\<dots> = 2 ^ (32 * ?q + ?r)" by (rule power_add [symmetric])
  also have "32 * ?q + ?r = unat c" by simp
  finally show "words_val tmp = 2 ^ unat c" .
  show "length tmp = ?q + 1" by (simp add: tmp)
qed

lemma getPrimeDistance_val:
  assumes ok: "ipp_ok I" and k: "200 \<le> key_size" "key_size < 2 ^ 31"
  shows "bn_val I (getPrimeDistance I key_size) = 2 ^ nat (key_size div 2 - 100)"
proof -
  define c where "c = (word_of_int (key_size div 2 - 100) :: u64)"
  have b: "0 \<le> key_size div 2 - 100" "key_size div 2 - 100 < 2 ^ 31" using k by linarith+
  have "(key_size div 2 - 100) mod 2 ^ 64 = key_size div 2 - 100"
    by (rule mod_pos_pos_trivial) (use b in simp_all)
  then have "uint c = key_size div 2 - 100" unfolding c_def uint_of_int_64 .
  then have u: "unat c = nat (key_size div 2 - 100)" by (metis unat_eq_nat_uint)
  then have c31: "unat c < 2 ^ 31" using b by (simp add: nat_less_iff)
  define t where "t = (replicate (unat (c div 32 + 1)) 0)[unat (c div 32) := push_bit (unat (c AND 31)) (1 :: u32)]"
  have W: "words_val t = 2 ^ unat c" "length t = unat c div 32 + 1"
    unfolding t_def by (rule distance_words [OF c31])+
  show ?thesis
    unfolding getPrimeDistance_def Let_def BigNumber_data_def c_def [symmetric] t_def [symmetric]
    by (subst create_Some(1) [OF ok]) (simp_all only: nat_int take_all order_refl W u, simp_all)
qed

lemma isClosePrimeBN_val:
  assumes ok: "ipp_ok I" and v: "0 \<le> bn_val I p" "0 \<le> bn_val I q" "0 \<le> bn_val I d"
  shows "isClosePrimeBN I p q d \<longleftrightarrow> \<bar>bn_val I p - bn_val I q\<bar> \<le> bn_val I d"
proof -
  have ge: "bn_ge I p q \<longleftrightarrow> bn_val I q \<le> bn_val I p"
    using comparison_val [OF ok, of p q] v by simp
  let ?r = "if bn_ge I p q then bn_minus I p q else bn_minus I q p"
  have r: "bn_val I ?r = \<bar>bn_val I p - bn_val I q\<bar>" using v by (simp add: ge minus_val [OF ok])
  have "bn_greater I ?r d \<longleftrightarrow> bn_val I d < bn_val I ?r"
    by (rule comparison_val(2) [OF ok]) (use v r in simp)
  then show ?thesis unfolding isClosePrimeBN_def Let_def r by auto
qed

section \<open>The pairs that are accepted\<close>

text \<open>What both loops make sure of: the size of the modulus and the distance of the primes.\<close>

definition accepted :: "('b, 'z) ipp_scheme \<Rightarrow> int \<Rightarrow> 'b \<times> 'b \<times> 'b \<Rightarrow> bool" where
  "accepted I n_length pqn \<longleftrightarrow> (case pqn of (p, q, n) \<Rightarrow>
     prime_sized (n_length div 2) (bn_val I p) \<and> prime_sized (n_length div 2) (bn_val I q) \<and>
     bn_val I n = bn_val I p * bn_val I q \<and> BitSize I n = n_length \<and>
     2 ^ nat (n_length div 2 - 100) < \<bar>bn_val I p - bn_val I q\<bar>)"

lemma acceptedI:
  assumes ok: "ipp_ok E" and len: "200 \<le> n_length" "n_length < 2 ^ 31"
    and s: "prime_sized (n_length div 2) (bn_val E p)" "prime_sized (n_length div 2) (bn_val E q)"
    and n: "bn_val E n = bn_val E p * bn_val E q" "BitSize E n = n_length"
    and c: "\<not> isClosePrimeBN E p q (getPrimeDistance E n_length)"
  shows "accepted E n_length (p, q, n)"
proof -
  have "0 \<le> bn_val E p" "0 \<le> bn_val E q" using s [THEN prime_sized_gt_1] by simp_all
  then have "2 ^ nat (n_length div 2 - 100) < \<bar>bn_val E p - bn_val E q\<bar>"
    using c isClosePrimeBN_val [OF ok, of p q "getPrimeDistance E n_length"]
    by (simp add: getPrimeDistance_val [OF ok len])
  then show ?thesis using s n by (simp add: accepted_def)
qed

lemma other_prime_ok:
  assumes ok: "ipp_ok E" "prime_ok E" and b: "8 \<le> bits"
  shows "other_prime E fuel bits p k q w = (Inr q', w') \<Longrightarrow> prime_sized bits (bn_val E q) \<Longrightarrow>
    same_but_rng w w' \<and> prime_sized bits (bn_val E q')"
proof (induction k arbitrary: q w)
  case 0
  then show ?case using rs.same_refl by (auto split: if_splits)
next
  case (Suc k)
  show ?case
  proof (cases "bn_eq E q p")
    case True
    obtain x w1 where x: "getPrimeBN E fuel bits w = (Inr x, w1)"
      "other_prime E fuel bits p k (bn_assign E x) w1 = (Inr q', w')"
      using Suc.prems(1) True by (auto elim!: bindP_InrE)
    note P = getPrimeBN_ok [OF ok b x(1)]
    have "same_but_rng w1 w' \<and> prime_sized bits (bn_val E q')"
      by (rule Suc.IH [OF x(2)]) (simp add: P(2) bn_assign_copy copy_val [OF ok(1)])
    then show ?thesis using rs.same_trans [OF P(1)] by blast
  next
    case False
    then show ?thesis using Suc.prems rs.same_refl by auto
  qed
qed

definition normal_inv :: "('b, 'z) ipp_scheme \<Rightarrow> int \<Rightarrow> int \<Rightarrow> 'b \<Rightarrow> 'b \<Rightarrow> 'b \<Rightarrow> bool" where
  "normal_inv I n_length len p q n \<longleftrightarrow> (len = n_length \<longrightarrow>
     prime_sized (n_length div 2) (bn_val I p) \<and> prime_sized (n_length div 2) (bn_val I q) \<and>
     bn_val I n = bn_val I p * bn_val I q \<and> BitSize I n = len)"

lemma normal_loop_ok:
  assumes ok: "ipp_ok E" "prime_ok E" and len: "200 \<le> n_length" "n_length < 2 ^ 31"
  shows "normal_loop E fuel n_length (getPrimeDistance E n_length) k l p q n w = (Inr pqn, w') \<Longrightarrow>
    normal_inv E n_length l p q n \<Longrightarrow> same_but_rng w w' \<and> accepted E n_length pqn"
proof (induction k arbitrary: l p q n w)
  case 0
  then show ?case
    using rs.same_refl acceptedI [OF ok(1) len, of p q n] by (auto simp: normal_inv_def split: if_splits)
next
  case (Suc k)
  let ?b = "n_length div 2" and ?d = "getPrimeDistance E n_length"
  have b: "8 \<le> ?b" using len by simp
  show ?case
  proof (cases "l \<noteq> n_length \<or> isClosePrimeBN E p q ?d")
    case True
    obtain x w1 q' w2 where x: "getPrimeBN E fuel ?b w = (Inr x, w1)"
      and q: "other_prime E fuel ?b (bn_assign E x) fuel (bn_assign E (bn_assign E x)) w1 = (Inr q', w2)"
      and r2: "normal_loop E fuel n_length ?d k (BitSize E (bn_assign E (bn_times E (bn_assign E x) q')))
        (bn_assign E x) q' (bn_assign E (bn_times E (bn_assign E x) q')) w2 = (Inr pqn, w')"
      using Suc.prems(1) True by (auto simp: Let_def elim!: bindP_InrE)
    note P = getPrimeBN_ok [OF ok b x]
    have Q: "same_but_rng w1 w2 \<and> prime_sized ?b (bn_val E q')"
      by (rule other_prime_ok [OF ok b q]) (simp add: P(2) bn_assign_copy copy_val [OF ok(1)])
    have "same_but_rng w2 w' \<and> accepted E n_length pqn"
      by (rule Suc.IH [OF r2])
        (use P(2) Q in \<open>simp add: normal_inv_def bn_assign_copy copy_val [OF ok(1)] times_val [OF ok(1)]\<close>)
    then show ?thesis using P(1) Q rs.same_trans by blast
  next
    case False
    then show ?thesis
      using Suc.prems rs.same_refl acceptedI [OF ok(1) len, of p q n] by (auto simp: normal_inv_def)
  qed
qed

lemma getNormalBN_ok:
  assumes "ipp_ok E" "prime_ok E" "200 \<le> n_length" "n_length < 2 ^ 31"
    and "getNormalBN E fuel n_length (getPrimeDistance E n_length) w = (Inr pqn, w')"
  shows "same_but_rng w w'" "accepted E n_length pqn"
  using normal_loop_ok [OF assms(1-4)] assms(3,5) by (auto simp: getNormalBN_def Let_def normal_inv_def)

text \<open>With DJN also \<open>p mod 4 = 3\<close> and \<open>gcd (p - 1) (q - 1) = 2\<close>. The loop for \<open>q\<close> tests the bit of
  \<open>p\<close>, so nothing is said of \<open>q mod 4\<close>.\<close>

lemma djn_p_ok:
  assumes ok: "ipp_ok E" "prime_ok E" and b: "8 \<le> bits"
  shows "djn_p E fuel bits k w = (Inr p, w') \<Longrightarrow>
    same_but_rng w w' \<and> prime_sized bits (bn_val E p) \<and> TestBit E p 1 = Inr True"
proof (induction k arbitrary: w)
  case (Suc k)
  obtain x w1 where x: "getPrimeBN E fuel bits w = (Inr x, w1)"
    and r: "bindP (liftR (TestBit E (bn_assign E x) 1)) (\<lambda>b. if \<not> b then djn_p E fuel bits k
      else retP (bn_assign E x)) w1 = (Inr p, w')"
    using Suc.prems by (auto simp: Let_def elim!: bindP_InrE)
  note P = getPrimeBN_ok [OF ok b x]
  obtain t where t: "TestBit E (bn_assign E x) 1 = Inr t"
    using TestBit_val [OF ok(1), of 1 "bn_assign E x"] by simp
  show ?case
  proof (cases t)
    case True
    then have "p = bn_assign E x" "w' = w1" using r t by (simp_all add: bindP_def)
    then show ?thesis using P t True by (simp add: bn_assign_copy copy_val [OF ok(1)])
  next
    case False
    then have "djn_p E fuel bits k w1 = (Inr p, w')" using r t by (simp add: bindP_def)
    then show ?thesis using Suc.IH P(1) rs.same_trans by blast
  qed
qed simp

lemma djn_q_ok:
  assumes ok: "ipp_ok E" "prime_ok E" and b: "8 \<le> bits" and p: "TestBit E p 1 = Inr True"
  shows "djn_q E fuel bits p k w = (Inr q, w') \<Longrightarrow>
    same_but_rng w w' \<and> prime_sized bits (bn_val E q) \<and> \<not> bn_eq E q p"
proof (induction k arbitrary: w)
  case (Suc k)
  obtain x w1 where x: "getPrimeBN E fuel bits w = (Inr x, w1)"
    and r: "(if bn_eq E (bn_assign E x) p then djn_q E fuel bits p k
        else bindP (liftR (TestBit E p 1)) (\<lambda>b. if \<not> b then djn_q E fuel bits p k
          else retP (bn_assign E x))) w1 = (Inr q, w')"
    using Suc.prems by (auto simp: Let_def elim!: bindP_InrE)
  note P = getPrimeBN_ok [OF ok b x]
  show ?case
  proof (cases "bn_eq E (bn_assign E x) p")
    case True
    then have "djn_q E fuel bits p k w1 = (Inr q, w')" using r by simp
    then show ?thesis using Suc.IH P(1) rs.same_trans by blast
  next
    case False
    then have "q = bn_assign E x" "w' = w1" using r p by (simp_all add: bindP_def)
    then show ?thesis using P False by (simp add: bn_assign_copy copy_val [OF ok(1)])
  qed
qed simp

definition djn_accepted :: "('b, 'z) ipp_scheme \<Rightarrow> 'b \<times> 'b \<times> 'b \<Rightarrow> bool" where
  "djn_accepted I pqn \<longleftrightarrow> (case pqn of (p, q, n) \<Rightarrow>
     gcd (bn_val I p - 1) (bn_val I q - 1) = 2 \<and> bn_val I p mod 4 = 3)"

lemma mod_4_bits:
  assumes "0 \<le> v" "odd v" "odd (nat v div 2)"
  shows "v mod 4 = (3 :: int)"
proof -
  have "nat v div 2 = nat (v div 2)" using assms(1) by (simp add: nat_div_distrib)
  then have "odd (v div 2)" using assms(1,3) by (simp add: even_nat_iff)
  then show ?thesis using assms(2) by presburger
qed

lemma djn_acceptedI:
  assumes ok: "ipp_ok E" and s: "prime_sized b (bn_val E p)" "prime_sized b (bn_val E q)"
    and t: "TestBit E p 1 = Inr True"
    and g: "bn_compare E (bn_assign E (bn_gcd E (bn_minus_u E p 1) (bn_minus_u E q 1))) (BigNumber_s32 E 2) = 0"
  shows "djn_accepted E (p, q, n)"
proof -
  have pq: "1 < bn_val E p" "1 < bn_val E q" using s prime_sized_gt_1 by blast+
  let ?p = "bn_minus_u E p 1" and ?q = "bn_minus_u E q 1"
  have m: "bn_val E ?p = bn_val E p - 1" "bn_val E ?q = bn_val E q - 1"
    using pq by (simp_all add: minus_u_val [OF ok])
  have gv: "bn_val E (bn_gcd E ?p ?q) = gcd (bn_val E p - 1) (bn_val E q - 1)"
    using gcd_val(1) [OF ok, of ?p ?q] pq m by simp
  have two: "bn_val E (BigNumber_s32 E 2) = 2" by (simp add: s32_val [OF ok])
  have "sgn (gcd (bn_val E p - 1) (bn_val E q - 1) - 2) = 0"
    using g compare_val [OF ok, of "bn_assign E (bn_gcd E ?p ?q)" "BigNumber_s32 E 2"]
    by (simp add: bn_assign_copy copy_val [OF ok] gv two)
  then have "gcd (bn_val E p - 1) (bn_val E q - 1) = 2" by (simp add: sgn_eq_0_iff)
  moreover have "odd (bn_mag E p div 2)" using t TestBit_val [OF ok, of 1 p] by simp
  then have "odd (nat (bn_val E p) div 2)" using abs_bn_val [of E p] pq(1) by simp
  then have "bn_val E p mod 4 = 3" using s(1) pq(1) by (intro mod_4_bits) (simp_all add: prime_sized_def)
  ultimately show ?thesis by (simp add: djn_accepted_def)
qed

lemma djn_loop_ok:
  assumes ok: "ipp_ok E" "prime_ok E" and len: "200 \<le> n_length" "n_length < 2 ^ 31"
  shows "djn_loop E fuel n_length (getPrimeDistance E n_length) k w = (Inr pqn, w') \<Longrightarrow>
    same_but_rng w w' \<and> accepted E n_length pqn \<and> djn_accepted E pqn"
proof (induction k arbitrary: w)
  case (Suc k)
  let ?b = "n_length div 2" and ?d = "getPrimeDistance E n_length"
  have b: "8 \<le> ?b" using len by simp
  obtain p w1 q w2 where p: "djn_p E fuel ?b fuel w = (Inr p, w1)" and q: "djn_q E fuel ?b p fuel w1 = (Inr q, w2)"
    and r: "(if bn_compare E (bn_assign E (bn_gcd E (bn_minus_u E p 1) (bn_minus_u E q 1))) (BigNumber_s32 E 2) \<noteq> 0 \<or>
        BitSize E (bn_assign E (bn_times E p q)) \<noteq> n_length \<or> isClosePrimeBN E p q ?d
      then djn_loop E fuel n_length ?d k else retP (p, q, bn_assign E (bn_times E p q))) w2 = (Inr pqn, w')"
    using Suc.prems by (auto simp: Let_def elim!: bindP_InrE)
  have P: "same_but_rng w w1" "prime_sized ?b (bn_val E p)" "TestBit E p 1 = Inr True"
    using djn_p_ok [OF ok b p] by simp_all
  have Q: "same_but_rng w1 w2" "prime_sized ?b (bn_val E q)" using djn_q_ok [OF ok b P(3) q] by simp_all
  have s: "same_but_rng w w2" by (rule rs.same_trans [OF P(1) Q(1)])
  show ?case
  proof (cases "bn_compare E (bn_assign E (bn_gcd E (bn_minus_u E p 1) (bn_minus_u E q 1))) (BigNumber_s32 E 2) \<noteq> 0 \<or>
      BitSize E (bn_assign E (bn_times E p q)) \<noteq> n_length \<or> isClosePrimeBN E p q ?d")
    case True
    then have "djn_loop E fuel n_length ?d k w2 = (Inr pqn, w')" using r by simp
    from Suc.IH [OF this] show ?thesis using s rs.same_trans by blast
  next
    case False
    then have e: "pqn = (p, q, bn_assign E (bn_times E p q))" "w' = w2" using r by simp_all
    have "accepted E n_length pqn" unfolding e
      by (rule acceptedI [OF ok(1) len P(2) Q(2)])
        (use False in \<open>simp_all add: bn_assign_copy copy_val [OF ok(1)] times_val [OF ok(1)]\<close>)
    moreover have "djn_accepted E pqn" unfolding e
      by (rule djn_acceptedI [OF ok(1) P(2) Q(2) P(3)]) (use False in simp)
    ultimately show ?thesis using s e(2) by simp
  qed
qed simp

section \<open>The key pair\<close>

text \<open>A public key that was constructed has the numbers of its modulus, with or without DJN.\<close>

lemma PublicKey_new_core:
  assumes ok: "env_ok E" and n: "1 < bn_val E n" "odd (bn_val E n)" "1 \<le> bits"
    and run: "PublicKey_new E fuel n bits djn w = (Inr pk, w')"
  shows "same_but_rng w w'" "pk_core E pk" "bn_val E (pk_n pk) = bn_val E n" "pk_isInitialized pk"
    "pk_enable_DJN pk = djn" "\<not> pk_testv pk" "pk_bits pk = bits"
proof -
  have i: "ipp_ok E" using ok by simp
  let ?n = "BigNumber_copy E n"
  let ?pk = "\<lparr>pk_isInitialized = False, pk_n = ?n, pk_g = BigNumber_copy E (bn_plus_u E ?n 1),
    pk_nsquare = BigNumber_copy E (bn_times E ?n ?n), pk_bits = bits, pk_dwords = BITSIZE_DWORD (bits * 2),
    pk_hs = BigNumber_s32 E 0, pk_randbits = 0, pk_enable_DJN = False, pk_r = [], pk_testv = False\<rparr>"
  have core: "pk_core E ?pk"
    using n by (simp add: pk_core_def copy_val [OF i] times_val [OF i] plus_u_val [OF i] power2_eq_square)
  obtain pk1 where pk1: "(if djn then enableDJN E fuel ?pk else retP ?pk) w = (Inr pk1, w')"
    "pk = pk1\<lparr>pk_isInitialized := True\<rparr>"
    using run by (auto simp: PublicKey_new_def Let_def elim!: bindP_InrE)
  have "same_but_rng w w' \<and> pk_core E pk \<and> bn_val E (pk_n pk) = bn_val E n \<and> pk_isInitialized pk \<and>
    pk_enable_DJN pk = djn \<and> \<not> pk_testv pk \<and> pk_bits pk = bits"
  proof (cases djn)
    case True
    then have "enableDJN E fuel ?pk w = (Inr pk1, w')" using pk1(1) by simp
    from enableDJN_ok [OF ok core this] obtain hs where
      "pk1 = ?pk\<lparr>pk_hs := hs, pk_randbits := drop_bit 1 (pk_bits ?pk), pk_enable_DJN := True\<rparr>" "same_but_rng w w'"
      by metis
    then show ?thesis using core True by (simp add: pk1(2) pk_core_def copy_val [OF i])
  next
    case False
    then have "pk1 = ?pk" "w' = w" using pk1(1) by simp_all
    then show ?thesis using core rs.same_refl False by (simp add: pk1(2) pk_core_def copy_val [OF i])
  qed
  then show "same_but_rng w w'" "pk_core E pk" "bn_val E (pk_n pk) = bn_val E n" "pk_isInitialized pk"
    "pk_enable_DJN pk = djn" "\<not> pk_testv pk" "pk_bits pk = bits" by blast+
qed

lemma PublicKey_copy_core: "ipp_ok I \<Longrightarrow> pk_core I (PublicKey_copy I pk) = pk_core I pk"
  by (simp add: pk_core_def)

text \<open>The numbers of a generated pair.\<close>

definition pair_for :: "('b, 'r, 'z) env_scheme \<Rightarrow> int \<Rightarrow> bool \<Rightarrow> int \<Rightarrow> int \<Rightarrow> 'b pubkey \<times> 'b prikey \<Rightarrow> bool" where
  "pair_for E n_length djn p q pair \<longleftrightarrow> (case pair of (pk, sk) \<Rightarrow>
     bn_val E (pk_n pk) = p * q \<and> 2 ^ nat (n_length - 1) \<le> p * q \<and> p * q < 2 ^ nat n_length \<and>
     prime_sized (n_length div 2) p \<and> prime_sized (n_length div 2) q \<and>
     2 ^ nat (n_length div 2 - 100) < \<bar>p - q\<bar> \<and>
     (djn \<longrightarrow> gcd (p - 1) (q - 1) = 2 \<and> p mod 4 = 3) \<and>
     pk_core E pk \<and> pk_isInitialized pk \<and> \<not> pk_testv pk \<and> pk_enable_DJN pk = djn \<and> pk_bits pk = n_length \<and>
     (\<not> djn \<longrightarrow> pk_inv E pk) \<and> (valid_pq p q \<longrightarrow> sk_inv E sk (min p q) (max p q)))"

lemma accepted_bounds:
  assumes ok: "ipp_ok E" and a: "accepted E n_length (p, q, n)" and l: "200 \<le> n_length"
  shows "bn_val E n = bn_val E p * bn_val E q" "1 < bn_val E n" "odd (bn_val E n)"
    "2 ^ nat (n_length - 1) \<le> bn_val E n" "bn_val E n < 2 ^ nat n_length"
proof -
  have s: "prime_sized (n_length div 2) (bn_val E p)" "prime_sized (n_length div 2) (bn_val E q)"
    and n: "bn_val E n = bn_val E p * bn_val E q" "BitSize E n = n_length"
    using a by (simp_all add: accepted_def)
  have g: "1 < bn_val E p" "1 < bn_val E q" using s prime_sized_gt_1 by blast+
  show "bn_val E n = bn_val E p * bn_val E q" by (rule n)
  show g1: "1 < bn_val E n" using g by (simp add: n(1) less_1_mult)
  show "odd (bn_val E n)" using s by (simp add: n(1) prime_sized_def)
  have b: "n_length = int (nat_bits (bn_mag E n))" using BitSize_val [OF ok, of n] g1 n(2) by simp
  have m: "bn_val E n = int (bn_mag E n)" "0 < bn_mag E n" using abs_bn_val [of E n] g1 by simp_all
  have e: "nat (n_length - 1) = nat_bits (bn_mag E n) - 1" using b by simp
  have "2 ^ (nat_bits (bn_mag E n) - 1) \<le> bn_mag E n" by (rule nat_bits_lower [OF m(2)])
  then show "2 ^ nat (n_length - 1) \<le> bn_val E n" unfolding m(1) e by (simp flip: of_nat_le_iff)
  have "bn_mag E n < 2 ^ nat_bits (bn_mag E n)" by (rule nat_bits_upper)
  then show "bn_val E n < 2 ^ nat n_length" unfolding m(1) b by (simp flip: of_nat_less_iff)
qed

lemma generateKeypair_ok:
  assumes ok: "env_ok E" "prime_ok E" and run: "generateKeypair E fuel n_length djn w = (Inr pair, w')"
  shows "200 \<le> n_length \<and> n_length \<le> 2048 \<and> n_length mod 4 = 0 \<and> same_but_rng w w' \<and>
    (\<exists>p q. pair_for E n_length djn p q pair)"
proof -
  have i: "ipp_ok E" and me: "ipp_me_ok E" using ok(1) by simp_all
  let ?d = "getPrimeDistance E n_length"
  obtain p q n w1 pk w2 sk where len: "n_length \<le> N_BIT_SIZE_MAX" "n_length \<ge> N_BIT_SIZE_MIN" "n_length mod 4 = 0"
    and g: "(if djn then getDJNBN E fuel n_length ?d else getNormalBN E fuel n_length ?d) w = (Inr (p, q, n), w1)"
    and pk: "PublicKey_new E fuel n n_length djn w1 = (Inr pk, w2)"
    and sk: "PrivateKey_pk E pk p q = Inr sk" and e: "pair = (PublicKey_copy E pk, PrivateKey_copy E sk)" "w' = w2"
    using run unfolding generateKeypair_def Let_def
    by (auto simp: errorCheck_Inr elim!: bindP_InrE split: prod.splits)
  have l: "200 \<le> n_length" "n_length < 2 ^ 31" "n_length \<le> 2048"
    using len by (simp_all add: N_BIT_SIZE_MIN_def N_BIT_SIZE_MAX_def)
  have a: "same_but_rng w w1 \<and> accepted E n_length (p, q, n) \<and> (djn \<longrightarrow> djn_accepted E (p, q, n))"
    using g getNormalBN_ok [OF i ok(2) l(1,2)] djn_loop_ok [OF i ok(2) l(1,2), of fuel fuel w "(p, q, n)" w1]
    by (cases djn) (auto simp: getDJNBN_def)
  then have acc: "accepted E n_length (p, q, n)" by simp
  note B = accepted_bounds [OF i acc l(1)]
  note K = PublicKey_new_core [OF ok(1) B(2,3) _ pk]
  have b: "1 \<le> n_length" using l(1) by simp
  have n: "bn_val E (pk_n pk) = bn_val E p * bn_val E q" using K(3) [OF b] B(1) by simp
  have skv: "sk_inv E sk (min (bn_val E p) (bn_val E q)) (max (bn_val E p) (bn_val E q))"
    if "valid_pq (bn_val E p) (bn_val E q)"
    using PrivateKey_pk_ok [OF me K(2) [OF b] that n] sk by simp
  have "pair_for E n_length djn (bn_val E p) (bn_val E q) pair"
    using a B n K(2,4,5,6,7) [OF b] skv
    by (auto simp: pair_for_def e(1) accepted_def djn_accepted_def PublicKey_copy_core [OF i]
        PublicKey_copy_inv [OF i] PrivateKey_copy_inv [OF i] pk_inv_def)
  moreover have "same_but_rng w w'" using a K(1) [OF b] rs.same_trans unfolding e(2) by blast
  ultimately show ?thesis using l len(3) by blast
qed

text \<open>Two primes of one size are a valid pair.\<close>

lemma prime_sized_valid:
  assumes "is_prime p" "is_prime q" "prime_sized b p" "prime_sized b q" "p \<noteq> q" "2 \<le> b"
  shows "valid_pq p q"
proof -
  have e: "nat b = Suc (nat (b - 1))" using assms(6) by simp
  have two: "(2 :: int) ^ 1 \<le> 2 ^ nat (b - 1)" using assms(6) by (intro power_increasing) simp_all
  have half: "y < 2 * x" "2 < x" if "prime_sized b x" "prime_sized b y" for x y
    using that two by (simp_all add: prime_sized_def e)
  show ?thesis
  proof (cases "p < q")
    case True
    then show ?thesis using valid_pq_same_size [OF assms(1,2)] half [OF assms(3,4)] by simp
  next
    case False
    then have "valid_pq q p"
      using valid_pq_same_size [OF assms(2,1)] half [OF assms(4,3)] assms(5) by simp
    then show ?thesis by (rule valid_pq_sym)
  qed
qed

lemma generateKeypair_errors:
  "2048 < n_length \<Longrightarrow> generateKeypair E fuel n_length djn w = (Inl (RuntimeError
     ''generateKeyPair: modulus size in bits should belong to either 1Kb, 2Kb, 3Kb or 4Kb range only, key size exceed the range!!!''), w)"
  "n_length < 200 \<or> n_length mod 4 \<noteq> 0 \<Longrightarrow> n_length \<le> 2048 \<Longrightarrow> generateKeypair E fuel n_length djn w =
     (Inl (RuntimeError ''generateKeyPair: key size should >=200, and divisible by 4''), w)"
  by (auto simp: generateKeypair_def N_BIT_SIZE_MAX_def N_BIT_SIZE_MIN_def errorCheck_def bindP_def)

section \<open>The loop for the pair ends\<close>

lemma nat_bits_eq:
  assumes "0 < b" "2 ^ (b - 1) \<le> m" "m < 2 ^ b"
  shows "nat_bits m = b"
proof -
  have m: "0 < m" using assms(2) by (meson less_le_trans zero_less_numeral zero_less_power)
  have "2 ^ (nat_bits m - 1) < (2 :: nat) ^ b" using nat_bits_lower [OF m] assms(3) by linarith
  then have "nat_bits m - 1 < b" by (rule power_less_imp_less_exp [rotated]) simp
  moreover have "2 ^ (b - 1) < (2 :: nat) ^ nat_bits m" using nat_bits_upper [of m] assms(2) by linarith
  then have "b - 1 < nat_bits m" by (rule power_less_imp_less_exp [rotated]) simp
  ultimately show ?thesis using assms(1) nat_bits_pos [OF m] by linarith
qed

lemma BitSize_eq:
  assumes ok: "ipp_ok I" and l: "1 \<le> len" and v: "2 ^ nat (len - 1) \<le> bn_val I n" "bn_val I n < 2 ^ nat len"
  shows "BitSize I n = len"
proof -
  have "0 < (2::int) ^ nat (len - 1)" by simp
  then have pos: "0 < bn_val I n" using v(1) by linarith
  then have m: "bn_val I n = int (bn_mag I n)" using abs_bn_val [of I n] by simp
  have e: "nat (len - 1) = nat len - 1" using l by simp
  have "nat_bits (bn_mag I n) = nat len"
    by (rule nat_bits_eq) (use l v in \<open>simp_all add: m e flip: of_nat_le_iff of_nat_less_iff\<close>)
  then show ?thesis using BitSize_val [OF ok, of n] pos l by simp
qed

text \<open>If two primes drawn in a row are good, one round is enough.\<close>

lemma getNormalBN_first:
  assumes ok: "ipp_ok E" and len: "200 \<le> n_length" "n_length < 2 ^ 31"
    and x: "getPrimeBN E (Suc k) (n_length div 2) w = (Inr x, w1)"
    and y: "getPrimeBN E (Suc k) (n_length div 2) w1 = (Inr y, w2)"
    and s: "prime_sized (n_length div 2) (bn_val E x)" "prime_sized (n_length div 2) (bn_val E y)"
    and n: "2 ^ nat (n_length - 1) \<le> bn_val E x * bn_val E y" "bn_val E x * bn_val E y < 2 ^ nat n_length"
    and d: "2 ^ nat (n_length div 2 - 100) < \<bar>bn_val E x - bn_val E y\<bar>"
  shows "\<exists>p q n. getNormalBN E (Suc k) n_length (getPrimeDistance E n_length) w = (Inr (p, q, n), w2) \<and>
    bn_val E p = bn_val E x \<and> bn_val E q = bn_val E y \<and> bn_val E n = bn_val E x * bn_val E y"
proof -
  let ?d = "getPrimeDistance E n_length" and ?p = "bn_assign E x" and ?q = "bn_assign E y"
  let ?n = "bn_assign E (bn_times E ?p ?q)"
  have v: "bn_val E ?p = bn_val E x" "bn_val E ?q = bn_val E y" "bn_val E ?n = bn_val E x * bn_val E y"
    by (simp_all add: bn_assign_copy copy_val [OF ok] times_val [OF ok])
  have pos: "1 < bn_val E x" "1 < bn_val E y" using s prime_sized_gt_1 by blast+
  have "bn_eq E (bn_assign E ?p) ?p"
    by (subst comparison_val(3) [OF ok]) (simp_all add: bn_assign_copy copy_val [OF ok])
  moreover have "\<not> bn_eq E ?q ?p"
    by (subst comparison_val(3) [OF ok]) (use pos d in \<open>auto simp: v\<close>)
  then have "other_prime E (Suc k) (n_length div 2) ?p k ?q w2 = (Inr ?q, w2)" by (cases k) simp_all
  ultimately have o: "other_prime E (Suc k) (n_length div 2) ?p (Suc k) (bn_assign E ?p) w1 = (Inr ?q, w2)"
    using y by (simp add: bindP_def)
  have "BitSize E ?n = n_length" by (rule BitSize_eq [OF ok]) (use len n v in simp_all)
  moreover have "\<not> isClosePrimeBN E ?p ?q ?d"
    using isClosePrimeBN_val [OF ok, of ?p ?q ?d] pos d by (simp add: v getPrimeDistance_val [OF ok len])
  ultimately have "normal_loop E (Suc k) n_length ?d k (BitSize E ?n) ?p ?q ?n w2 = (Inr (?p, ?q, ?n), w2)"
    by (cases k) simp_all
  then have "getNormalBN E (Suc k) n_length ?d w = (Inr (?p, ?q, ?n), w2)"
    using len x o by (simp add: getNormalBN_def bindP_def Let_def)
  then show ?thesis using v by blast
qed

lemma generateKeypair_normal_first:
  assumes ok: "env_ok E" and len: "200 \<le> n_length" "n_length \<le> 2048" "n_length mod 4 = 0"
    and x: "getPrimeBN E (Suc k) (n_length div 2) w = (Inr x, w1)"
    and y: "getPrimeBN E (Suc k) (n_length div 2) w1 = (Inr y, w2)"
    and s: "prime_sized (n_length div 2) (bn_val E x)" "prime_sized (n_length div 2) (bn_val E y)"
    and n: "2 ^ nat (n_length - 1) \<le> bn_val E x * bn_val E y" "bn_val E x * bn_val E y < 2 ^ nat n_length"
    and d: "2 ^ nat (n_length div 2 - 100) < \<bar>bn_val E x - bn_val E y\<bar>"
  shows "\<exists>pk sk. generateKeypair E (Suc k) n_length False w = (Inr (pk, sk), w2) \<and>
    bn_val E (pk_n pk) = bn_val E x * bn_val E y"
proof -
  have i: "ipp_ok E" and me: "ipp_me_ok E" and l31: "n_length < 2 ^ 31" using ok len by simp_all
  obtain p q nn where g: "getNormalBN E (Suc k) n_length (getPrimeDistance E n_length) w = (Inr (p, q, nn), w2)"
    "bn_val E p = bn_val E x" "bn_val E q = bn_val E y" "bn_val E nn = bn_val E x * bn_val E y"
    using getNormalBN_first [OF i len(1) l31 x y s n d] by blast
  have pos: "1 < bn_val E x" "1 < bn_val E y" and odd: "odd (bn_val E x)" "odd (bn_val E y)"
    using s prime_sized_gt_1 by (auto simp: prime_sized_def)
  obtain pk where pk: "PublicKey_new E (Suc k) nn n_length False w2 = (Inr pk, w2)" "pk_inv E pk"
    "bn_val E (pk_n pk) = bn_val E nn"
    by (rule PublicKey_new_normal [OF i, of nn n_length "Suc k" w2])
      (use pos odd len in \<open>simp_all add: g(4) less_1_mult\<close>)
  have core: "pk_core E pk" using pk(2) by (simp add: pk_inv_def)
  obtain sk where "PrivateKey_pk E pk p q = Inr sk"
    using PrivateKey_pk_checks(3) [OF me core, of p q] pos odd d pk(3) g by fastforce
  then have "generateKeypair E (Suc k) n_length False w = (Inr (PublicKey_copy E pk, PrivateKey_copy E sk), w2)"
    using len g(1) pk(1)
    by (simp add: generateKeypair_def bindP_def Let_def N_BIT_SIZE_MAX_def N_BIT_SIZE_MIN_def)
  moreover have "bn_val E (pk_n (PublicKey_copy E pk)) = bn_val E x * bn_val E y" using pk(3) g(4) by simp
  ultimately show ?thesis by blast
qed

text \<open>
  The same with DJN. There is no condition on \<open>q mod 4\<close>: a pair with \<open>q mod 4 = 1\<close> is
  accepted.
\<close>

lemma getDJNBN_first:
  assumes ok: "ipp_ok E" and len: "1 \<le> n_length"
    and x: "getPrimeBN E (Suc k) (n_length div 2) w = (Inr x, w1)"
    and y: "getPrimeBN E (Suc k) (n_length div 2) w1 = (Inr y, w2)"
    and s: "prime_sized b (bn_val E x)" "prime_sized b (bn_val E y)" "bn_val E x \<noteq> bn_val E y"
    and n: "2 ^ nat (n_length - 1) \<le> bn_val E x * bn_val E y" "bn_val E x * bn_val E y < 2 ^ nat n_length"
    and d: "0 \<le> bn_val E d0" "bn_val E d0 < \<bar>bn_val E x - bn_val E y\<bar>"
    and g: "bn_val E x mod 4 = 3" "gcd (bn_val E x - 1) (bn_val E y - 1) = 2"
  shows "\<exists>p q n. getDJNBN E (Suc k) n_length d0 w = (Inr (p, q, n), w2) \<and>
    bn_val E p = bn_val E x \<and> bn_val E q = bn_val E y \<and> bn_val E n = bn_val E x * bn_val E y"
proof -
  let ?p = "bn_assign E x" and ?q = "bn_assign E y"
  let ?n = "bn_assign E (bn_times E ?p ?q)"
  let ?g = "bn_gcd E (bn_minus_u E ?p 1) (bn_minus_u E ?q 1)"
  have v: "bn_val E ?p = bn_val E x" "bn_val E ?q = bn_val E y" "bn_val E ?n = bn_val E x * bn_val E y"
    by (simp_all add: bn_assign_copy copy_val [OF ok] times_val [OF ok])
  have pos: "1 < bn_val E x" "1 < bn_val E y" using s prime_sized_gt_1 by blast+
  have "\<bar>bn_val E ?p\<bar> = int (bn_mag E ?p)" by (rule abs_bn_val)
  then have m: "bn_mag E ?p = nat (bn_val E x)" using pos(1) by (simp add: v(1))
  have "nat (bn_val E x) div 2 = nat (bn_val E x div 2)" using pos(1) by (simp add: nat_div_distrib)
  moreover have "odd (bn_val E x div 2)" using g(1) by presburger
  ultimately have "odd (nat (bn_val E x) div 2)" using pos(1) by (simp add: even_nat_iff)
  then have t: "TestBit E ?p 1 = Inr True" using TestBit_val [OF ok, of 1 ?p] m by simp
  have p: "djn_p E (Suc k) (n_length div 2) (Suc k) w = (Inr ?p, w1)"
    using x t by (simp add: bindP_def)
  have "\<not> bn_eq E ?q ?p" by (subst comparison_val(3) [OF ok]) (use pos s(3) in \<open>auto simp: v\<close>)
  then have q: "djn_q E (Suc k) (n_length div 2) ?p (Suc k) w1 = (Inr ?q, w2)"
    using y t by (simp add: bindP_def)
  have mv: "bn_val E (bn_minus_u E ?p 1) = bn_val E x - 1" "bn_val E (bn_minus_u E ?q 1) = bn_val E y - 1"
    using pos by (simp_all add: minus_u_val [OF ok] v)
  have gv: "bn_val E ?g = 2" using gcd_val(1) [OF ok, of "bn_minus_u E ?p 1" "bn_minus_u E ?q 1"] pos mv g(2) by simp
  define G where "G = bn_assign E ?g"
  have "bn_val E G = 2" unfolding G_def using gv by (simp only: bn_assign_copy copy_val [OF ok])
  then have "bn_compare E (bn_assign E ?g) (BigNumber_s32 E 2) = 0"
    unfolding G_def [symmetric] using compare_val [OF ok, of G "BigNumber_s32 E 2"]
    by (simp add: s32_val [OF ok])
  moreover have "BitSize E ?n = n_length" by (rule BitSize_eq [OF ok len]) (use n v in simp_all)
  moreover have "\<not> isClosePrimeBN E ?p ?q d0"
    using isClosePrimeBN_val [OF ok, of ?p ?q d0] pos d by (simp add: v)
  ultimately have "getDJNBN E (Suc k) n_length d0 w = (Inr (?p, ?q, ?n), w2)"
    using p q by (simp add: getDJNBN_def bindP_def Let_def del: djn_p.simps djn_q.simps)
  then show ?thesis using v by blast
qed

end
