(* ===== verification/IppReference.thy ===== *)
theory IppReference
  imports BigNumberConv
begin

text \<open>
  A concrete library that meets the contract of \<^theory_text>\<open>IppCrypto\<close>: a number is its value and the
  capacity of its buffer, the Montgomery factor is one, and a result that does not fit
  leaves the output as it was. It shows that the contract can be met, and gives the
  instances the witnesses compute with. It is not a model of the real library.
\<close>

section \<open>Big numbers\<close>

type_synonym refbn = "int \<times> int"

definition ref_put :: "int \<Rightarrow> refbn \<Rightarrow> refbn" where
  "ref_put v r = (if \<bar>v\<bar> < 2 ^ nat (32 * snd r) then (v, snd r) else r)"

definition ref_bits :: "refbn \<Rightarrow> int" where
  "ref_bits x = max 1 (int (nat_bits (nat \<bar>fst x\<bar>)))"

definition ref_data :: "refbn \<Rightarrow> u32 list" where
  "ref_data x = limbs (nat (2 * BITSIZE_DWORD (ref_bits x))) (nat \<bar>fst x\<bar>)"

definition ref_sgn :: "refbn \<Rightarrow> IppsBigNumSGN" where
  "ref_sgn x = (if fst x < 0 then IppsBigNumNEG else IppsBigNumPOS)"

definition ref_inv :: "int \<Rightarrow> int \<Rightarrow> int" where
  "ref_inv e m = fst (bezw (nat e) (nat m)) mod m"

definition ref_cmp :: "refbn \<Rightarrow> cmp_result" where
  "ref_cmp x = (if fst x = 0 then IS_ZERO
     else if 0 < fst x then GREATER_THAN_ZERO else LESS_THAN_ZERO)"

definition ref_ipp :: "'z \<Rightarrow> (refbn, 'z) ipp_scheme" where
  "ref_ipp z =
     \<lparr>BigNumInit = (\<lambda>len. (0, len)),
      Set_BN = (\<lambda>s len ws x. (signed s (words_val (take (nat len) ws)), snd x)),
      Ref_sgn = ref_sgn, Ref_bits = ref_bits, Ref_data = ref_data,
      Add_BN = (\<lambda>a b r. ref_put (fst a + fst b) r),
      Sub_BN = (\<lambda>a b r. ref_put (fst a - fst b) r),
      Mul_BN = (\<lambda>a b r. ref_put (fst a * fst b) r),
      Mod_BN = (\<lambda>a m r. ref_put (fst a mod fst m) r),
      Div_BN = (\<lambda>a b q r. (ref_put (tdiv (fst a) (fst b)) q,
                            ref_put (fst a - fst b * tdiv (fst a) (fst b)) r)),
      ModInv_BN = (\<lambda>e m r. ref_put (ref_inv (fst e) (fst m)) r),
      Gcd_BN = (\<lambda>a b r. ref_put (gcd (fst a) (fst b)) r),
      CmpZero_BN = ref_cmp, Room = snd, \<dots> = z\<rparr>"

lemma ref_ipp_sel [simp]:
  "Ref_sgn (ref_ipp z) = ref_sgn" "Ref_bits (ref_ipp z) = ref_bits" "Ref_data (ref_ipp z) = ref_data"
  "Room (ref_ipp z) = snd"
  by (simp_all add: ref_ipp_def)

lemma nat_bits_ref: "nat \<bar>fst x\<bar> < 2 ^ nat (ref_bits x)"
proof -
  have "nat \<bar>fst x\<bar> < 2 ^ nat_bits (nat \<bar>fst x\<bar>)" by (rule nat_bits_upper)
  also have "\<dots> \<le> 2 ^ nat (ref_bits x)"
    by (rule power_increasing) (simp_all add: ref_bits_def)
  finally show ?thesis .
qed

lemma take_ref_data:
  assumes "nat (ref_bits x) \<le> 32 * k" "k \<le> nat (2 * BITSIZE_DWORD (ref_bits x))"
  shows "words_val (take k (ref_data x)) = nat \<bar>fst x\<bar>"
proof -
  have "nat \<bar>fst x\<bar> < 2 ^ (32 * k)"
    by (rule order_less_le_trans [OF nat_bits_ref]) (use assms(1) in \<open>simp add: power_increasing\<close>)
  then show ?thesis
    using assms(2) by (simp add: ref_data_def take_limbs words_val_limbs min_absorb1)
qed

lemma ref_bits_pos: "1 \<le> ref_bits x"
  by (simp add: ref_bits_def)

lemma ref_nw: "bn_nw (ref_ipp z) x \<le> nat (2 * BITSIZE_DWORD (ref_bits x))"
  using BITSIZE_WORD_le_DWORD [of "ref_bits x"] by (simp add: bn_nw_def nat_mono)

lemma ref_mag [simp]: "bn_mag (ref_ipp z) x = nat \<bar>fst x\<bar>"
proof -
  have "nat (ref_bits x) \<le> 32 * nat (BITSIZE_WORD (ref_bits x))"
    using BITSIZE_WORD_ge [of "ref_bits x"] ref_bits_pos [of x] by linarith
  then show ?thesis
    using take_ref_data [of x "bn_nw (ref_ipp z) x"] ref_nw [of z x]
    by (simp add: bn_mag_def bn_nw_def)
qed

lemma ref_val [simp]: "bn_val (ref_ipp z) x = fst x"
  by (simp add: bn_val_def ref_sgn_def)

lemma ref_norm [simp]: "bn_norm (ref_ipp z) x"
proof -
  let ?k = "nat (2 * BITSIZE_DWORD (ref_bits x))"
  have "nat (ref_bits x) \<le> 32 * ?k"
    using BITSIZE_WORD_ge [of "ref_bits x"] BITSIZE_WORD_le_DWORD [of "ref_bits x"] by linarith
  then have "words_val (take ?k (ref_data x)) = nat \<bar>fst x\<bar>"
    by (rule take_ref_data) simp
  moreover have "2 ^ nat (ref_bits x - 1) \<le> nat \<bar>fst x\<bar>" if "fst x \<noteq> 0"
  proof -
    have "nat (ref_bits x - 1) = nat_bits (nat \<bar>fst x\<bar>) - 1"
      using that nat_bits_pos [of "nat \<bar>fst x\<bar>"] by (simp add: ref_bits_def)
    then show ?thesis using that nat_bits_lower [of "nat \<bar>fst x\<bar>"] by simp
  qed
  ultimately show ?thesis
    by (simp add: bn_norm_def ref_data_def ref_bits_def ref_sgn_def)
qed

lemma ref_out: "bn_out (ref_ipp z) y v r \<longleftrightarrow> y = (v, snd r)"
  by (cases y) (auto simp: bn_out_def)

lemma ref_put_fits: "fits (ref_ipp z) v r \<Longrightarrow> ref_put v r = (v, snd r)"
  by (simp add: ref_put_def fits_def)

lemma ref_inv_correct:
  assumes "0 < e" "e < m" "coprime e m"
  shows "e * ref_inv e m mod m = 1 mod m" "0 \<le> ref_inv e m" "ref_inv e m < m"
proof -
  have "int (gcd (nat e) (nat m)) = fst (bezw (nat e) (nat m)) * e + snd (bezw (nat e) (nat m)) * m"
    using bezw_aux [of "nat e" "nat m"] assms by simp
  moreover have "int (gcd (nat e) (nat m)) = 1"
    using assms by (simp add: coprime_iff_gcd_eq_1 gcd_int_def)
  ultimately have "e * fst (bezw (nat e) (nat m)) = 1 - snd (bezw (nat e) (nat m)) * m"
    by (simp add: mult.commute)
  then have "e * fst (bezw (nat e) (nat m)) mod m = 1 mod m"
    by (simp add: mod_eq_dvd_iff)
  then show "e * ref_inv e m mod m = 1 mod m"
    by (simp add: ref_inv_def mod_mult_right_eq)
  show "0 \<le> ref_inv e m" "ref_inv e m < m"
    using assms by (simp_all add: ref_inv_def)
qed

lemma ref_ops [simp]:
  "BigNumInit (ref_ipp z) len = (0, len)"
  "Set_BN (ref_ipp z) s len ws x = (signed s (words_val (take (nat len) ws)), snd x)"
  "Add_BN (ref_ipp z) a b r = ref_put (fst a + fst b) r"
  "Sub_BN (ref_ipp z) a b r = ref_put (fst a - fst b) r"
  "Mul_BN (ref_ipp z) a b r = ref_put (fst a * fst b) r"
  "Mod_BN (ref_ipp z) a b r = ref_put (fst a mod fst b) r"
  "Div_BN (ref_ipp z) a b q r = (ref_put (tdiv (fst a) (fst b)) q,
     ref_put (fst a - fst b * tdiv (fst a) (fst b)) r)"
  "ModInv_BN (ref_ipp z) a b r = ref_put (ref_inv (fst a) (fst b)) r"
  "Gcd_BN (ref_ipp z) a b r = ref_put (gcd (fst a) (fst b)) r"
  "CmpZero_BN (ref_ipp z) = ref_cmp"
  by (simp_all add: ref_ipp_def)

lemma ref_bits_abs: "\<bar>fst x\<bar> < 2 ^ nat (ref_bits x)"
  using nat_bits_ref [of x] by (simp add: nat_less_iff)

lemma ref_fits_bits: "\<bar>v\<bar> < 2 ^ nat k \<Longrightarrow> k \<le> 32 * snd r \<Longrightarrow> fits (ref_ipp z) v r"
  unfolding fits_def by (erule order_less_le_trans) (simp add: nat_mono power_increasing)

lemma ref_room_fits:
  assumes "int (bn_nw (ref_ipp z) b) \<le> snd r" "\<bar>v\<bar> \<le> \<bar>fst b\<bar>"
  shows "fits (ref_ipp z) v r"
proof (rule ref_fits_bits)
  show "\<bar>v\<bar> < 2 ^ nat (ref_bits b)" using ref_bits_abs [of b] assms(2) by simp
  have "BITSIZE_WORD (ref_bits b) \<le> snd r" using assms(1) by (simp add: bn_nw_def split: if_splits)
  then show "ref_bits b \<le> 32 * snd r" using BITSIZE_WORD_ge [of "ref_bits b"] by linarith
qed

lemma ref_tdiv_le: "\<bar>tdiv a b\<bar> \<le> \<bar>a\<bar>"
proof -
  have "\<bar>a\<bar> div \<bar>b\<bar> = int (nat \<bar>a\<bar> div nat \<bar>b\<bar>)" by (simp add: zdiv_int)
  moreover have "nat \<bar>a\<bar> div nat \<bar>b\<bar> \<le> nat \<bar>a\<bar>" by (rule div_le_dividend)
  ultimately have d: "0 \<le> \<bar>a\<bar> div \<bar>b\<bar>" "\<bar>a\<bar> div \<bar>b\<bar> \<le> \<bar>a\<bar>" by linarith+
  have "\<bar>tdiv a b\<bar> = \<bar>sgn a * sgn b\<bar> * (\<bar>a\<bar> div \<bar>b\<bar>)"
    using d(1) by (simp add: tdiv_def abs_mult)
  also have "\<dots> \<le> 1 * (\<bar>a\<bar> div \<bar>b\<bar>)"
    by (rule mult_right_mono [OF _ d(1)]) (simp add: abs_mult sgn_if)
  finally show ?thesis using d(2) by simp
qed

lemma ref_mul_fits:
  assumes "ref_bits a + ref_bits b \<le> 32 * snd r"
  shows "fits (ref_ipp z) (fst a * fst b) r"
proof (rule ref_fits_bits [OF _ assms])
  have "\<bar>fst a\<bar> * \<bar>fst b\<bar> < 2 ^ nat (ref_bits a) * 2 ^ nat (ref_bits b)"
    by (rule mult_strict_mono) (simp_all add: ref_bits_abs)
  then show "\<bar>fst a * fst b\<bar> < 2 ^ nat (ref_bits a + ref_bits b)"
    using ref_bits_pos [of a] ref_bits_pos [of b]
    by (simp add: abs_mult nat_add_distrib power_add)
qed

lemma ref_gcd_fits:
  assumes "0 < fst a" "0 < fst b" "int (min (bn_nw (ref_ipp z) a) (bn_nw (ref_ipp z) b)) \<le> snd r"
  shows "fits (ref_ipp z) (gcd (fst a) (fst b)) r"
proof -
  have "gcd (fst a) (fst b) \<le> fst a" "gcd (fst a) (fst b) \<le> fst b"
    using assms(1,2) by (simp_all add: zdvd_imp_le)
  moreover have "int (bn_nw (ref_ipp z) a) \<le> snd r \<or> int (bn_nw (ref_ipp z) b) \<le> snd r"
    using assms(3) by (auto simp: min_def split: if_splits)
  ultimately show ?thesis
    using assms(1,2) ref_room_fits [of z a r] ref_room_fits [of z b r] by auto
qed

theorem ref_ipp_ok: "ipp_ok (ref_ipp z)"
  unfolding ipp_ok_def
proof (intro conjI)
  let ?I = "ref_ipp z"
  show "ref_ok ?I"
    using ref_nw [of z] nat_bits_ref by (simp add: ref_ok_def ref_bits_pos ref_data_def)
  show "init_ok ?I" "set_ok ?I" "cmp_ok ?I"
    by (simp_all add: init_ok_def set_ok_def ref_out cmp_ok_def ref_cmp_def)
  show "add_ok ?I"
    unfolding add_ok_def ref_out ref_ops ref_val ref_ipp_sel by (metis ref_put_fits)
  show "sub_ok ?I"
    unfolding sub_ok_def ref_out ref_ops ref_val ref_ipp_sel by (metis ref_put_fits)
  show "mul_ok ?I"
    unfolding mul_ok_def ref_out ref_ops ref_val ref_ipp_sel by (simp add: ref_put_fits ref_mul_fits)
  show "mod_ok ?I"
    unfolding mod_ok_def ref_out ref_ops ref_val ref_ipp_sel
    by (metis abs_of_nonneg less_imp_le pos_mod_bound pos_mod_sign ref_put_fits ref_room_fits)
  show "div_ok ?I"
    unfolding div_ok_def ref_out ref_ops ref_val ref_ipp_sel fst_conv
    by (metis ref_put_fits ref_room_fits ref_tdiv_le)
  show "gcd_ok ?I"
    unfolding gcd_ok_def ref_out ref_ops ref_val ref_ipp_sel by (metis ref_put_fits ref_gcd_fits)
  show "modinv_ok ?I"
    unfolding modinv_ok_def ref_out ref_ops ref_val ref_ipp_sel
  proof (intro allI impI)
    fix e m r :: refbn
    assume a: "0 < fst e \<and> fst e < fst m \<and> coprime (fst e) (fst m) \<and> int (bn_nw ?I m) \<le> snd r"
    let ?v = "ref_inv (fst e) (fst m)"
    have "fits ?I ?v r" using a ref_inv_correct [of "fst e" "fst m"] by (intro ref_room_fits) auto
    then show "\<exists>v\<ge>0. v < fst m \<and> fst e * v mod fst m = 1 mod fst m \<and> ref_put ?v r = (v, snd r)"
      using a ref_inv_correct [of "fst e" "fst m"] by (simp add: ref_put_fits)
  qed
qed

section \<open>Modular exponentiation\<close>

fun powmod :: "int \<Rightarrow> nat \<Rightarrow> int \<Rightarrow> int" where
  "powmod b e m =
     (if e = 0 then 1 mod m
      else let h = powmod (b * b mod m) (e div 2) m in if odd e then b * h mod m else h)"

declare powmod.simps [simp del]

lemma powmod_power: "powmod b e m = b ^ e mod m"
proof (induction b e m rule: powmod.induct)
  case (1 b e m)
  show ?case
  proof (cases "e = 0")
    case False
    have sq: "powmod (b * b mod m) (e div 2) m = b ^ (2 * (e div 2)) mod m"
      using 1 False by (simp add: power_mod power_mult power2_eq_square)
    show ?thesis
    proof (cases "odd e")
      case True
      then have "e = Suc (2 * (e div 2))" by simp
      then have "b ^ e = b * b ^ (2 * (e div 2))" by (metis power_Suc)
      then show ?thesis
        using True False sq by (simp add: powmod.simps [of b e m] Let_def mod_mult_right_eq)
    next
      case even: False
      then show ?thesis using False sq by (simp add: powmod.simps [of b e m] Let_def)
    qed
  qed (simp add: powmod.simps)
qed

definition ref_mod :: "u8 list \<Rightarrow> int" where
  "ref_mod ctx = int (bytes_val ctx)"

definition ref_mbx :: "u32 list list \<Rightarrow> u32 list list \<Rightarrow> int \<Rightarrow> u32 list option list \<Rightarrow> int \<Rightarrow> int
    \<Rightarrow> int \<times> u32 list list" where
  "ref_mbx bases exps exp_bits mods mod_bits wsize =
     (let k = nat (2 * BITSIZE_DWORD mod_bits); j = nat (2 * BITSIZE_DWORD exp_bits)
      in (0, map (\<lambda>i. case mods ! i of None \<Rightarrow> replicate k 0
               | Some ws \<Rightarrow> limbs k (nat (powmod (int (words_val (take k (bases ! i))))
                   (words_val (take j (exps ! i))) (int (words_val (take k ws)))))) [0..<8]))"

definition ref_me :: "'z \<Rightarrow> (refbn, 'z) ipp_me_scheme" where
  "ref_me z = ref_ipp
     \<lparr>MontGetSize = (\<lambda>words. (ippStsNoErr, 4 * words)), MontInit = (\<lambda>words ctx. (ippStsNoErr, ctx)),
      MontSet = (\<lambda>ws words ctx. (ippStsNoErr, byte_limbs (4 * nat words) (words_val (take (nat words) ws)))),
      MontForm = (\<lambda>a ctx r. (ippStsNoErr, ref_put (fst a mod ref_mod ctx) r)),
      MontExp = (\<lambda>a e ctx r. if fst e < 0 then (- 1, r)
                   else (ippStsNoErr, ref_put (powmod (fst a) (nat (fst e)) (ref_mod ctx)) r)),
      MontMul = (\<lambda>a b ctx r. (ippStsNoErr, ref_put (fst a * fst b mod ref_mod ctx) r)),
      mbx_exp_BufferSize = (\<lambda>mod_bits. mod_bits), mbx_exp_mb8 = ref_mbx,
      MBX_GET_STS = (\<lambda>st i. MBX_STATUS_OK), Mont_mod = ref_mod, Mont_R = (\<lambda>ctx. 1), \<dots> = z\<rparr>"

lemma ref_me_ops [simp]:
  "MontGetSize (ref_me z) words = (ippStsNoErr, 4 * words)"
  "MontInit (ref_me z) words ctx = (ippStsNoErr, ctx)"
  "MontSet (ref_me z) ws words ctx =
     (ippStsNoErr, byte_limbs (4 * nat words) (words_val (take (nat words) ws)))"
  "MontForm (ref_me z) a ctx r = (ippStsNoErr, ref_put (fst a mod ref_mod ctx) r)"
  "MontExp (ref_me z) a e ctx r = (if fst e < 0 then (- 1, r)
     else (ippStsNoErr, ref_put (powmod (fst a) (nat (fst e)) (ref_mod ctx)) r))"
  "MontMul (ref_me z) a b ctx r = (ippStsNoErr, ref_put (fst a * fst b mod ref_mod ctx) r)"
  "mbx_exp_BufferSize (ref_me z) mod_bits = mod_bits"
  "mbx_exp_mb8 (ref_me z) = ref_mbx"
  "MBX_GET_STS (ref_me z) st i = MBX_STATUS_OK"
  "Mont_mod (ref_me z) = ref_mod"
  "Mont_R (ref_me z) ctx = 1"
  by (simp_all add: ref_me_def ref_ipp_def)

lemma ref_me_ref_ipp: "\<exists>y. ref_me z = ref_ipp y"
  by (auto simp: ref_me_def)

lemma ref_me_ipp_ok: "ipp_ok (ref_me z)"
  by (simp add: ref_me_def ref_ipp_ok)

lemma ref_me_val [simp]: "bn_val (ref_me z) x = fst x"
  and ref_me_out: "bn_out (ref_me z) y v r \<longleftrightarrow> y = (v, snd r)"
  and ref_me_put: "fits (ref_me z) v r \<Longrightarrow> ref_put v r = (v, snd r)"
  by (simp_all add: ref_me_def ref_out ref_put_fits)

lemma ref_me_fits_mod:
  assumes "0 < m" "fits (ref_me z) m r"
  shows "ref_put (v mod m) r = (v mod m, snd r)"
proof -
  have "\<bar>v mod m\<bar> < \<bar>m\<bar>" using assms(1) by simp
  then have "fits (ref_me z) (v mod m) r" using assms(2) by (simp add: fits_def)
  then show ?thesis by (rule ref_me_put)
qed

lemma ref_me_fits_pair:
  "0 < m \<Longrightarrow> fits (ref_me z) m (a, b) \<Longrightarrow> ref_put (v mod m) (a, b) = (v mod m, b)"
  using ref_me_fits_mod [of m z "(a, b)" v] by simp

lemma ref_mont_set: "mont_set_ok (ref_me z)"
  unfolding mont_set_ok_def
proof (intro allI impI)
  fix ws :: "u32 list" and words :: int
  assume a: "1 \<le> words \<and> words \<le> int (length ws) \<and> odd (words_val (take (nat words) ws))"
  have "words_val (take (nat words) ws) < 2 ^ (32 * nat words)"
    using words_val_bound [of "take (nat words) ws"] a by (simp add: min_absorb2 nat_le_iff)
  also have "(2::nat) ^ (32 * nat words) = 256 ^ (4 * nat words)"
    by (simp add: power_mult)
  finally show "\<exists>size ctx0 ctx. MontGetSize (ref_me z) words = (ippStsNoErr, size) \<and>
      MontInit (ref_me z) words (replicate (nat size) 0) = (ippStsNoErr, ctx0) \<and>
      MontSet (ref_me z) ws words ctx0 = (ippStsNoErr, ctx) \<and>
      Mont_mod (ref_me z) ctx = int (words_val (take (nat words) ws))"
    by (simp add: ref_mod_def bytes_val_byte_limbs)
qed

lemma ref_mont_ops: "mont_form_ok (ref_me z)" "mont_exp_ok (ref_me z)" "mont_mul_ok (ref_me z)"
  "mont_neg_ok (ref_me z)"
proof -
  show "mont_form_ok (ref_me z)"
    unfolding mont_form_ok_def
  proof (intro allI impI)
    fix a r :: refbn and ctx :: "u8 list"
    assume "0 \<le> bn_val (ref_me z) a \<and> bn_val (ref_me z) a < Mont_mod (ref_me z) ctx \<and>
      fits (ref_me z) (Mont_mod (ref_me z) ctx) r"
    then have "0 < ref_mod ctx" "fits (ref_me z) (ref_mod ctx) r" by simp_all
    from ref_me_fits_mod [OF this, of "fst a"]
    show "\<exists>y. MontForm (ref_me z) a ctx r = (ippStsNoErr, y) \<and> bn_out (ref_me z) y
        (bn_val (ref_me z) a * Mont_R (ref_me z) ctx mod Mont_mod (ref_me z) ctx) r"
      by (simp add: ref_me_out)
  qed
  show "mont_exp_ok (ref_me z)"
    by (auto simp: mont_exp_ok_def ref_me_out powmod_power power_mod intro!: ref_me_fits_pair)
  show "mont_mul_ok (ref_me z)"
    by (auto simp: mont_mul_ok_def ref_me_out mod_mult_left_eq intro!: ref_me_fits_pair)
  show "mont_neg_ok (ref_me z)"
    by (simp add: mont_neg_ok_def)
qed

lemma ref_mbx_ok: "mbx_ok (ref_me z)"
  unfolding mbx_ok_def
proof (intro allI impI)
  fix bases exps :: "u32 list list" and exp_bits mod_bits wsize :: int
    and mods :: "u32 list option list" and i b e m :: nat
  assume a: "length bases = 8 \<and> length exps = 8 \<and> length mods = 8 \<and> i < 8 \<and>
     mbx_exp_BufferSize (ref_me z) mod_bits \<le> wsize \<and>
     mbx_lane (bases ! i) (exps ! i) exp_bits (mods ! i) mod_bits b e m"
  let ?k = "nat (2 * BITSIZE_DWORD mod_bits)" and ?j = "nat (2 * BITSIZE_DWORD exp_bits)"
  obtain ws where ws: "mods ! i = Some ws" "words_val (take ?k ws) = m"
    and l: "words_val (take ?k (bases ! i)) = b" "words_val (take ?j (exps ! i)) = e"
    "1 < m" "m < 2 ^ nat mod_bits"
    using a unfolding mbx_lane_def by blast
  have "nat mod_bits \<le> 32 * ?k"
    using BITSIZE_WORD_ge [of mod_bits] BITSIZE_WORD_le_DWORD [of mod_bits] by linarith
  then have "b ^ e mod m < 2 ^ (32 * ?k)"
    using l(3,4) by (meson mod_less_divisor one_le_numeral order_less_le_trans order_less_trans
        power_increasing zero_less_one)
  moreover have "nat (powmod (int b) e (int m)) = b ^ e mod m"
    by (simp add: powmod_power flip: of_nat_power of_nat_mod)
  ultimately show "let (st, outs) = mbx_exp_mb8 (ref_me z) bases exps exp_bits mods mod_bits wsize
      in MBX_GET_STS (ref_me z) st i = MBX_STATUS_OK \<and> length outs = 8 \<and>
         length (outs ! i) = nat (2 * BITSIZE_DWORD mod_bits) \<and>
         words_val (outs ! i) = b ^ e mod m"
    using a ws l by (simp add: ref_mbx_def Let_def words_val_limbs)
qed

theorem ref_me_ok: "ipp_me_ok (ref_me z)"
  by (simp add: ipp_me_ok_def ref_me_ipp_ok ref_mont_set ref_mont_ops ref_mbx_ok)

end
