(* ===== verification/RefPrimes.thy ===== *)
theory RefPrimes
  imports NumTheory
begin

text \<open>
  Two primes of 100 bits for the witnesses of key generation, with the proof that they are
  primes: Proth's criterion, for numbers \<open>k * 2 ^ m + 1\<close> with \<open>k\<close> below \<open>2 ^ m\<close>, with a power
  computed by repeated squaring.
\<close>

section \<open>Proth's criterion\<close>

lemma odd_part: "0 < n \<Longrightarrow> \<exists>s t. n = 2 ^ s * t \<and> odd (t :: nat)"
proof (induction n rule: less_induct)
  case (less n)
  show ?case
  proof (cases "odd n")
    case True
    then show ?thesis by (intro exI [of _ 0] exI [of _ n]) simp
  next
    case False
    then obtain h where h: "n = 2 * h" by blast
    then have "h < n" "0 < h" using less.prems by simp_all
    from less.IH [OF this] obtain s t where "h = 2 ^ s * t" "odd t" by (elim exE conjE)
    then show ?thesis using h by (intro exI [of _ "Suc s"] exI [of _ t]) simp
  qed
qed

lemma least_factor:
  assumes "1 < (n :: int)" "\<not> is_prime n"
  shows "\<exists>r. is_prime r \<and> r dvd n \<and> r * r \<le> n"
proof -
  let ?P = "\<lambda>d. 2 \<le> d \<and> int d dvd n"
  define d where "d = (LEAST d. ?P d)"
  from assms obtain e where e: "2 \<le> e" "e < n" "e dvd n" by (auto simp: is_prime_def)
  have ex: "?P (nat e)" using e by simp
  have d: "2 \<le> d" "int d dvd n" unfolding d_def using LeastI [of ?P, OF ex] by simp_all
  have least: "d \<le> k" if "2 \<le> k" "int k dvd n" for k
    unfolding d_def by (rule Least_le) (use that in simp)
  have "is_prime (int d)"
  proof -
    have "\<not> c dvd int d" if "2 \<le> c" "c < int d" for c
      using least [of "nat c"] that d(2) dvd_trans by fastforce
    then show ?thesis using d(1) by (simp add: is_prime_def)
  qed
  moreover obtain k where k: "n = int d * k" using d(2) by blast
  have "0 < int d" using d(1) by simp
  then have "0 < k" using k assms(1) by (metis less_trans zero_less_mult_pos zero_less_one)
  have "d \<le> nat e" by (rule least) (use e in simp_all)
  then have "int d < n" using e by linarith
  then have "k \<noteq> 1" using k by auto
  then have "int d \<le> k" using \<open>0 < k\<close> least [of "nat k"] k by fastforce
  then have "int d * int d \<le> n" unfolding k using d(1) by (intro mult_left_mono) simp_all
  ultimately show ?thesis using d(2) by blast
qed

lemma proth_factor:
  assumes r: "is_prime r" "odd r" and b: "r dvd b ^ 2 ^ m + 1"
  shows "2 ^ Suc m dvd r - 1"
proof -
  have r1: "1 < r" by (rule is_prime_gt_1 [OF r(1)])
  obtain s t where st: "nat (r - 1) = 2 ^ s * t" "odd t" using odd_part [of "nat (r - 1)"] r1 by auto
  have nb: "\<not> r dvd b"
  proof
    assume "r dvd b"
    then have "r dvd b ^ 2 ^ m" by (meson dvd_power dvd_trans zero_less_numeral zero_less_power)
    then have "r dvd 1" using b by (simp add: dvd_add_right_iff)
    then show False using r1 by (simp add: zdvd1_eq)
  qed
  have "Suc m \<le> s"
  proof (rule ccontr)
    assume "\<not> Suc m \<le> s"
    then have e: "2 ^ m * t = 2 ^ s * t * 2 ^ (m - s)" by (simp add: power_add [symmetric])
    have "nat r - 1 = 2 ^ s * t" using st(1) r1 by (simp add: nat_diff_distrib)
    then have "r dvd b ^ (2 ^ s * t) - 1" using fermat [OF r(1) nb] by simp
    then have "b ^ (2 ^ s * t) mod r = 1" using r1 by (simp add: mod_eq_dvd_iff [symmetric])
    then have one: "b ^ (2 ^ m * t) mod r = 1" unfolding e power_mult [of b "2 ^ s * t"]
      using r1 by (metis mod_pos_pos_trivial power_mod power_one zero_le_one)
    have "b ^ 2 ^ m mod r = (- 1) mod r" using b by (simp add: mod_eq_dvd_iff)
    then have "b ^ (2 ^ m * t) mod r = (- 1) ^ t mod r" unfolding power_mult by (metis power_mod)
    then have "1 mod r = (- 1) mod r" using one st(2) r1 by simp
    then have "r dvd 2" by (simp add: mod_eq_dvd_iff)
    then have "r = 2" using r1 by (auto dest: zdvd_imp_le)
    then show False using r(2) by simp
  qed
  then have "(2 :: nat) ^ Suc m dvd 2 ^ s" by (rule le_imp_power_dvd)
  then have "2 ^ Suc m dvd nat (r - 1)" unfolding st(1) by (rule dvd_mult2)
  then have "int (2 ^ Suc m) dvd int (nat (r - 1))" by (simp only: of_nat_dvd_iff)
  then show ?thesis using r1 by simp
qed

lemma proth:
  assumes n: "n = k * 2 ^ Suc m + 1" "0 < k" "k < 2 ^ Suc m" and a: "a ^ (nat k * 2 ^ m) mod n = n - 1"
  shows "is_prime n"
proof (rule ccontr)
  assume p: "\<not> is_prime n"
  have n1: "1 < n" using n(1,2) by simp
  obtain r where r: "is_prime r" "r dvd n" "r * r \<le> n" using least_factor [OF n1 p] by blast
  have r1: "1 < r" by (rule is_prime_gt_1 [OF r(1)])
  have "odd n" using n(1) by simp
  then have o: "odd r" using r(2) dvd_trans by blast
  have "a ^ (nat k * 2 ^ m) mod n = (- 1) mod n" using a n1 by (simp add: zmod_minus1)
  then have "n dvd (a ^ nat k) ^ 2 ^ m + 1" by (simp add: mod_eq_dvd_iff power_mult)
  then have "r dvd (a ^ nat k) ^ 2 ^ m + 1" using r(2) dvd_trans by blast
  then have "2 ^ Suc m dvd r - 1" by (rule proth_factor [OF r(1) o])
  then have "2 ^ Suc m \<le> r - 1" using r1 by (intro zdvd_imp_le) simp_all
  then have g: "(2 :: int) ^ Suc m < r" by simp
  then have "2 ^ Suc m * 2 ^ Suc m < r * r" using r1 by (intro mult_strict_mono) simp_all
  moreover have "n \<le> 2 ^ Suc m * 2 ^ Suc m"
  proof -
    have "(k + 1) * 2 ^ Suc m \<le> 2 ^ Suc m * 2 ^ Suc m" using n(3) by (intro mult_right_mono) simp_all
    moreover have "(1 :: int) \<le> 2 ^ Suc m" by (rule one_le_power) simp
    ultimately show ?thesis unfolding n(1) distrib_right mult_1 by linarith
  qed
  ultimately show False using r(3) by linarith
qed

section \<open>The primes\<close>

fun squarings :: "int \<Rightarrow> nat \<Rightarrow> int \<Rightarrow> int" where
  "squarings n 0 x = x"
| "squarings n (Suc k) x = squarings n k (x * x mod n)"

lemma squarings_power: "squarings n k (x mod n) = x ^ 2 ^ k mod n"
proof (induction k arbitrary: x)
  case (Suc k)
  have "squarings n (Suc k) (x mod n) = squarings n k ((x * x) mod n)" by (simp add: mod_mult_eq)
  also have "\<dots> = (x * x) ^ 2 ^ k mod n" by (rule Suc)
  finally show ?case by (simp add: power_mult [symmetric] power2_eq_square [symmetric])
qed simp

lemma proth_squarings:
  assumes "n = k * 2 ^ Suc m + 1" "0 < k" "k < 2 ^ Suc m" "squarings n m (a ^ nat k mod n) = n - 1"
  shows "is_prime n"
  by (rule proth [OF assms(1-3)]) (use assms(4) in \<open>simp add: squarings_power power_mult\<close>)

definition ref_p :: int where "ref_p = 63 * 2 ^ 94 + 1"

definition ref_q :: int where "ref_q = 235 * 2 ^ 92 + 1"

text \<open>The powers are computed in four parts.\<close>

lemma squarings_add: "squarings n j x = y \<Longrightarrow> squarings n k y = z \<Longrightarrow> squarings n (j + k) x = z"
  by (induction j arbitrary: x) simp_all

lemma ref_p_part_1: "squarings ref_p 24 528517124384735804631890378435 = 135790126125035011362967641041"
  unfolding ref_p_def by code_simp

lemma ref_p_part_2: "squarings ref_p 24 135790126125035011362967641041 = 332532556716800655485617346379"
  unfolding ref_p_def by code_simp

lemma ref_p_part_3: "squarings ref_p 24 332532556716800655485617346379 = 953647063768237727288766112125"
  unfolding ref_p_def by code_simp

lemma ref_p_part_4: "squarings ref_p 21 953647063768237727288766112125 = 1247843559599663317098317217792"
  unfolding ref_p_def by code_simp

lemma ref_p_prime: "is_prime ref_p"
proof (rule proth_squarings [of _ 63 93 5])
  have "squarings ref_p (24 + 24 + 24 + 21) 528517124384735804631890378435 = 1247843559599663317098317217792"
    by (intro squarings_add) (rule ref_p_part_1 ref_p_part_2 ref_p_part_3 ref_p_part_4)+
  moreover have "5 ^ nat 63 mod ref_p = 528517124384735804631890378435" by (simp add: ref_p_def)
  ultimately show "squarings ref_p 93 (5 ^ nat 63 mod ref_p) = ref_p - 1" by (simp add: ref_p_def)
qed (simp_all add: ref_p_def)

lemma ref_q_part_1: "squarings ref_q 23 999863467926876975658075044755 = 184399379246006119919492587493"
  unfolding ref_q_def by code_simp

lemma ref_q_part_2: "squarings ref_q 23 184399379246006119919492587493 = 1065016038748664356629291313846"
  unfolding ref_q_def by code_simp

lemma ref_q_part_3: "squarings ref_q 23 1065016038748664356629291313846 = 808163693819211366094667171739"
  unfolding ref_q_def by code_simp

lemma ref_q_part_4: "squarings ref_q 22 808163693819211366094667171739 = 1163663636928257458405176770560"
  unfolding ref_q_def by code_simp

lemma ref_q_prime: "is_prime ref_q"
proof (rule proth_squarings [of _ 235 91 3])
  have "squarings ref_q (23 + 23 + 23 + 22) 999863467926876975658075044755 = 1163663636928257458405176770560"
    by (intro squarings_add) (rule ref_q_part_1 ref_q_part_2 ref_q_part_3 ref_q_part_4)+
  moreover have "3 ^ nat 235 mod ref_q = 999863467926876975658075044755" by (simp add: ref_q_def)
  ultimately show "squarings ref_q 91 (3 ^ nat 235 mod ref_q) = ref_q - 1" by (simp add: ref_q_def)
qed (simp_all add: ref_q_def)

end
