(* ===== verification/RefEnv.thy ===== *)
theory RefEnv
  imports KeyGen IppReference RefPrimes
begin

text \<open>
  A concrete environment for the witnesses: the library of \<open>IppReference\<close>, and generators
  that take their numbers from a list. It meets the contract \<open>env_ok\<close>, so the contract is
  not empty. It also holds the small key pair the witnesses use.
\<close>

section \<open>The environment\<close>

definition pop :: "int list \<Rightarrow> int \<times> int list" where
  "pop r = (case r of [] \<Rightarrow> (1, []) | x # xs \<Rightarrow> (x, xs))"

definition ref_config :: "bool \<Rightarrow> bool \<Rightarrow> config" where
  "ref_config qat omp = \<lparr>use_qat = qat, use_omp = omp, runtime_detect = False, crypto_mb = True,
     rng_instr_rdseed = True, rng_instr_rdrand = False, num_nodes = 1, num_threads = Some 4,
     feat_avx512ifma = False, feat_rdseed = True, feat_rdrnd = True, disable_avx512ifma = False,
     prefer_rdrand = False, prefer_ipp_prng = False, hardware_concurrency = 4\<rparr>"

definition ref_gen :: "int \<Rightarrow> refbn \<Rightarrow> int list \<Rightarrow> (int \<times> refbn) \<times> int list" where
  "ref_gen bits x r = (let (v, r) = pop r in ((0, ref_put (v mod 2 ^ nat bits) x), r))"

definition ref_prime_gen :: "refbn \<Rightarrow> int \<Rightarrow> u8 list \<times> int list \<Rightarrow> (int \<times> refbn) \<times> (u8 list \<times> int list)" where
  "ref_prime_gen b bits s =
     (let (v, r) = pop (snd s) in if 2 ^ nat (bits - 1) < v \<and> v < 2 ^ nat bits \<and> odd v \<and> bits \<le> 32 * snd b
       then ((0, ref_put v b), (fst s, r)) else ((1, b), (fst s, r)))"

definition ref_batch :: "refbn list \<Rightarrow> refbn list \<Rightarrow> refbn list \<Rightarrow> nat \<Rightarrow> refbn list result" where
  "ref_batch bs es ms k =
     Inr (map (\<lambda>((b, e), m). (powmod (fst b) (nat (fst e)) (fst m), snd m)) (zip (zip bs es) ms))"

definition ref_env :: "bool \<Rightarrow> bool \<Rightarrow> (refbn, int list) env" where
  "ref_env qat omp = ref_me
     \<lparr>Config = ref_config qat omp, heQatBnModExp_MT = ref_batch,
      BigNumGetSize_stat = (\<lambda>_. 0), BigNumInit_stat = (\<lambda>_. 0),
      TRNGenRDSEED_BN = ref_gen, PRNGenRDRAND_BN = ref_gen,
      PRNGen_BN = (\<lambda>bits x prng. (0, ref_put (int (bytes_val prng) mod 2 ^ nat bits) x)),
      TRNGenRDSEED = (\<lambda>bits ws r. ((0, ws), r)), PRNGenRDRAND = (\<lambda>bits ws r. ((0, ws), r)),
      PRNGen = (\<lambda>bits ws ctx. ((0, ws), ctx)), PRNGGetSize = 4, PRNGInit = (\<lambda>n ctx. ctx),
      PRNGSetSeed = (\<lambda>x ctx. ctx), random_device = (\<lambda>r. (0, r)), mt19937 = (\<lambda>seed i. of_nat i),
      PrimeGetSize = (\<lambda>bits. bits), PrimeGen_BN = (\<lambda>b bits trials gen s. ref_prime_gen b bits s)\<rparr>"

lemma ref_env_ref_me: "\<exists>y. ref_env qat omp = ref_me y"
  by (auto simp: ref_env_def)

lemma ref_env_sel [simp]:
  "Config (ref_env qat omp) = ref_config qat omp" "heQatBnModExp_MT (ref_env qat omp) = ref_batch"
  "BigNumGetSize_stat (ref_env qat omp) len = 0" "BigNumInit_stat (ref_env qat omp) len = 0"
  "TRNGenRDSEED_BN (ref_env qat omp) = ref_gen" "PRNGenRDRAND_BN (ref_env qat omp) = ref_gen"
  "PRNGen_BN (ref_env qat omp) bits x prng = (0, ref_put (int (bytes_val prng) mod 2 ^ nat bits) x)"
  "PrimeGetSize (ref_env qat omp) bits = bits"
  "PrimeGen_BN (ref_env qat omp) b bits trials gen s = ref_prime_gen b bits s"
  by (simp_all add: ref_env_def ref_me_def ref_ipp_def)

lemma ref_config_sel [simp]: "use_qat (ref_config qat omp) = qat" "use_omp (ref_config qat omp) = omp"
  by (simp_all add: ref_config_def)

lemma ref_env_val [simp]: "bn_val (ref_env qat omp) x = fst x" "Room (ref_env qat omp) x = snd x"
  by (simp_all add: ref_env_def ref_me_def)

lemma ref_env_me_ok: "ipp_me_ok (ref_env qat omp)"
  by (simp add: ref_env_def ref_me_ok)

lemma ref_put_bits: "bits \<le> 32 * snd x \<Longrightarrow> ref_put (v mod 2 ^ nat bits) x = (v mod 2 ^ nat bits, snd x)"
proof -
  assume b: "bits \<le> 32 * snd x"
  have "v mod 2 ^ nat bits < 2 ^ nat bits" by simp
  also have "\<dots> \<le> 2 ^ nat (32 * snd x)" using b by (intro power_increasing) simp_all
  finally show ?thesis by (simp add: ref_put_def)
qed

lemma ref_env_rng_ok: "rng_ok (ref_env qat omp)"
  by (simp add: rng_ok_def drawn_def ref_gen_def ref_put_bits ippStsNoErr_def split: prod.splits)

theorem ref_env_ok: "env_ok (ref_env False omp)"
  by (simp add: env_ok_def cpu_ok_def ref_env_me_ok ref_env_rng_ok)

section \<open>A small key pair\<close>

text \<open>The primes 5 and 7; 40 and 10 show that the numbers are taken modulo 35.\<close>

lemma is_prime_5_7: "is_prime 5" "is_prime 7"
  unfolding is_prime_def by code_simp+

lemma valid_pq_5_7: "valid_pq 5 7"
  using is_prime_5_7 by (simp add: valid_pq_def)

definition ref_world :: "int list \<Rightarrow> int list world" where
  "ref_world r = \<lparr>hyb_ratio = 0, hyb_mode = OPTIMAL, rng = r\<rparr>"

definition ref_pk :: "refbn pubkey" where
  "ref_pk = projr (fst (PublicKey_new (ref_env False True) 0 (35, 2) 6 False (ref_world [])))"

definition ref_sk :: "refbn prikey" where
  "ref_sk = projr (PrivateKey_pk (ref_env False True) ref_pk (7, 1) (5, 1))"

lemma ref_pk_run: "PublicKey_new (ref_env False True) 0 (35, 2) 6 False w = (Inr ref_pk, w)"
  and ref_pk_ok: "pk_inv (ref_env False True) ref_pk" "fst (pk_n ref_pk) = 35" "\<not> pk_testv ref_pk"
    "\<not> pk_enable_DJN ref_pk"
proof -
  have i: "ipp_ok (ref_env False True)" using ref_env_ok [of True] by simp
  have n: "1 < bn_val (ref_env False True) (35, 2)" "odd (bn_val (ref_env False True) (35, 2))" "1 \<le> (6::int)"
    by simp_all
  obtain pk where pk: "PublicKey_new (ref_env False True) 0 (35, 2) 6 False (ref_world []) = (Inr pk, ref_world [])"
    "pk_inv (ref_env False True) pk" "bn_val (ref_env False True) (pk_n pk) = bn_val (ref_env False True) (35, 2)"
    "pk_bits pk = 6" "\<not> pk_enable_DJN pk" "\<not> pk_testv pk"
    by (rule PublicKey_new_normal [OF i n, where fuel = 0 and w = "ref_world []"])
  have e: "ref_pk = pk" by (simp add: ref_pk_def pk(1))
  show "pk_inv (ref_env False True) ref_pk" "fst (pk_n ref_pk) = 35" "\<not> pk_testv ref_pk"
    "\<not> pk_enable_DJN ref_pk"
    using pk(2,3,5,6) by (simp_all add: e)
  show "PublicKey_new (ref_env False True) 0 (35, 2) 6 False w = (Inr ref_pk, w)"
    using pk(1) by (simp add: e PublicKey_new_def Let_def)
qed

lemma ref_sk_run: "PrivateKey_pk (ref_env False True) ref_pk (7, 1) (5, 1) = Inr ref_sk"
  and ref_sk_ok: "sk_inv (ref_env False True) ref_sk 5 7"
proof -
  let ?E = "ref_env False True"
  have "pk_core ?E ref_pk" using ref_pk_ok(1) by (simp add: pk_inv_def)
  from PrivateKey_pk_ok [OF ref_env_me_ok this, of "(7, 1)" "(5, 1)"] valid_pq_sym [OF valid_pq_5_7] ref_pk_ok(2)
  obtain sk where sk: "PrivateKey_pk ?E ref_pk (7, 1) (5, 1) = Inr sk" "sk_inv ?E sk 5 7" by auto
  have e: "ref_sk = sk" by (simp add: ref_sk_def sk(1))
  show "PrivateKey_pk ?E ref_pk (7, 1) (5, 1) = Inr ref_sk" "sk_inv ?E ref_sk 5 7" using sk by (simp_all add: e)
qed

definition ref_pt :: "refbn base_text" where
  "ref_pt = BaseText_u32s (ref_env False True) [40, 10]"

lemma ref_pt_ok: "text_inv ref_pt" "text_vals (ref_env False True) ref_pt = [40, 10]"
  "m_size ref_pt = 2" "length (m_texts ref_pt) = 2"
proof -
  have i: "ipp_ok (ref_env False True)" using ref_env_ok [of True] by simp
  show "text_inv ref_pt" "text_vals (ref_env False True) ref_pt = [40, 10]"
    by (simp_all add: ref_pt_def text_vals_simps [OF i])
  show "m_size ref_pt = 2" "length (m_texts ref_pt) = 2"
    by (simp_all add: ref_pt_def BaseText_u32s_def size_of_def Let_def)
qed

text \<open>Ciphertexts of these numbers, without and with obfuscation by 2 and 3.\<close>

definition ref_ct :: "refbn ciphertext" where
  "ref_ct = projr (fst (encrypt (ref_env False True) ref_pk ref_pt False (ref_world [])))"

lemma ref_ct_ok: "encrypt (ref_env False True) ref_pk ref_pt False w = (Inr ref_ct, w)"
  "ct_enc (ref_env False True) ref_ct [40, 10]" "ct_n (ref_env False True) ref_ct = 35"
proof -
  let ?E = "ref_env False True"
  have sz: "0 < m_size ref_pt" by (simp add: ref_pt_ok)
  have *: "\<exists>ct. encrypt ?E ref_pk ref_pt False w = (Inr ct, w) \<and> ct_enc ?E ct [40, 10] \<and>
      m_pk ct = PublicKey_copy ?E ref_pk" for w
    using encrypt_plain_enc [OF ref_env_ok ref_pk_ok(1) ref_pt_ok(1) sz] ref_pt_ok(2) by metis
  have r: "raw_encrypt ?E ref_pk ts False w = (fst (raw_encrypt ?E ref_pk ts False (ref_world [])), w)" for w ts
    by (simp add: raw_encrypt_def Let_def retP_def)
  obtain ct where ct: "encrypt ?E ref_pk ref_pt False (ref_world []) = (Inr ct, ref_world [])"
    "ct_enc ?E ct [40, 10]" "m_pk ct = PublicKey_copy ?E ref_pk"
    using * [of "ref_world []"] by blast
  have e: "ref_ct = ct" by (simp add: ref_ct_def ct(1))
  show "ct_enc ?E ref_ct [40, 10]" "ct_n ?E ref_ct = 35"
    using ct(2,3) ref_pk_ok(2) by (simp_all add: e ct_n_def)
  obtain ct' where ct': "encrypt ?E ref_pk ref_pt False w = (Inr ct', w)" using * [of w] by blast
  have "\<exists>cs. \<forall>w. raw_encrypt ?E ref_pk (getTexts ?E ref_pt) False w = (Inr cs, w)"
    by (simp add: raw_encrypt_def Let_def)
  then obtain cs where "raw_encrypt ?E ref_pk (getTexts ?E ref_pt) False w = (Inr cs, w)" for w by blast
  then have "encrypt ?E ref_pk ref_pt False w = (Inr (CipherText_bns ?E ref_pk cs), w)" for w
    by (rule encrypt_run [OF ref_env_ok ref_pk_ok(1) sz])
  then show "encrypt ?E ref_pk ref_pt False w = (Inr ref_ct, w)" using ct(1) by (simp add: e)
qed

text \<open>A secure encryption succeeds: the numbers 1 and 2 are drawn, which gives 2 and 3.\<close>

lemma ref_getRandomBN:
  assumes "1 \<le> bits"
  shows "\<exists>y. getRandomBN (ref_env qat omp) bits w = (Inr y, w\<lparr>rng := snd (pop (rng w))\<rparr>) \<and>
    fst y = fst (pop (rng w)) mod 2 ^ nat bits"
proof -
  let ?E = "ref_env qat omp"
  have i: "ipp_ok ?E" using ref_env_me_ok by (simp add: ipp_me_ok_def)
  have l: "1 \<le> BITSIZE_WORD bits" by (rule BITSIZE_WORD_pos [OF assms])
  have "BITSIZE_WORD bits \<le> Room ?E (BigNumInit ?E (BITSIZE_WORD bits))"
    using i l unfolding ipp_ok_def init_ok_def by blast
  then have r: "bits \<le> 32 * snd (BigNumInit ?E (BITSIZE_WORD bits))"
    using BITSIZE_WORD_ge [of bits] by simp
  have k: "kRNGenType (ref_config qat omp) = RDSEED"
    by (simp add: kRNGenType_def ref_config_def)
  let ?v = "fst (pop (rng w)) mod 2 ^ nat bits" and ?x = "BigNumInit ?E (BITSIZE_WORD bits)"
  have "ippGenRandomBN ?E ?x bits (rng w) = ((0, (?v, snd ?x)), snd (pop (rng w)))"
    by (simp add: ippGenRandomBN_def k ref_gen_def ref_put_bits [OF r] ippStsNoErr_def split: prod.splits)
  then have "getRandomBN ?E bits w = (Inr (BigNumber_copy ?E (?v, snd ?x)), w\<lparr>rng := snd (pop (rng w))\<rparr>)"
    by (simp add: getRandomBN_def Let_def bindP_def on_rng_def ippStsNoErr_def)
  then show ?thesis using copy_val [OF i, of "(?v, snd ?x)"] by simp
qed

lemma ref_secure: "\<exists>ct. encrypt (ref_env False True) ref_pk ref_pt True (ref_world [1, 2]) = (Inr ct, ref_world [])"
proof -
  let ?E = "ref_env False True"
  have ok: "env_ok ?E" and i: "ipp_ok ?E" using ref_env_ok [of True] by simp_all
  have core: "pk_core ?E ref_pk" using ref_pk_ok(1) by (simp add: pk_inv_def)
  have b: "1 \<le> pk_bits ref_pk" using core by (simp add: pk_core_def)
  obtain y where y: "getRandomBN ?E (pk_bits ref_pk) (ref_world [1, 2]) = (Inr y, ref_world [2])"
    using ref_getRandomBN [OF b, of False True "ref_world [1, 2]"] by (auto simp: ref_world_def pop_def)
  obtain z where z: "getRandomBN ?E (pk_bits ref_pk) (ref_world [2]) = (Inr z, ref_world [])"
    using ref_getRandomBN [OF b, of False True "ref_world [2]"] by (auto simp: ref_world_def pop_def)
  let ?r = "[normal_draw ?E (pk_n ref_pk) y, normal_draw ?E (pk_n ref_pk) z]"
  have t: "test_range ?E ref_pk (bn_val ?E x)" if "x \<in> set ?r" for x
    by (rule draw_test_range [OF ref_pk_ok(1)])
      (use that normal_draw_val(2,3) [OF i core, of y] normal_draw_val(2,3) [OF i core, of z] in
        \<open>auto simp: draw_range_def ref_pk_ok(4) simp del: ref_env_val\<close>)
  obtain os where os: "modExp ?E ?r (replicate 2 (BigNumber_copy ?E (pk_n ref_pk)))
      (replicate 2 (BigNumber_copy ?E (pk_nsquare ref_pk))) (ref_world []) = (Inr os, ref_world [])"
    "map (bn_val ?E) os = map (\<lambda>x. obf_val ?E ref_pk (bn_val ?E x)) ?r"
    by (rule normal_powers [OF ok ref_pk_ok(1,4), of ?r 2 "ref_world []"]) (use t in simp_all)
  have "[0..<2] = [0, 1]" by (simp add: upt_rec)
  then have "obfuscator ?E ref_pk (length (m_texts ref_pt)) (ref_world [1, 2]) = (Inr os, ref_world [])"
    using os(1) by (simp add: obfuscator_def getNormalObfuscator_def ref_pk_ok bindP_def y z ref_pt_ok Let_def)
  then obtain ct where "encrypt ?E ref_pk ref_pt True (ref_world [1, 2]) = (Inr ct, ref_world [])"
    using encrypt_secure_os [OF ok ref_pk_ok(1) ref_pt_ok(1) _ _, of "ref_world [1, 2]" os "ref_world []"
      "map (bn_val ?E) ?r"] os(2) by (auto simp: ref_pt_ok simp del: ref_env_val)
  then show ?thesis by blast
qed

section \<open>Key generation\<close>

lemma ref_env_prime_ok: "prime_ok (ref_env qat omp)"
  unfolding prime_ok_def
proof (intro allI impI)
  fix x :: refbn and bits :: int and s stat y s'
  assume a: "2 \<le> bits \<and> bits \<le> 32 * Room (ref_env qat omp) x \<and>
    PrimeGen_BN (ref_env qat omp) x bits 10 (ippGenRandom (ref_env qat omp)) s = ((stat, y), s')"
  obtain v r where p: "pop (snd s) = (v, r)" by (metis prod.collapse)
  have put: "ref_put v x = (v, snd x)" if "2 ^ nat (bits - 1) < v" "v < 2 ^ nat bits"
  proof -
    have "0 < (2 :: int) ^ nat (bits - 1)" by simp
    then have "0 < v" using that(1) by linarith
    then show ?thesis using a that(2) ref_put_bits [of bits x v] by simp
  qed
  let ?c = "2 ^ nat (bits - 1) < v \<and> v < 2 ^ nat bits \<and> odd v"
  have "if ?c then y = ref_put v x \<and> stat = 0 else y = x \<and> stat = 1"
    using a by (auto simp: ref_prime_gen_def p split: if_splits)
  then show "Room (ref_env qat omp) y = Room (ref_env qat omp) x \<and>
      (stat = ippStsNoErr \<longrightarrow> 2 ^ nat (bits - 1) < bn_val (ref_env qat omp) y \<and>
        bn_val (ref_env qat omp) y < 2 ^ nat bits \<and> odd (bn_val (ref_env qat omp) y))"
    using put by (cases ?c) (simp_all add: ippStsNoErr_def)
qed

lemma ref_getPrimeBN:
  assumes b: "8 \<le> bits" and v: "prime_sized bits v"
  shows "\<exists>y. getPrimeBN (ref_env qat omp) (Suc k) bits (ref_world (v # r)) = (Inr y, ref_world r) \<and> fst y = v"
proof -
  let ?E = "ref_env qat omp"
  have i: "ipp_ok ?E" using ref_env_me_ok by (simp add: ipp_me_ok_def)
  let ?x = "BigNumber_data ?E None (bits div 8) IppsBigNumPOS"
  have room: "bits \<le> 32 * snd ?x" using prime_room [OF i b] by simp
  have "kRNGenType (ref_config qat omp) = RDSEED" by (simp add: kRNGenType_def ref_config_def)
  then have p: "rand_param ?E n s = ([], s)" for n s by (simp add: rand_param_def)
  have "0 < v" using prime_sized_gt_1 [OF v] by simp
  then have put: "ref_put v ?x = (v, snd ?x)" using v room ref_put_bits [of bits ?x v] by (simp add: prime_sized_def)
  have "ref_prime_gen ?x bits ([], v # r) = ((0, (v, snd ?x)), ([], r))"
    using v room put by (simp add: ref_prime_gen_def pop_def prime_sized_def)
  then show ?thesis by (simp add: getPrimeBN_def p ref_world_def ippStsNoErr_def)
qed

lemma ref_pq: "prime_sized 100 ref_p" "prime_sized 100 ref_q" "1 < \<bar>ref_p - ref_q\<bar>" "ref_p \<noteq> ref_q"
  "2 ^ 199 \<le> ref_p * ref_q" "ref_p * ref_q < 2 ^ 200"
  by (simp_all add: prime_sized_def ref_p_def ref_q_def)

lemma ref_generate:
  "\<exists>pk sk. generateKeypair (ref_env False True) 1 200 False (ref_world [ref_p, ref_q]) = (Inr (pk, sk), ref_world []) \<and>
    fst (pk_n pk) = ref_p * ref_q"
proof -
  let ?E = "ref_env False True"
  obtain x where x: "getPrimeBN ?E (Suc 0) (200 div 2) (ref_world [ref_p, ref_q]) = (Inr x, ref_world [ref_q])" "fst x = ref_p"
    using ref_getPrimeBN [OF _ ref_pq(1), of False True 0 "[ref_q]"] by auto
  obtain y where y: "getPrimeBN ?E (Suc 0) (200 div 2) (ref_world [ref_q]) = (Inr y, ref_world [])" "fst y = ref_q"
    using ref_getPrimeBN [OF _ ref_pq(2), of False True 0 "[]"] by auto
  have "\<exists>pk sk. generateKeypair ?E (Suc 0) 200 False (ref_world [ref_p, ref_q]) = (Inr (pk, sk), ref_world []) \<and>
      bn_val ?E (pk_n pk) = bn_val ?E x * bn_val ?E y"
    by (rule generateKeypair_normal_first [OF ref_env_ok _ _ _ x(1) y(1)])
      (use ref_pq x(2) y(2) in simp_all)
  then show ?thesis by (simp add: x(2) y(2))
qed

end
