(* ===== verification/KeyProperties.thy ===== *)
theory KeyProperties
  imports RefEnv
begin

text \<open>
  What a client of the keys relies on: how private keys are built and when their construction
  fails, that both ways to decrypt agree, what a generated pair of keys is, and how the DJN
  parameter is found. The properties rest on the lemmas of \<open>PubKey\<close>, \<open>PriKey\<close> and \<open>KeyGen\<close>;
  the witnesses use the environment and the small keys of \<open>RefEnv\<close>.
\<close>

lemma ref_env_ipp_ok: "ipp_ok (ref_env False omp)" "ipp_me_ok (ref_env False omp)"
  using ref_env_ok [of omp] by simp_all

lemma ref_pk_core: "pk_core (ref_env False True) ref_pk"
  using ref_pk_ok(1) by (simp add: pk_inv_def)

section \<open>Private keys\<close>

text \<open>
  C13: a private key built from a public key and its two primes, given in either order, is
  initialised, decrypts with the remainder theorem by default and meets the invariant of
  private keys: its fields are the squares, inverses and Paillier constants of the ordered
  primes.
\<close>

theorem PrivateKey_built:
  assumes "ipp_me_ok I" "pk_core I pk" "valid_pq (bn_val I p) (bn_val I q)"
    and "bn_val I (pk_n pk) = bn_val I p * bn_val I q"
  shows "\<exists>sk sk'. PrivateKey_pk I pk p q = Inr sk \<and> PrivateKey_pk I pk q p = Inr sk' \<and>
    sk_enable_crt sk \<and> sk_enable_crt sk' \<and> sk_n sk = pk_n pk \<and> sk_n sk' = pk_n pk \<and>
    sk_inv I sk (min (bn_val I p) (bn_val I q)) (max (bn_val I p) (bn_val I q)) \<and>
    sk_inv I sk' (min (bn_val I p) (bn_val I q)) (max (bn_val I p) (bn_val I q))"
proof -
  have n: "bn_val I (pk_n pk) = bn_val I q * bn_val I p" using assms(4) by (simp add: mult.commute)
  show ?thesis
    using PrivateKey_pk_ok [OF assms] PrivateKey_pk_ok [OF assms(1,2) valid_pq_sym [OF assms(3)] n]
    by (auto simp: min.commute max.commute)
qed

theorem PrivateKey_built_witness:
  "\<exists>sk sk'. PrivateKey_pk (ref_env False True) ref_pk (7, 1) (5, 1) = Inr sk \<and>
    PrivateKey_pk (ref_env False True) ref_pk (5, 1) (7, 1) = Inr sk' \<and>
    sk_inv (ref_env False True) sk 5 7 \<and> sk_inv (ref_env False True) sk' 5 7"
  using PrivateKey_built [OF ref_env_ipp_ok(2) ref_pk_core, of "(7, 1)" "(5, 1)"]
    valid_pq_sym [OF valid_pq_5_7] ref_pk_ok(2) by auto

text \<open>
  C14: for odd numbers above 1 the construction fails exactly if their product is not the
  public key's modulus, or if they are equal, each with the code's own message. Primality is
  not checked: any two different factors give a key.
\<close>

theorem PrivateKey_checks:
  assumes "ipp_me_ok I" "pk_core I pk" "odd (bn_val I p)" "1 < bn_val I p" "odd (bn_val I q)" "1 < bn_val I q"
  shows "if bn_val I (pk_n pk) \<noteq> bn_val I p * bn_val I q then PrivateKey_pk I pk p q =
      Inl (RuntimeError ''PrivateKey ctor: Public key does not match p * q.'')
    else if bn_val I p = bn_val I q then PrivateKey_pk I pk p q =
      Inl (RuntimeError ''PrivateKey ctor: p and q are same'')
    else (\<exists>sk. PrivateKey_pk I pk p q = Inr sk)"
  using PrivateKey_pk_checks [OF assms] by simp

theorem PrivateKey_checks_witness:
  "PrivateKey_pk (ref_env False True) ref_pk (7, 1) (7, 1) =
    Inl (RuntimeError ''PrivateKey ctor: Public key does not match p * q.'') \<and>
   (\<exists>sk. PrivateKey_pk (ref_env False True) ref_pk (5, 1) (7, 1) = Inr sk)"
  using PrivateKey_checks [OF ref_env_ipp_ok(2) ref_pk_core, of "(7, 1)" "(7, 1)"]
    PrivateKey_checks [OF ref_env_ipp_ok(2) ref_pk_core, of "(5, 1)" "(7, 1)"] by (simp add: ref_pk_ok(2))

text \<open>
  C15: decryption with the remainder theorem is equivalent to decryption without: on
  ciphertext elements both succeed, leave the world alone and give the same numbers, the
  plaintexts modulo \<open>n\<close>.
\<close>

theorem decryptCRT_eq_decryptRAW:
  assumes "env_ok E" "sk_inv E sk p q" "enc_elems E (p * q) cs ms"
  shows "\<exists>ps ps'. decryptRAW E sk (length cs) cs w = (Inr ps, w) \<and>
    decryptCRT E sk (length cs) cs w = (Inr ps', w) \<and> map (bn_val E) ps' = map (bn_val E) ps \<and>
    map (bn_val E) ps = map (\<lambda>m. m mod (p * q)) ms"
  using decryptRAW_ok [OF assms, of w] decryptCRT_ok [OF assms, of w] by auto

theorem decryptCRT_eq_decryptRAW_witness:
  "\<exists>ps ps'. decryptRAW (ref_env False True) ref_sk 2 [(71, 2), (36, 2)] (ref_world []) = (Inr ps, ref_world []) \<and>
    decryptCRT (ref_env False True) ref_sk 2 [(71, 2), (36, 2)] (ref_world []) = (Inr ps', ref_world []) \<and>
    map fst ps' = map fst ps \<and> map fst ps = [2, 1]"
proof -
  have e: "enc_elems (ref_env False True) (5 * 7) [(71, 2), (36, 2)] [2, 1]"
    using enc_of_trivial [of 35 2] enc_of_trivial [of 35 1] by (simp add: enc_elems_def)
  have v: "bn_val (ref_env False True) = fst" by (rule ext) simp
  from decryptCRT_eq_decryptRAW [OF ref_env_ok ref_sk_ok e, of "ref_world []"] show ?thesis
    by (simp add: v numeral_2_eq_2)
qed

section \<open>Errors of encryption and decryption\<close>

text \<open>
  C16: encryption and decryption refuse keys that are not initialised, texts without elements
  and, for decryption, ciphertexts made with another modulus; every refusal is the code's own
  exception and changes no state.
\<close>

theorem refused_texts:
  "(\<not> pk_isInitialized pk \<longrightarrow>
      encrypt E pk pt s w = (Inl (RuntimeError ''encrypt: Public key is NOT initialized.''), w)) \<and>
   (pk_isInitialized pk \<and> m_size pt = 0 \<longrightarrow>
      encrypt E pk pt s w = (Inl (RuntimeError ''encrypt: Cannot encrypt empty PlainText''), w)) \<and>
   (\<not> sk_isInitialized sk \<longrightarrow>
      decrypt E sk ct w = (Inl (RuntimeError ''decrypt: Private key is NOT initialized.''), w)) \<and>
   (sk_isInitialized sk \<and> \<not> bn_eq E (pk_n (m_pk ct)) (sk_n sk) \<longrightarrow>
      decrypt E sk ct w = (Inl (RuntimeError ''decrypt: The value of N in public key mismatch.''), w)) \<and>
   (sk_isInitialized sk \<and> bn_eq E (pk_n (m_pk ct)) (sk_n sk) \<and> m_size ct = 0 \<longrightarrow>
      decrypt E sk ct w = (Inl (RuntimeError ''decrypt: Cannot decrypt empty CipherText''), w))"
  by (simp add: encrypt_errors decrypt_errors)

theorem refused_texts_witness:
  "encrypt (ref_env False True) (ref_pk\<lparr>pk_isInitialized := False\<rparr>) ref_pt True (ref_world []) =
    (Inl (RuntimeError ''encrypt: Public key is NOT initialized.''), ref_world []) \<and>
   decrypt (ref_env False True) (ref_sk\<lparr>sk_isInitialized := False\<rparr>) ref_ct (ref_world []) =
    (Inl (RuntimeError ''decrypt: Private key is NOT initialized.''), ref_world [])"
  using refused_texts [of "ref_pk\<lparr>pk_isInitialized := False\<rparr>" "ref_env False True" ref_pt True "ref_world []"
      "ref_sk\<lparr>sk_isInitialized := False\<rparr>" ref_ct] by simp

section \<open>Key generation\<close>

text \<open>
  C17: a pair of keys that is generated is for a modulus of exactly the asked length, whose two
  factors have half that length, are odd and further apart than the required distance; with DJN
  the first is 3 modulo 4 and the two differ in no other common factor of \<open>p - 1\<close> and \<open>q - 1\<close>
  than 2. The public key meets its invariant, the private key its own whenever the numbers are
  valid primes, and only the state of the random generator changes.
\<close>

theorem generateKeypair_pair:
  assumes "env_ok E" "prime_ok E" "generateKeypair E fuel n_length djn w = (Inr pair, w')"
  shows "200 \<le> n_length \<and> n_length \<le> 2048 \<and> n_length mod 4 = 0 \<and> same_but_rng w w' \<and>
    (\<exists>p q. pair_for E n_length djn p q pair)"
  by (rule generateKeypair_ok [OF assms])

theorem generateKeypair_pair_witness:
  "\<exists>pair p q. generateKeypair (ref_env False True) 1 200 False (ref_world [ref_p, ref_q]) = (Inr pair, ref_world []) \<and>
    pair_for (ref_env False True) 200 False p q pair"
proof -
  obtain pair where g: "generateKeypair (ref_env False True) 1 200 False (ref_world [ref_p, ref_q]) = (Inr pair, ref_world [])"
    using ref_generate by blast
  from generateKeypair_pair [OF ref_env_ok ref_env_prime_ok g] g show ?thesis by blast
qed




section \<open>The DJN parameter\<close>

text \<open>
  C20: the search for a unit modulo \<open>n\<close> ends. If the generator delivers numbers that share a factor
  with \<open>n\<close> and then a positive one that does not, the loop takes this one, after as many rounds as
  there are numbers.
\<close>

theorem DJN_search_ends:
  assumes "env_ok E" "1 < bn_val E n" "draw_seq E (BitSize E n + 128) (xs @ [y]) w w'"
    and "\<forall>x \<in> set xs. 0 < bn_val E x \<and> \<not> coprime (bn_val E x) (bn_val E n)"
    and "0 < bn_val E y" "coprime (bn_val E y) (bn_val E n)" "length xs < fuel"
  shows "\<exists>r. djn_sample E n fuel w = (Inr r, w') \<and> bn_val E r = bn_val E y mod bn_val E n"
  using djn_sample_terminates [OF assms] assms(1,2) by (simp add: bn_assign_copy bn_simps)

lemma ref_draws:
  assumes n: "fst n = 35"
  shows "\<exists>x y. draw_seq (ref_env False True) (BitSize (ref_env False True) n + 128) [x, y] (ref_world [5, 4]) (ref_world []) \<and>
    fst x = 5 \<and> fst y = 4"
proof -
  let ?E = "ref_env False True"
  let ?b = "BitSize ?E n + 128"
  have "129 \<le> ?b" using BitSize_val [OF ref_env_ipp_ok(1), where x = n and omp1 = True] abs_bn_val [of ?E n] n by (simp add: nat_bits.simps)
  then have b: "1 \<le> ?b" "3 \<le> nat ?b" by simp_all
  from b(2) have "(2 :: int) ^ 3 \<le> 2 ^ nat ?b" by (intro power_increasing) simp_all
  then have m: "(5 :: int) mod 2 ^ nat ?b = 5" "(4 :: int) mod 2 ^ nat ?b = 4" by simp_all
  obtain x where x: "getRandomBN ?E ?b (ref_world [5, 4]) = (Inr x, ref_world [4])" "fst x = 5"
    using ref_getRandomBN [OF b(1), of False True "ref_world [5, 4]"] m by (auto simp: ref_world_def pop_def)
  obtain y where y: "getRandomBN ?E ?b (ref_world [4]) = (Inr y, ref_world [])" "fst y = 4"
    using ref_getRandomBN [OF b(1), of False True "ref_world [4]"] m by (auto simp: ref_world_def pop_def)
  show ?thesis by (intro exI [of _ x] exI [of _ y]) (simp add: x y)
qed

lemma coprime_35: "coprime (4 :: int) 35" "\<not> coprime (5 :: int) 35"
  by code_simp+

theorem DJN_search_ends_witness:
  "\<exists>r. djn_sample (ref_env False True) (35, 2) 2 (ref_world [5, 4]) = (Inr r, ref_world []) \<and> fst r = 4"
proof -
  let ?E = "ref_env False True"
  obtain x y where d: "draw_seq ?E (BitSize ?E (35, 2) + 128) ([x] @ [y]) (ref_world [5, 4]) (ref_world [])"
    "fst x = 5" "fst y = 4" using ref_draws [of "(35, 2)"] by auto
  show ?thesis using DJN_search_ends [OF ref_env_ok _ d(1), of 2] d(2,3) coprime_35 by simp
qed

text \<open>
  C21: what \<open>enableDJN\<close> computes. The parameter is the \<open>n\<close>-th power modulo \<open>n\<^sup>2\<close> of
  \<open>(2\<^sup>3\<^sup>2 - 1) * r\<^sup>2 mod n\<close> for the residue \<open>r\<close> drawn, where the code means \<open>- r\<^sup>2 mod n\<close>: the
  factor \<open>-1\<close> is converted to an unsigned number. The exponents have half the bits of the key.
\<close>

theorem DJN_parameter:
  assumes "env_ok E" "pk_core E pk" "enableDJN E fuel pk w = (Inr pk', w')"
  shows "same_but_rng w w' \<and> pk_enable_DJN pk' \<and> pk_randbits pk' = drop_bit 1 (pk_bits pk) \<and>
    pk_n pk' = pk_n pk \<and> (\<exists>x \<ge> 0. (x = 0 \<or> coprime x (bn_val E (pk_n pk))) \<and>
      bn_val E (pk_hs pk') = mpow ((x mod bn_val E (pk_n pk)) * (x mod bn_val E (pk_n pk)) * (2 ^ 32 - 1) mod bn_val E (pk_n pk))
        (bn_val E (pk_n pk)) ((bn_val E (pk_n pk))\<^sup>2))"
  by (rule enableDJN_ok [OF assms]) (auto simp: djn_base_def)

theorem DJN_parameter_witness:
  "\<exists>pk'. enableDJN (ref_env False True) 2 ref_pk (ref_world [5, 4]) = (Inr pk', ref_world []) \<and> pk_enable_DJN pk'"
proof -
  let ?E = "ref_env False True"
  have n: "bn_val ?E (pk_n ref_pk) = 35" by (simp add: ref_pk_ok(2))
  obtain x y where d: "draw_seq ?E (BitSize ?E (pk_n ref_pk) + 128) ([x] @ [y]) (ref_world [5, 4]) (ref_world [])"
    "fst x = 5" "fst y = 4" using ref_draws [OF ref_pk_ok(2)] by auto
  obtain rmod where s: "djn_sample ?E (pk_n ref_pk) 2 (ref_world [5, 4]) = (Inr rmod, ref_world [])"
    using djn_sample_terminates [OF ref_env_ok _ d(1), of 2] d(2,3) n coprime_35 by simp
  obtain hs where "enableDJN ?E 2 ref_pk (ref_world [5, 4]) =
      (Inr (ref_pk\<lparr>pk_hs := hs, pk_randbits := drop_bit 1 (pk_bits ref_pk), pk_enable_DJN := True\<rparr>), ref_world [])"
    by (rule enableDJN_run [OF ref_env_ok ref_pk_core s])
  with DJN_parameter [OF ref_env_ok ref_pk_core this] show ?thesis by blast
qed

section \<open>Archives and random numbers\<close>

text \<open>
  A public key that is written to an archive and read back keeps its modulus, its length and
  its DJN parameters, and meets the invariant again, for keys of at least 32 bits.
\<close>

theorem public_key_roundtrip:
  assumes "env_ok E" "pk_inv E pk" "32 \<le> pk_bits pk"
  shows "\<exists>pk'. pk_load E (pk_save E pk) pk0 w = (Inr pk', w) \<and> pk_inv E pk' \<and>
    bn_val E (pk_n pk') = bn_val E (pk_n pk) \<and> pk_bits pk' = pk_bits pk \<and> pk_enable_DJN pk' = pk_enable_DJN pk \<and>
    (pk_enable_DJN pk \<longrightarrow> bn_val E (pk_hs pk') = bn_val E (pk_hs pk) \<and> pk_randbits pk' = pk_randbits pk)"
  by (rule pk_load_save [OF assms, of pk0 w]) blast

theorem public_key_roundtrip_witness:
  "\<exists>pk pk'. PublicKey_new (ref_env False True) 0 (2 ^ 32 + 1, 2) 33 False (ref_world []) = (Inr pk, ref_world []) \<and>
    pk_load (ref_env False True) (pk_save (ref_env False True) pk) ref_pk (ref_world []) = (Inr pk', ref_world []) \<and>
    fst (pk_n pk') = 2 ^ 32 + 1"
proof -
  let ?E = "ref_env False True"
  obtain pk where pk: "PublicKey_new ?E 0 (2 ^ 32 + 1, 2) 33 False (ref_world []) = (Inr pk, ref_world [])"
    "pk_inv ?E pk" "bn_val ?E (pk_n pk) = bn_val ?E (2 ^ 32 + 1, 2)" "pk_bits pk = 33"
    by (rule PublicKey_new_normal [OF ref_env_ipp_ok(1), where n = "(2 ^ 32 + 1, 2)" and bits = 33 and fuel = 0 and w = "ref_world []"])
      simp_all
  have b: "32 \<le> pk_bits pk" by (simp add: pk(4))
  show ?thesis using public_key_roundtrip [OF ref_env_ok pk(2) b, of ref_pk "ref_world []"] pk(1,3) by auto
qed

text \<open>
  C22: a random number is in the range of the bits asked for, whichever generator the build and the
  processor select, retries included; if the generator fails, the call throws. Nothing but the
  generator's state changes.
\<close>

theorem random_in_range:
  assumes "ipp_ok E" "rng_ok E" "1 \<le> bits" "getRandomBN E bits w = (res, w')"
  shows "(\<exists>r. w' = w\<lparr>rng := r\<rparr>) \<and>
    (case res of Inl e \<Rightarrow> e = RuntimeError ''getRandomBN:  generate random big number error.''
     | Inr x \<Rightarrow> 0 \<le> bn_val E x \<and> bn_val E x < 2 ^ nat bits \<and> bn_norm E x)"
  using getRandomBN_run [OF assms] by (cases res) simp_all

theorem random_in_range_witness:
  "\<exists>y. getRandomBN (ref_env False True) 4 (ref_world [19]) = (Inr y, ref_world []) \<and> 0 \<le> fst y \<and> fst y < 16"
proof -
  obtain y where y: "getRandomBN (ref_env False True) 4 (ref_world [19]) = (Inr y, ref_world [])"
    using ref_getRandomBN [of 4 False True "ref_world [19]"] by (auto simp: ref_world_def pop_def)
  from random_in_range [OF ref_env_ipp_ok(1) ref_env_rng_ok _ y] y show ?thesis by simp
qed

text \<open>
  A parallel loop always gets at least one thread, and no more than it asks for or are left;
  the threads beyond the one every loop has add up to no more than there were.
\<close>

theorem threads_shared:
  assumes "0 \<le> rem"
  shows "(case assignOMPThreads rem req of (n, rem') \<Rightarrow>
      1 \<le> n \<and> n \<le> max 1 rem \<and> n \<le> max 1 req \<and> 0 \<le> rem' \<and> rem' \<le> rem) \<and>
    sum_list (filter (\<lambda>n. 1 < n) (assign_all rem reqs)) \<le> rem"
proof -
  obtain n rem' where a: "assignOMPThreads rem req = (n, rem')" by force
  from assignOMPThreads_bounds [OF a] show ?thesis using assms assign_all_bound [of rem reqs] by (auto simp: a)
qed

theorem threads_shared_witness:
  "assignOMPThreads 4 3 = (3, 1) \<and> sum_list (filter (\<lambda>n. 1 < n) (assign_all 4 [3, 3])) \<le> 4"
  using threads_shared [of 4 3 "[3, 3]"] by (simp add: assignOMPThreads_def)

end
