(* ===== verification/BigNumberBytes.thy ===== *)
theory BigNumberBytes
  imports BigNumberConv
begin

text \<open>
  Numbers as byte strings (\<open>num2char\<close>, \<open>toBin\<close>, \<open>fromBin\<close> in \<open>ipcl/bignum.cpp\<close>), the format in
  which they go to the accelerator: most significant byte first. The words a state's data pointer
  refers to are read as bytes in the order of a little-endian machine.

  \<open>fromBin\<close> writes through that pointer, which leaves the bit size of the state as it was; what
  another object sees of such a state is the triple \<open>ippsRef_BN\<close> returns, so the triple is the
  model's value.
\<close>

section \<open>Conversions\<close>

definition bytes_of_words :: "u32 list \<Rightarrow> u8 list" where
  "bytes_of_words ws = concat (map (\<lambda>w. byte_limbs 4 (unat w)) ws)"

definition words_of_bytes :: "u8 list \<Rightarrow> u32 list" where
  "words_of_bytes bs = limbs (length bs div 4) (bytes_val bs)"

definition num2char :: "('b, 'z) ipp_scheme \<Rightarrow> 'b \<Rightarrow> u8 list" where
  "num2char I this =
    (let len = nat ((Ref_bits I this + 7) div 2 ^ 3)
     in take len (bytes_of_words (Ref_data I this)))"

type_synonym raw_number = "IppsBigNumSGN \<times> int \<times> u32 list"

text \<open>\<open>None\<close> is the result \<open>false\<close>.\<close>

definition fromBin :: "('b, 'z) ipp_scheme \<Rightarrow> u8 list \<Rightarrow> int \<Rightarrow> raw_number option result" where
  "fromBin I data len =
    (if len \<le> 0 then Inr None
     else if len > int (length data) then Inl (Undefined ''read past a buffer'')
     else let bn = BigNumber_data I (Some (words_of_bytes (take (nat len) data))) (len div 4) IppsBigNumPOS;
              bytes = bytes_of_words (Ref_data I bn)
          in if len > 4 * Room I bn then Inl (Undefined ''write past the number'')
             else Inr (Some (Ref_sgn I bn, Ref_bits I bn,
                    words_of_bytes (rev (take (nat len) data) @ drop (nat len) bytes))))"

text \<open>The copy of a number whose data were written: the copy constructor on the triple.\<close>

definition raw_copy :: "('b, 'z) ipp_scheme \<Rightarrow> raw_number \<Rightarrow> 'b" where
  "raw_copy I = (\<lambda>(sg, bits, ws). create I (Some ws) (BITSIZE_WORD bits) sg)"

text \<open>The first \<open>toBin\<close> writes the bytes backwards from the end of a buffer of the caller.\<close>

definition toBin :: "('b, 'z) ipp_scheme \<Rightarrow> u8 list \<Rightarrow> int \<Rightarrow> 'b \<Rightarrow> (bool \<times> u8 list) result" where
  "toBin I data len bn =
    (if len \<le> 0 then Inr (False, data)
     else let bitSizeLen = BITSIZE_WORD (Ref_bits I bn) * 4;
              bytes = take (nat bitSizeLen) (bytes_of_words (Ref_data I bn))
          in if bitSizeLen > len \<or> len > int (length data) then Inl (Undefined ''write past a buffer'')
             else Inr (True, take (nat (len - bitSizeLen)) data @ rev bytes @ drop (nat len) data))"

text \<open>
  The second \<open>toBin\<close> allocates the buffer; it clears it before it looks whether the allocation
  succeeded.
\<close>

definition toBin_alloc :: "('b, 'z) ipp_scheme \<Rightarrow> bool \<Rightarrow> 'b \<Rightarrow> (u8 list \<times> int) result" where
  "toBin_alloc I malloc_ok bn =
    (let bitSizeLen = BITSIZE_WORD (Ref_bits I bn) * 4
     in if \<not> malloc_ok then Inl (Undefined ''memset of NULL'')
        else Inr (rev (take (nat bitSizeLen) (bytes_of_words (Ref_data I bn))), bitSizeLen))"

section \<open>Values of byte strings\<close>

lemma bytes_val_append: "bytes_val (xs @ ys) = bytes_val xs + 256 ^ length xs * bytes_val ys"
  by (induction xs) (simp_all add: algebra_simps)

lemma bytes_val_bound: "bytes_val bs < 256 ^ length bs"
proof (induction bs)
  case (Cons b bs)
  have "unat b < 256" using unsigned_less [of b, where 'a = nat] by simp
  then show ?case using Cons by simp
qed simp

lemma bytes_val_bound_words: "length bs = 4 * k \<Longrightarrow> bytes_val bs < 2 ^ (32 * k)"
  using bytes_val_bound [of bs] by (simp add: power_mult)

lemma power_256: "256 ^ (4 * k) = (2 :: nat) ^ (32 * k)"
  by (simp only: power_mult) simp

lemma bytes_val_replicate_0 [simp]: "bytes_val (replicate n 0) = 0"
  by (induction n) simp_all

lemma bytes_of_words_length [simp]: "length (bytes_of_words ws) = 4 * length ws"
  by (induction ws) (simp_all add: bytes_of_words_def)

lemma bytes_of_words_val [simp]: "bytes_val (bytes_of_words ws) = words_val ws"
proof (induction ws)
  case (Cons w ws)
  have "bytes_val (byte_limbs 4 (unat w)) = unat w"
    by (rule bytes_val_byte_limbs) (use unat_u32_lt [of w] in simp)
  then show ?case using Cons by (simp add: bytes_of_words_def bytes_val_append)
qed (simp add: bytes_of_words_def)

lemma take_bytes_of_words: "take (4 * n) (bytes_of_words ws) = bytes_of_words (take n ws)"
proof (induction n arbitrary: ws)
  case (Suc n)
  then show ?case by (cases ws) (simp_all add: bytes_of_words_def)
qed (simp add: bytes_of_words_def)

lemma words_of_bytes_length [simp]: "length (words_of_bytes bs) = length bs div 4"
  by (simp add: words_of_bytes_def)

lemma words_of_bytes_val:
  assumes "length bs = 4 * n"
  shows "words_val (words_of_bytes bs) = bytes_val bs"
proof -
  have "bytes_val bs < 2 ^ (32 * n)" by (rule bytes_val_bound_words [OF assms])
  then show ?thesis by (simp add: words_of_bytes_def assms words_val_limbs)
qed

definition be_val :: "u8 list \<Rightarrow> nat" where
  "be_val bs = bytes_val (rev bs)"

lemma be_val_zeros: "be_val (replicate n 0 @ bs) = be_val bs"
  by (simp add: be_val_def bytes_val_append)

lemma toBin_ok:
  assumes "ipp_ok I" "4 * bn_nw I x \<le> n"
  shows "\<exists>bs. toBin I (replicate n 0) (int n) x = Inr (True, bs) \<and> length bs = n \<and> be_val bs = bn_mag I x"
proof -
  let ?w = "bn_nw I x" and ?d = "take (4 * bn_nw I x) (bytes_of_words (Ref_data I x))"
  have b: "BITSIZE_WORD (Ref_bits I x) * 4 = int (4 * ?w)" using int_bn_nw [OF assms(1), of x] by simp
  have pos: "0 < n" using assms bn_nw_pos [OF assms(1), of x] by simp
  have d: "?d = bytes_of_words (take ?w (Ref_data I x))" by (rule take_bytes_of_words)
  have nw: "nat (int (4 * ?w)) = 4 * ?w" "nat (int n - int (4 * ?w)) = n - 4 * ?w" by simp_all
  have t: "toBin I (replicate n 0) (int n) x = Inr (True, replicate (n - 4 * ?w) 0 @ rev ?d)"
    using assms(2) pos unfolding toBin_def Let_def b nw by simp
  have "length ?d = 4 * ?w" unfolding d using bn_data_length [OF assms(1), of x] by simp
  moreover have "be_val (replicate (n - 4 * ?w) 0 @ rev ?d) = bn_mag I x"
    unfolding be_val_zeros by (simp add: be_val_def d bn_mag_def)
  ultimately show ?thesis using t assms(2) by simp
qed

lemma toBin_too_long:
  assumes "ipp_ok I" "0 < n" "n < 4 * bn_nw I x" "length data = n"
  shows "toBin I data (int n) x = Inl (Undefined ''write past a buffer'')"
proof -
  have "BITSIZE_WORD (Ref_bits I x) * 4 = int (4 * bn_nw I x)" using int_bn_nw [OF assms(1), of x] by simp
  then show ?thesis using assms(2-4) by (simp add: toBin_def Let_def)
qed

lemma toBin_alloc_ok:
  assumes "ipp_ok I"
  shows "\<exists>bs. toBin_alloc I True x = Inr (bs, int (4 * bn_nw I x)) \<and> length bs = 4 * bn_nw I x \<and>
    be_val bs = bn_mag I x"
proof -
  have b: "BITSIZE_WORD (Ref_bits I x) * 4 = int (4 * bn_nw I x)" using int_bn_nw [OF assms, of x] by simp
  have d: "take (4 * bn_nw I x) (bytes_of_words (Ref_data I x)) = bytes_of_words (take (bn_nw I x) (Ref_data I x))"
    by (rule take_bytes_of_words)
  have n: "nat (int (4 * bn_nw I x)) = 4 * bn_nw I x" by simp
  show ?thesis
    using bn_data_length [OF assms, of x] unfolding toBin_alloc_def Let_def b n d by (simp add: be_val_def bn_mag_def)
qed

section \<open>Reading a number back\<close>

text \<open>
  The state is built from the bytes in the wrong order, so its size in words is that of the
  number whose most significant word is the last four bytes: it is the full size only if these
  are not all zero.
\<close>

definition low_word :: "u8 list \<Rightarrow> nat" where
  "low_word bs = be_val (drop (length bs - 4) bs)"

lemma be_val_append: "be_val (xs @ ys) = be_val xs * 256 ^ length ys + be_val ys"
  by (simp add: be_val_def bytes_val_append)

lemma low_word_mod: "4 \<le> length bs \<Longrightarrow> low_word bs = be_val bs mod 2 ^ 32"
proof -
  assume le: "4 \<le> length bs"
  have s: "bs = take (length bs - 4) bs @ drop (length bs - 4) bs" by simp
  have "be_val (drop (length bs - 4) bs) < 256 ^ 4"
    using bytes_val_bound [of "rev (drop (length bs - 4) bs)"] le by (simp add: be_val_def)
  moreover have "be_val bs = be_val (take (length bs - 4) bs) * 256 ^ 4 + be_val (drop (length bs - 4) bs)"
    using be_val_append [of "take (length bs - 4) bs" "drop (length bs - 4) bs"] le by simp
  ultimately show ?thesis by (simp add: low_word_def)
qed

lemma bytes_val_0_iff: "bytes_val bs = 0 \<longleftrightarrow> (\<forall>b \<in> set bs. b = 0)"
  by (induction bs) (auto simp: unsigned_eq_0_iff)

lemma bytes_val_high:
  assumes "length bs = 4 * Suc n" "low_word bs \<noteq> 0"
  shows "2 ^ (32 * n) \<le> bytes_val bs"
proof -
  have l: "length (take (4 * n) bs) = 4 * n" using assms(1) by simp
  have "bytes_val (drop (4 * n) bs) \<noteq> 0"
    using assms by (simp add: low_word_def be_val_def bytes_val_0_iff)
  then have "256 ^ (4 * n) * 1 \<le> 256 ^ (4 * n) * bytes_val (drop (4 * n) bs)" by (intro mult_le_mono2) simp
  also have "\<dots> \<le> bytes_val (take (4 * n) bs) + 256 ^ (4 * n) * bytes_val (drop (4 * n) bs)" by simp
  also have "\<dots> = bytes_val bs"
    using bytes_val_append [of "take (4 * n) bs" "drop (4 * n) bs"] l by simp
  finally show ?thesis by (simp add: power_mult)
qed


text \<open>The number of words of the state that \<open>fromBin\<close> writes into.\<close>

definition fromBin_words :: "u8 list \<Rightarrow> nat" where
  "fromBin_words bs = nat (BITSIZE_WORD (max 1 (int (nat_bits (bytes_val bs)))))"

text \<open>The size that the first reading of the bytes gives is at most theirs.\<close>

lemma fromBin_words_le:
  assumes "length bs = 4 * Suc n"
  shows "fromBin_words bs \<le> Suc n"
proof -
  have "nat_bits (bytes_val bs) \<le> 32 * Suc n"
  proof (cases "bytes_val bs = 0")
    case False
    then have "2 ^ (nat_bits (bytes_val bs) - 1) \<le> bytes_val bs" by (intro nat_bits_lower) simp
    also have "\<dots> < 2 ^ (32 * Suc n)" by (rule bytes_val_bound_words [OF assms])
    finally have "nat_bits (bytes_val bs) - 1 < 32 * Suc n" by (rule power_less_imp_less_exp [rotated]) simp
    then show ?thesis by simp
  qed simp
  then have "BITSIZE_WORD (max 1 (int (nat_bits (bytes_val bs)))) \<le> BITSIZE_WORD (32 * int (Suc n))"
    by (intro BITSIZE_WORD_mono) simp
  also have "\<dots> = int (Suc n)" by (simp add: BITSIZE_WORD_div)
  finally show ?thesis by (simp add: fromBin_words_def)
qed

text \<open>The words that are written into the number, and those of them that its size covers.\<close>

lemma fromBin_low_words:
  fixes rest :: "u8 list"
  assumes l: "length bs = 4 * Suc n" and rest: "length rest = 4 * r" and k: "k \<le> Suc n"
  shows "length (words_of_bytes (rev bs @ rest)) = Suc n + r"
    and "words_val (take k (words_of_bytes (rev bs @ rest))) = be_val bs mod 2 ^ (32 * k)"
proof -
  let ?ws = "words_of_bytes (rev bs @ rest)"
  show wsl: "length ?ws = Suc n + r" by (simp add: l rest)
  have wv: "words_val ?ws = bytes_val (rev bs @ rest)" by (rule words_of_bytes_val [of _ "Suc n + r"]) (simp add: l rest)
  have "words_val (take k ?ws) = words_val ?ws mod 2 ^ (32 * k)"
    using words_val_append [of "take k ?ws" "drop k ?ws"] words_val_bound [of "take k ?ws"] k wsl by simp
  also have "words_val ?ws = be_val bs + 2 ^ (32 * Suc n) * bytes_val rest"
    unfolding wv bytes_val_append length_rev l power_256 by (simp add: be_val_def)
  also have "2 ^ (32 * Suc n) = 2 ^ (32 * k) * (2 ^ (32 * (Suc n - k)) :: nat)"
    using k by (simp flip: power_add distrib_left)
  finally show "words_val (take k ?ws) = be_val bs mod 2 ^ (32 * k)" by (simp add: mult.assoc)
qed

lemma nonneg_sign:
  assumes "bn_norm I x" "bn_val I x = int v"
  shows "Ref_sgn I x = IppsBigNumPOS"
proof (cases "bn_mag I x = 0")
  case False
  then show ?thesis using assms(2) by (cases "Ref_sgn I x") (auto simp: bn_val_def)
qed (use assms(1) in \<open>simp add: bn_norm_def\<close>)

lemma fromBin_copy:
  assumes i: "ipp_ok I" and l: "length bs = 4 * Suc n"
  shows "\<exists>raw. fromBin I bs (int (length bs)) = Inr (Some raw) \<and> bn_norm I (raw_copy I raw) \<and>
    bn_val I (raw_copy I raw) = int (be_val bs mod 2 ^ (32 * fromBin_words bs))"
proof -
  let ?n = "Suc n" and ?ws = "words_of_bytes bs" and ?k = "fromBin_words bs"
  let ?x = "BigNumber_data I (Some (words_of_bytes bs)) (int (Suc n)) IppsBigNumPOS"
  have x: "bn_val I ?x = int (bytes_val bs)" "bn_norm I ?x" "int ?n \<le> Room I ?x"
    using create_Some [OF i, of "int ?n" ?ws IppsBigNumPOS] words_of_bytes_val [OF l] l
    by (simp_all add: BigNumber_data_def)
  have "bn_mag I ?x = bytes_val bs" using x(1) abs_bn_val [of I ?x] by simp
  then have bits: "Ref_bits I ?x = max 1 (int (nat_bits (bytes_val bs)))" using bn_norm_bits [OF i x(2)] by simp
  define rest where "rest = drop (length bs) (bytes_of_words (Ref_data I ?x))"
  define ws where "ws = words_of_bytes (rev bs @ rest)"
  have run: "fromBin I bs (int (length bs)) = Inr (Some (IppsBigNumPOS, Ref_bits I ?x, ws))"
  proof -
    have c: "\<not> int (length bs) \<le> 0" "\<not> int (length bs) > 4 * Room I ?x" "int (length bs) div 4 = int ?n"
      using x(3) l by simp_all
    show ?thesis using c nonneg_sign [OF x(2,1)] by (simp add: fromBin_def ws_def rest_def Let_def)
  qed
  note le = fromBin_words_le [OF l]
  have "length rest = 4 * (length (Ref_data I ?x) - ?n)" using l by (simp add: rest_def)
  note low = fromBin_low_words [OF l this le, folded ws_def]
  have k: "BITSIZE_WORD (Ref_bits I ?x) = int ?k" "1 \<le> ?k"
    using BITSIZE_WORD_pos [of "max 1 (int (nat_bits (bytes_val bs)))"] unfolding bits fromBin_words_def by simp_all
  have "int ?k \<le> int (length ws)" using le low(1) by simp
  then have "bn_val I (raw_copy I (IppsBigNumPOS, Ref_bits I ?x, ws)) = int (words_val (take ?k ws))"
    "bn_norm I (raw_copy I (IppsBigNumPOS, Ref_bits I ?x, ws))"
    using create_Some [OF i, of "int ?k" ws IppsBigNumPOS] k by (simp_all add: raw_copy_def)
  then show ?thesis using run by (simp add: low(2))
qed

text \<open>A number whose lowest word is not zero, and zero itself, are read exactly.\<close>

lemma nat_bits_power: "nat_bits (2 ^ k) = Suc k"
proof (induction k)
  case (Suc k)
  have "nat_bits (2 ^ Suc k) = Suc (nat_bits (2 ^ Suc k div 2))" by (subst nat_bits.simps) simp
  then show ?case using Suc by simp
qed (simp add: nat_bits.simps)

lemma fromBin_words_full:
  assumes "length bs = 4 * Suc n" "low_word bs \<noteq> 0"
  shows "fromBin_words bs = Suc n"
proof -
  let ?v = "bytes_val bs"
  have ge: "2 ^ (32 * n) \<le> ?v" by (rule bytes_val_high [OF assms])
  have v: "0 < ?v" by (rule less_le_trans [OF _ ge]) simp
  have lt: "?v < 2 ^ (32 * Suc n)" by (rule bytes_val_bound_words [OF assms(1)])
  have "2 ^ (32 * n) < (2 :: nat) ^ nat_bits ?v" using ge nat_bits_upper [of ?v] by (rule le_less_trans)
  then have 1: "32 * n < nat_bits ?v" by (rule power_less_imp_less_exp [rotated]) simp
  have "2 ^ (nat_bits ?v - 1) < (2 :: nat) ^ (32 * Suc n)" using nat_bits_lower [OF v] lt by (rule le_less_trans)
  then have "nat_bits ?v - 1 < 32 * Suc n" by (rule power_less_imp_less_exp [rotated]) simp
  then have 2: "nat_bits ?v \<le> 32 * Suc n" by simp
  have "BITSIZE_WORD (int (nat_bits ?v)) = int (Suc n)"
  proof -
    have "32 * int n < int (nat_bits ?v)" "int (nat_bits ?v) \<le> 32 * int n + 32" using 1 2 by simp_all
    then show ?thesis
      using BITSIZE_WORD_ge [of "int (nat_bits ?v)"] BITSIZE_WORD_lt [of "int (nat_bits ?v)"] by simp
  qed
  moreover have "max 1 (int (nat_bits ?v)) = int (nat_bits ?v)" using 1 by simp
  ultimately show ?thesis unfolding fromBin_words_def by simp
qed

lemma fromBin_exact:
  assumes "ipp_ok I" "length bs = 4 * Suc n" "low_word bs \<noteq> 0 \<or> be_val bs = 0"
  shows "\<exists>raw. fromBin I bs (int (length bs)) = Inr (Some raw) \<and> bn_norm I (raw_copy I raw) \<and>
    bn_val I (raw_copy I raw) = int (be_val bs)"
proof -
  have "be_val bs < 2 ^ (32 * Suc n)"
    unfolding be_val_def by (rule bytes_val_bound_words) (simp add: assms(2))
  then have "be_val bs mod 2 ^ (32 * fromBin_words bs) = be_val bs"
    using assms(3) fromBin_words_full [OF assms(2)] by auto
  then show ?thesis using fromBin_copy [OF assms(1,2)] by simp
qed

text \<open>A number that is a multiple of \<open>2\<^sup>3\<^sup>2\<close> loses its high words.\<close>

lemma fromBin_truncates:
  assumes "ipp_ok I"
  shows "\<exists>raw. fromBin I [0, 0, 0, 1, 0, 0, 0, 0] 8 = Inr (Some raw) \<and> be_val [0, 0, 0, 1, 0, 0, 0, 0] = 2 ^ 32 \<and>
    bn_val I (raw_copy I raw) = 0"
proof -
  have "bytes_val [0, 0, 0, 1, 0, 0, 0, 0] = 16777216" "nat_bits 16777216 = 25"
    using nat_bits_power [of 24] by simp_all
  then have "fromBin_words [0, 0, 0, 1, 0, 0, 0, 0] = 1" by (simp add: fromBin_words_def BITSIZE_WORD_div)
  moreover have "be_val [0, 0, 0, 1, 0, 0, 0, 0] = 2 ^ 32" by (simp add: be_val_def)
  moreover have "\<exists>raw. fromBin I [0, 0, 0, 1, 0, 0, 0, 0] 8 = Inr (Some raw) \<and> bn_norm I (raw_copy I raw) \<and>
      bn_val I (raw_copy I raw) =
      int (be_val [0, 0, 0, 1, 0, 0, 0, 0] mod 2 ^ (32 * fromBin_words [0, 0, 0, 1, 0, 0, 0, 0]))"
    using fromBin_copy [OF assms, of "[0, 0, 0, 1, 0, 0, 0, 0]" 1] by simp
  ultimately show ?thesis by auto
qed

text \<open>Writing a number out and reading it back.\<close>

lemma toBin_fromBin:
  assumes "ipp_ok I" "bn_nw I x \<le> Suc n" "0 \<le> bn_val I x" "bn_val I x mod 2 ^ 32 \<noteq> 0 \<or> bn_val I x = 0"
  shows "\<exists>bs raw. toBin I (replicate (4 * Suc n) 0) (int (4 * Suc n)) x = Inr (True, bs) \<and>
    fromBin I bs (int (4 * Suc n)) = Inr (Some raw) \<and> bn_val I (raw_copy I raw) = bn_val I x"
proof -
  obtain bs where bs: "toBin I (replicate (4 * Suc n) 0) (int (4 * Suc n)) x = Inr (True, bs)"
    "length bs = 4 * Suc n" "be_val bs = bn_mag I x"
    using toBin_ok [OF assms(1), of x "4 * Suc n"] assms(2) mult_le_mono2 [OF assms(2), of 4] by blast
  have v: "bn_val I x = int (bn_mag I x)" using assms(3) abs_bn_val [of I x] by simp
  have "low_word bs = bn_mag I x mod 2 ^ 32" using low_word_mod [of bs] bs(2,3) by simp
  then have "low_word bs \<noteq> 0 \<or> be_val bs = 0"
  proof -
    have "int (low_word bs) = bn_val I x mod 2 ^ 32"
      unfolding \<open>low_word bs = bn_mag I x mod 2 ^ 32\<close> v by (simp add: zmod_int)
    then show ?thesis using assms(4) v bs(3) by auto
  qed
  from fromBin_exact [OF assms(1) bs(2) this] obtain raw where
    "fromBin I bs (int (length bs)) = Inr (Some raw)" "bn_val I (raw_copy I raw) = int (be_val bs)" by blast
  then show ?thesis using bs(1) unfolding v bs(2,3) by blast
qed

end
