(* ===== verification/HeqatMisc.thy ===== *)
theory HeqatMisc
  imports BigNumberBytes
begin

text \<open>
  The helpers that \<open>heqat/misc\<close> exports to users of the accelerator's library: its copy of
  \<open>BigNumber\<close>, and the conversions between numbers and byte strings (\<open>binToBigNumber\<close>,
  \<open>bigNumberToBin\<close>). The arithmetic of the copy is that of \<open>ipcl/bignum.cpp\<close>, modelled in
  \<open>BigNumber\<close>; modelled here is what differs: the list of digits, the length of strings, and the
  output, which keeps leading zeros and starts with a space or a minus sign. Last comes the padding of
  \<open>heqat/common/utils.c\<close>.
\<close>

section \<open>Texts\<close>

definition misc_HexDigitList :: string where
  "misc_HexDigitList = ''0123456789ABCDEF''"

definition RSIZE_MAX_STR :: nat where
  "RSIZE_MAX_STR = 4096"

fun strlen_while :: "string \<Rightarrow> nat \<Rightarrow> nat \<Rightarrow> nat" where
  "strlen_while [] dmax count = count"
| "strlen_while (c # dest) 0 count = count"
| "strlen_while (c # dest) (Suc dmax) count = strlen_while dest dmax (count + 1)"

text \<open>A null pointer is \<open>None\<close>.\<close>

definition strlen_safe :: "string option \<Rightarrow> nat \<Rightarrow> nat" where
  "strlen_safe dest dmax =
    (case dest of None \<Rightarrow> 0
     | Some s \<Rightarrow> if dmax = 0 then 0 else if dmax > RSIZE_MAX_STR then 0 else strlen_while s dmax 0)"

definition misc_BigNumber_str :: "('b, 'z) ipp_scheme \<Rightarrow> string \<Rightarrow> 'b result" where
  "misc_BigNumber_str I s = parse_number I misc_HexDigitList (\<lambda>s. strlen_safe (Some s) RSIZE_MAX_STR) s"

definition misc_num2hex :: "('b, 'z) ipp_scheme \<Rightarrow> 'b \<Rightarrow> string" where
  "misc_num2hex I this =
    (let bnSgn = Ref_sgn I this; bnBitLen = Ref_bits I this; bnData = Ref_data I this;
         len = nat (BITSIZE_WORD bnBitLen);
         s = [if bnSgn = IppsBigNumNEG then CHR ''-'' else CHR '' ''] @ ''0x''
     in fold (\<lambda>n. fold (\<lambda>c s. s @ [c]) (word_digits misc_HexDigitList (bnData ! (n - 1)))) (rev [1..<len + 1]) s)"

section \<open>Byte strings\<close>

text \<open>\<open>None\<close> is \<open>HE_QAT_STATUS_INVALID_PARAM\<close>. The constructor reads whole words.\<close>

definition binToBigNumber :: "('b, 'z) ipp_scheme \<Rightarrow> u8 list \<Rightarrow> int \<Rightarrow> raw_number option result" where
  "binToBigNumber I data nbits =
    (if nbits \<le> 0 then Inr None
     else let len = (nbits + 7) div 8; words = BITSIZE_WORD nbits
          in if 4 * words > int (length data) then Inl (Undefined ''read past a buffer'')
             else let bn = BigNumber_data I (Some (words_of_bytes (take (nat (4 * words)) data))) words IppsBigNumPOS;
                      bytes = bytes_of_words (Ref_data I bn)
                  in if len > 4 * Room I bn then Inl (Undefined ''write past the number'')
                     else Inr (Some (Ref_sgn I bn, Ref_bits I bn,
                            words_of_bytes (rev (take (nat len) data) @ drop (nat len) bytes))))"

definition bigNumberToBin :: "('b, 'z) ipp_scheme \<Rightarrow> u8 list \<Rightarrow> int \<Rightarrow> 'b \<Rightarrow> u8 list option result" where
  "bigNumberToBin I data nbits bn =
    (if nbits \<le> 0 then Inr None
     else let len = (nbits + 7) div 8; raw = bytes_of_words (Ref_data I bn)
          in if len > int (length raw) then Inl (Undefined ''read past the number'')
             else if len > int (length data) then Inl (Undefined ''write past a buffer'')
             else Inr (Some (rev (take (nat len) raw) @ drop (nat len) data)))"

section \<open>Their relation to the library's conversions\<close>

lemma strlen_while_min: "strlen_while s dmax count = count + min (length s) dmax"
  by (induction s dmax count rule: strlen_while.induct) simp_all

lemma strlen_safe_min: "0 < dmax \<Longrightarrow> dmax \<le> RSIZE_MAX_STR \<Longrightarrow> strlen_safe (Some s) dmax = min (length s) dmax"
  by (simp add: strlen_safe_def strlen_while_min)

lemma binToBigNumber_fromBin:
  assumes "length data = 4 * Suc n"
  shows "binToBigNumber I data (32 * int (Suc n)) = fromBin I data (4 * int (Suc n))"
proof -
  have "(32 * int (Suc n) + 7) div 8 = 4 * int (Suc n)" "BITSIZE_WORD (32 * int (Suc n)) = int (Suc n)"
    "nat (4 * int (Suc n)) = length data" "4 * int (Suc n) div 4 = int (Suc n)"
    using assms by (simp_all add: BITSIZE_WORD_div)
  then show ?thesis unfolding binToBigNumber_def fromBin_def Let_def using assms by simp
qed

text \<open>A number that fits is written in full, the low bytes of a longer one.\<close>

lemma bigNumberToBin_val:
  assumes "ipp_ok I" "0 < nbits" "(nbits + 7) div 8 \<le> 4 * int (bn_nw I x)" "length data = nat ((nbits + 7) div 8)"
  shows "\<exists>out. bigNumberToBin I data nbits x = Inr (Some out) \<and> length out = length data \<and>
    be_val out = bn_mag I x mod 256 ^ length data"
proof -
  let ?len = "nat ((nbits + 7) div 8)" and ?bs = "bytes_of_words (Ref_data I x)" and ?w = "bn_nw I x"
  have l: "?len \<le> 4 * ?w" "?w \<le> length (Ref_data I x)" using assms(3) bn_data_length [OF assms(1), of x] by simp_all
  have "bytes_val (take ?len ?bs) = bytes_val (take (4 * ?w) ?bs) mod 256 ^ ?len"
  proof -
    have "take (4 * ?w) ?bs = take ?len ?bs @ take (4 * ?w - ?len) (drop ?len ?bs)"
      using l(1) by (metis le_add_diff_inverse take_add)
    moreover have "length (take ?len ?bs) = ?len" using l by simp
    moreover have "bytes_val (take ?len ?bs) < 256 ^ ?len" using bytes_val_bound [of "take ?len ?bs"] l by simp
    ultimately show ?thesis by (simp add: bytes_val_append)
  qed
  also have "bytes_val (take (4 * ?w) ?bs) = bn_mag I x" by (simp add: take_bytes_of_words bn_mag_def)
  finally have v: "bytes_val (take ?len ?bs) = bn_mag I x mod 256 ^ ?len" .
  have "\<not> (nbits + 7) div 8 > int (length ?bs)" using l assms(3) by simp
  then show ?thesis using assms(2,4) v l by (simp add: bigNumberToBin_def Let_def be_val_def)
qed

section \<open>Output and input\<close>

lemma misc_digits_ok: "digit_list misc_HexDigitList"
  by (simp add: digit_list_def misc_HexDigitList_def)

lemma fold_snoc: "fold (\<lambda>c s. s @ [c]) ds s = s @ ds"
  by (induction ds arbitrary: s) simp_all

lemma fold_snoc_words: "fold (\<lambda>n. fold (\<lambda>c s. s @ [c]) (f n)) ns s = s @ concat (map f ns)"
  by (induction ns arbitrary: s) (simp_all add: fold_snoc)

lemma misc_num2hex_eq:
  "misc_num2hex I x = (if Ref_sgn I x = IppsBigNumNEG then CHR ''-'' else CHR '' '') # ''0x'' @
    concat (map (word_digits misc_HexDigitList) (rev (num2vec I x)))"
  using num2vec_digits [of misc_HexDigitList I x] by (simp add: misc_num2hex_def Let_def fold_snoc_words del: upt_Suc)

lemma horner_10_lower: "0 \<le> v \<Longrightarrow> v * 10 ^ length s \<le> horner D 10 s v"
proof (induction s arbitrary: v)
  case (Cons c s)
  have "v * 10 * 10 ^ length s \<le> (v * 10 + int (strcspn D c)) * 10 ^ length s" by (intro mult_right_mono) simp_all
  also have "\<dots> \<le> horner D 10 s (v * 10 + int (strcspn D c))" using Cons.prems by (intro Cons.IH) simp
  finally show ?case by (simp add: horner_Cons mult.assoc)
qed simp

text \<open>The text of a negative number is read back, that of a number with a leading space is not.\<close>

lemma misc_texts:
  assumes "ipp_ok I"
  shows "if Ref_sgn I x = IppsBigNumNEG
    then \<exists>y. misc_BigNumber_str I (misc_num2hex I x) = Inr y \<and> bn_val I y = bn_val I x
    else \<exists>y. misc_BigNumber_str I (misc_num2hex I x) = Inr y \<and> 1616 * 10 ^ (8 * bn_nw I x) \<le> bn_val I y"
proof -
  let ?D = misc_HexDigitList and ?len = "\<lambda>s. strlen_safe (Some s) RSIZE_MAX_STR"
  let ?ds = "concat (map (word_digits misc_HexDigitList) (rev (num2vec I x)))"
  have len: "?len s \<noteq> 0 \<longleftrightarrow> s \<noteq> []" for s using strlen_safe_min [of RSIZE_MAX_STR s] by (simp add: RSIZE_MAX_STR_def)
  have "length (concat (map (word_digits ?D) ws)) = 8 * length ws" for ws by (induction ws) (simp_all add: word_digits_def)
  then have l: "length ?ds = 8 * bn_nw I x" by (simp add: length_num2vec [OF assms])
  then have "length ?ds \<noteq> 0" using bn_nw_pos [OF assms, of x] by linarith
  then have ne: "?ds \<noteq> []" unfolding length_0_conv .
  have D: "length ?D \<le> 16" using misc_digits_ok by (simp add: digit_list_def)
  show ?thesis
  proof (cases "Ref_sgn I x")
    case IppsBigNumNEG
    have "horner ?D 16 ?ds 0 = int (bn_mag I x)"
      by (simp add: horner_words misc_digits_ok words_val_num2vec [OF assms])
    then show ?thesis
      using parse_hex(2) [of I ?D ?len ?ds, OF assms D] len ne IppsBigNumNEG
      by (simp add: misc_num2hex_eq misc_BigNumber_str_def bn_val_def)
  next
    case IppsBigNumPOS
    let ?s = "'' 0x'' @ ?ds"
    have "\<exists>y. parse_number I ?D ?len ?s = Inr y \<and> bn_val I y = horner ?D 10 ?s 0"
      by (rule parse_unsigned [OF assms D]) (use len [of ?s] in \<open>simp_all add: cchar_def\<close>)
    moreover have "horner ?D 10 ?s 0 = horner ?D 10 ?ds 1616" by (simp add: horner_Cons misc_HexDigitList_def)
    moreover have "1616 * 10 ^ length ?ds \<le> horner ?D 10 ?ds 1616" by (rule horner_10_lower) simp
    ultimately show ?thesis using IppsBigNumPOS l by (auto simp: misc_num2hex_eq misc_BigNumber_str_def)
  qed
qed

section \<open>Padding\<close>

text \<open>
  \<open>paddingZeros\<close> of \<open>heqat/common/utils.c\<close> on a number of OpenSSL. \<open>BN_num_bytes\<close>, the bytes that
  \<open>BN_bn2binpad\<close> writes, whether the allocation succeeds and whether the error queue holds an error
  are arguments; a null pointer is \<open>None\<close>. Division of C rounds towards zero.
\<close>

definition paddingZeros :: "(nat \<Rightarrow> int) \<Rightarrow> (nat \<Rightarrow> int \<Rightarrow> u8 list) \<Rightarrow> bool \<Rightarrow> bool \<Rightarrow> nat option \<Rightarrow> int \<Rightarrow> u8 list option" where
  "paddingZeros BN_num_bytes BN_bn2binpad zalloc errors bn nbits =
    (case bn of None \<Rightarrow> None
     | Some v \<Rightarrow>
         let num_bytes = BN_num_bytes v;
             bytes_left = (if nbits < 0 then - (- nbits div 8) else nbits div 8) - num_bytes;
             len = bytes_left + num_bytes
         in if bytes_left \<le> 0 then None
            else if \<not> zalloc then None
            else if errors then None
            else Some (BN_bn2binpad v len))"

text \<open>
  A number that needs padding is padded; one that already has the size asked for is refused with a
  null pointer like one that is too long, and not returned as the comments have it.
\<close>

lemma paddingZeros_result:
  assumes "0 \<le> num_bytes v" "\<And>len. num_bytes v \<le> len \<Longrightarrow> int (length (binpad v len)) = len \<and> be_val (binpad v len) = v"
  shows "num_bytes v < nbits div 8 \<Longrightarrow> \<exists>bs. paddingZeros num_bytes binpad True False (Some v) nbits = Some bs \<and>
      int (length bs) = nbits div 8 \<and> be_val bs = v"
    and "nbits div 8 \<le> num_bytes v \<Longrightarrow> 0 \<le> nbits \<Longrightarrow> paddingZeros num_bytes binpad a e (Some v) nbits = None"
proof -
  assume h: "num_bytes v < nbits div 8"
  then have "\<not> nbits < 0" using assms(1) by (auto simp: pos_imp_zdiv_neg_iff dest: order_le_less_trans)
  then show "\<exists>bs. paddingZeros num_bytes binpad True False (Some v) nbits = Some bs \<and>
      int (length bs) = nbits div 8 \<and> be_val bs = v"
    using h assms(2) [of "nbits div 8"] by (simp add: paddingZeros_def Let_def)
qed (simp add: paddingZeros_def Let_def)

end
