(* ===== verification/CpuInfo.thy ===== *)
theory CpuInfo
  imports BigNumberConv Util
begin

text \<open>
  The parser of \<open>/proc/cpuinfo\<close> of \<open>src/ipcl/include/ipcl/utils/parse_cpuinfo.hpp\<close>, with the parts
  of the standard library it is built from: \<open>std::getline\<close> on a string, \<open>std::isspace\<close> in the C
  locale and \<open>std::stoi\<close>. What the lines of a file say, and what the parser makes of them.
\<close>

section \<open>Strings\<close>

definition isspace :: "char \<Rightarrow> bool" where
  "isspace c \<longleftrightarrow> (of_char c :: nat) \<in> {9, 10, 11, 12, 13, 32}"

definition ltrim :: "string \<Rightarrow> string" where
  "ltrim s = dropWhile isspace s"

definition rtrim :: "string \<Rightarrow> string" where
  "rtrim s = rev (dropWhile isspace (rev s))"

definition trim :: "string \<Rightarrow> string" where
  "trim s = rtrim (ltrim s)"

text \<open>
  \<open>std::getline\<close>: the characters up to the delimiter and what is left of the stream, \<open>None\<close> when
  there is nothing to read.
\<close>

definition getline :: "char \<Rightarrow> string \<Rightarrow> (string \<times> string) option" where
  "getline d s = (if s = [] then None else Some (takeWhile (\<lambda>c. c \<noteq> d) s, drop 1 (dropWhile (\<lambda>c. c \<noteq> d) s)))"

text \<open>A value of the type \<open>int\<close>.\<close>

definition int32 :: "int \<Rightarrow> bool" where
  "int32 v \<longleftrightarrow> - (2 ^ 31) \<le> v \<and> v < 2 ^ 31"

definition to_int :: "int \<Rightarrow> int result" where
  "to_int v = (if int32 v then Inr v else Inl (Undefined ''signed overflow''))"

text \<open>\<open>std::stoi\<close>: spaces, a sign, digits; what follows them is ignored.\<close>

definition stoi :: "string \<Rightarrow> int result" where
  "stoi s =
    (let s = dropWhile isspace s;
         neg = (s \<noteq> [] \<and> hd s = CHR ''-'');
         s = (if s \<noteq> [] \<and> (hd s = CHR ''-'' \<or> hd s = CHR ''+'') then tl s else s);
         ds = takeWhile is_digit s;
         v = (if neg then - dec_val ds else dec_val ds)
     in if ds = [] then Inl InvalidArgument else if int32 v then Inr v else Inl OutOfRange)"

section \<open>The parser\<close>

record linuxCPUInfo =
  n_processors :: int
  n_cores :: int
  n_nodes :: int

definition newline :: char where
  "newline = CHR 0x0A"

definition cpu_field :: "string \<Rightarrow> string \<Rightarrow> linuxCPUInfo \<Rightarrow> linuxCPUInfo result" where
  "cpu_field key val info =
    (if key = ''processor''
     then bindR (to_int (n_processors info + 1)) (\<lambda>n. Inr (info\<lparr>n_processors := n\<rparr>))
     else if key = ''core id'' then bindR (stoi val) (\<lambda>v. Inr (info\<lparr>n_cores := max (n_cores info) v\<rparr>))
     else if key = ''physical id'' then bindR (stoi val) (\<lambda>v. Inr (info\<lparr>n_nodes := max (n_nodes info) v\<rparr>))
     else Inr info)"

definition cpu_line :: "string \<Rightarrow> linuxCPUInfo \<Rightarrow> linuxCPUInfo result" where
  "cpu_line line info =
    (case getline (CHR '':'') line of
       None \<Rightarrow> Inr info
     | Some (key, ss) \<Rightarrow>
         (case getline newline ss of
            None \<Rightarrow> Inr info
          | Some (val, _) \<Rightarrow> cpu_field (trim key) (trim val) info))"

function cpu_lines :: "string \<Rightarrow> linuxCPUInfo \<Rightarrow> linuxCPUInfo result" where
  "cpu_lines s info =
    (case getline newline s of
       None \<Rightarrow> Inr info
     | Some (line, rest) \<Rightarrow> bindR (cpu_line line info) (\<lambda>info. cpu_lines rest info))"
  by pat_completeness auto

lemma getline_shorter: "getline d s = Some (line, rest) \<Longrightarrow> length rest < length s"
proof -
  assume "getline d s = Some (line, rest)"
  then have "s \<noteq> []" "rest = drop 1 (dropWhile (\<lambda>c. c \<noteq> d) s)" by (auto simp: getline_def split: if_splits)
  then show ?thesis using length_dropWhile_le [of "\<lambda>c. c \<noteq> d" s] by (cases s) auto
qed

termination cpu_lines
  by (relation "measure (\<lambda>(s, _). length s)") (use getline_shorter in auto)

declare cpu_lines.simps [simp del]

text \<open>
  A file that does not exist sets \<open>failbit\<close>, for which no exception is enabled. A file may turn
  unreadable after some complete lines, which sets \<open>badbit\<close> and throws.
\<close>

datatype cpuinfo_file = Missing | Readable string | Unreadable string

definition cpu_file :: "cpuinfo_file \<Rightarrow> linuxCPUInfo \<Rightarrow> linuxCPUInfo result" where
  "cpu_file file info =
    (case file of
       Missing \<Rightarrow> Inr info
     | Readable s \<Rightarrow> cpu_lines s info
     | Unreadable s \<Rightarrow> bindR (cpu_lines s info) (\<lambda>_. Inl (RuntimeError ''cannot parse /proc/cpuinfo'')))"

definition parseCPUInfo :: "cpuinfo_file \<Rightarrow> linuxCPUInfo result" where
  "parseCPUInfo file =
    bindR (cpu_file file \<lparr>n_processors = 0, n_cores = 0, n_nodes = 0\<rparr>) (\<lambda>info.
    bindR (to_int (n_nodes info + 1)) (\<lambda>nodes.
    bindR (to_int (n_cores info + 1)) (\<lambda>cores.
    bindR (to_int (cores * nodes)) (\<lambda>total.
    Inr (info\<lparr>n_nodes := nodes, n_cores := total\<rparr>)))))"

section \<open>Reading lines and fields\<close>

text \<open>A field as the file writes it.\<close>

definition field_line :: "string \<times> string \<Rightarrow> string" where
  "field_line = (\<lambda>(k, v). k @ CHR '':'' # v)"

definition field_ok :: "string \<times> string \<Rightarrow> bool" where
  "field_ok = (\<lambda>(k, v). CHR '':'' \<notin> set k \<and> newline \<notin> set k \<and> newline \<notin> set v \<and> v \<noteq> [])"

definition cpu_text :: "(string \<times> string) list \<Rightarrow> string" where
  "cpu_text fs = concat (map (\<lambda>f. field_line f @ [newline]) fs)"

lemma getline_delim:
  assumes "d \<notin> set xs"
  shows "getline d (xs @ d # ys) = Some (xs, ys)"
proof -
  have all: "\<And>x. x \<in> set xs \<Longrightarrow> x \<noteq> d" using assms by blast
  show ?thesis by (simp add: getline_def takeWhile_append2 [OF all] dropWhile_append2 [OF all])
qed

lemma getline_all:
  assumes "d \<notin> set xs" "xs \<noteq> []"
  shows "getline d xs = Some (xs, [])"
proof -
  have "dropWhile (\<lambda>c. c \<noteq> d) xs = []" "takeWhile (\<lambda>c. c \<noteq> d) xs = xs"
    using assms(1) by (auto simp: dropWhile_eq_Nil_conv takeWhile_eq_all_conv)
  then show ?thesis using assms(2) by (simp add: getline_def del: dropWhile_eq_Nil_conv takeWhile_eq_all_conv)
qed

lemma cpu_line_field:
  assumes "field_ok (k, v)"
  shows "cpu_line (field_line (k, v)) info = cpu_field (trim k) (trim v) info"
  using assms by (simp add: cpu_line_def field_line_def field_ok_def getline_delim getline_all)

fun cpu_fields :: "(string \<times> string) list \<Rightarrow> linuxCPUInfo \<Rightarrow> linuxCPUInfo result" where
  "cpu_fields [] info = Inr info"
| "cpu_fields ((k, v) # fs) info = bindR (cpu_field (trim k) (trim v) info) (cpu_fields fs)"

lemma cpu_lines_text:
  assumes "\<forall>f \<in> set fs. field_ok f"
  shows "cpu_lines (cpu_text fs) info = cpu_fields fs info"
  using assms
proof (induction fs arbitrary: info)
  case Nil
  then show ?case by (subst cpu_lines.simps) (simp add: cpu_text_def getline_def)
next
  case (Cons f fs)
  obtain k v where f: "f = (k, v)" by (cases f)
  have ok: "field_ok (k, v)" using Cons.prems f by simp
  then have "newline \<notin> set (field_line (k, v))" by (auto simp: field_line_def field_ok_def newline_def)
  then have "getline newline (cpu_text (f # fs)) = Some (field_line (k, v), cpu_text fs)"
    by (simp add: cpu_text_def f getline_delim)
  then show ?case
    using Cons by (subst cpu_lines.simps) (simp add: f cpu_line_field [OF ok] bindR_def cong: sum.case_cong)
qed

section \<open>What the fields say\<close>

text \<open>The identifiers that the fields of a name hold.\<close>

definition ids :: "string \<Rightarrow> (string \<times> string) list \<Rightarrow> int result list" where
  "ids name fs = map (\<lambda>(k, v). stoi (trim v)) (filter (\<lambda>(k, v). trim k = name) fs)"

definition greatest :: "string \<Rightarrow> (string \<times> string) list \<Rightarrow> int" where
  "greatest name fs = fold max (map projr (ids name fs)) 0"

lemma cpu_fields_ok:
  assumes "\<forall>r \<in> set (ids ''core id'' fs) \<union> set (ids ''physical id'' fs). \<exists>v. r = Inr v"
    and "0 \<le> n_processors info" "n_processors info + int (length (ids ''processor'' fs)) < 2 ^ 31"
  shows "cpu_fields fs info = Inr (info\<lparr>n_processors := n_processors info + int (length (ids ''processor'' fs)),
    n_cores := fold max (map projr (ids ''core id'' fs)) (n_cores info),
    n_nodes := fold max (map projr (ids ''physical id'' fs)) (n_nodes info)\<rparr>)"
  using assms
proof (induction fs arbitrary: info)
  case (Cons f fs)
  obtain k v where f: "f = (k, v)" by (cases f)
  consider "trim k = ''processor''" | "trim k = ''core id''" | "trim k = ''physical id''"
    | "trim k \<noteq> ''processor''" "trim k \<noteq> ''core id''" "trim k \<noteq> ''physical id''" by blast
  then show ?case
  proof cases
    case 1
    then show ?thesis using Cons.prems Cons.IH [of "info\<lparr>n_processors := n_processors info + 1\<rparr>"]
      by (simp add: f ids_def cpu_field_def to_int_def int32_def)
  next
    case 2
    then obtain c where "stoi (trim v) = Inr c" using Cons.prems(1) by (auto simp: f ids_def)
    then show ?thesis using 2 Cons.prems Cons.IH [of "info\<lparr>n_cores := max (n_cores info) c\<rparr>"]
      by (simp add: f ids_def cpu_field_def max.commute)
  next
    case 3
    then obtain c where "stoi (trim v) = Inr c" using Cons.prems(1) by (auto simp: f ids_def)
    then show ?thesis using 3 Cons.prems Cons.IH [of "info\<lparr>n_nodes := max (n_nodes info) c\<rparr>"]
      by (simp add: f ids_def cpu_field_def max.commute)
  next
    case 4
    then show ?thesis using Cons by (simp add: f ids_def cpu_field_def)
  qed
qed (simp add: ids_def)

text \<open>The first identifier that is no number stops the parser.\<close>

lemma cpu_fields_err:
  assumes "cpu_fields fs info = Inr info'" "trim k \<in> {''core id'', ''physical id''}" "stoi (trim v) = Inl e"
  shows "cpu_fields (fs @ (k, v) # rest) info = Inl e"
  using assms
proof (induction fs arbitrary: info)
  case (Cons f fs)
  then show ?case by (cases f; cases "cpu_field (trim (fst f)) (trim (snd f)) info") auto
qed (auto simp: cpu_field_def)

section \<open>Numbers\<close>

lemma digits_ok: "list_all is_digit (digits n)" "digits n \<noteq> []" "dec_val (digits n) = int n"
proof (induction n rule: digits.induct)
  case (1 n)
  have d: "is_digit (char_of (48 + d))" if "d < 10" for d :: nat using that by (simp add: is_digit_def)
  have v: "of_char (char_of (48 + d) :: char) = 48 + int d" if "d < 10" for d :: nat
  proof -
    have "of_char (char_of (48 + d) :: char) = int (of_char (char_of (48 + d) :: char))" by (rule of_nat_of_char [symmetric])
    then show ?thesis using that by simp
  qed
  have m: "10 * int (n div 10) + int (n mod 10) = int n" by (simp add: zdiv_int zmod_int)
  show "list_all is_digit (digits n)" "digits n \<noteq> []" "dec_val (digits n) = int n"
    using 1 m by (subst digits.simps, simp add: d v dec_val_def)+
qed

lemma digits_plain: "c \<in> set (digits n) \<Longrightarrow> is_digit c"
  using digits_ok(1) by (simp add: list_all_iff)

lemma digit_no_space: "is_digit c \<Longrightarrow> \<not> isspace c \<and> c \<noteq> CHR ''-'' \<and> c \<noteq> CHR ''+'' \<and> c \<noteq> newline"
  by (auto simp: is_digit_def isspace_def newline_def)

text \<open>Spaces around the digits do not matter.\<close>

lemma trim_padded:
  assumes "list_all isspace xs" "list_all isspace zs" "ys \<noteq> []" "\<not> isspace (hd ys)" "\<not> isspace (last ys)"
  shows "trim (xs @ ys @ zs) = ys"
proof -
  have drop: "dropWhile isspace (us @ vs) = vs" if "list_all isspace us" "vs \<noteq> []" "\<not> isspace (hd vs)" for us vs
    using that by (induction us) (cases vs; simp)+
  have "ltrim (xs @ ys @ zs) = ys @ zs" unfolding ltrim_def using assms by (intro drop) auto
  moreover have "rtrim (ys @ zs) = ys"
    unfolding rtrim_def rev_append by (subst drop) (use assms in \<open>simp_all add: hd_rev list_all_iff\<close>)
  ultimately show ?thesis by (simp add: trim_def)
qed

lemma stoi_digits:
  assumes "list_all isspace xs" "list_all isspace zs" "n < 2 ^ 31"
  shows "stoi (trim (xs @ digits n @ zs)) = Inr (int n)"
proof -
  note d = digits_ok [of n]
  have h: "is_digit (hd (digits n))" "is_digit (last (digits n))" using d(1,2) by (simp_all add: list_all_iff)
  have "trim (xs @ digits n @ zs) = digits n"
    by (rule trim_padded [OF assms(1,2) d(2)]) (use h digit_no_space in blast)+
  moreover have "dropWhile isspace (digits n) = digits n"
    using d(2) h(1) digit_no_space by (cases "digits n") auto
  moreover have "takeWhile is_digit (digits n) = digits n" using d(1) by (simp add: list_all_iff takeWhile_eq_all_conv)
  ultimately show ?thesis
    using d(2,3) h(1) digit_no_space [OF h(1)] assms(3) by (simp add: stoi_def Let_def int32_def del: takeWhile_eq_all_conv)
qed

section \<open>What the parser returns\<close>

lemma fold_max_ge: "x \<le> fold max xs (x :: int)"
proof (induction xs arbitrary: x)
  case (Cons a xs)
  show ?case using Cons [of "max a x"] by simp
qed simp

lemma parse_text:
  assumes "\<forall>f \<in> set fs. field_ok f" "\<forall>r \<in> set (ids ''core id'' fs) \<union> set (ids ''physical id'' fs). \<exists>v. r = Inr v"
    and "int (length (ids ''processor'' fs)) < 2 ^ 31" "greatest ''core id'' fs + 1 < 2 ^ 31" "greatest ''physical id'' fs + 1 < 2 ^ 31"
    and "(greatest ''core id'' fs + 1) * (greatest ''physical id'' fs + 1) < 2 ^ 31"
  shows "parseCPUInfo (Readable (cpu_text fs)) = Inr \<lparr>n_processors = int (length (ids ''processor'' fs)),
    n_cores = (greatest ''core id'' fs + 1) * (greatest ''physical id'' fs + 1), n_nodes = greatest ''physical id'' fs + 1\<rparr>"
proof -
  have "0 \<le> greatest name fs" for name by (simp add: greatest_def fold_max_ge)
  note g = this [of "''core id''"] this [of "''physical id''"]
  then have "0 \<le> (greatest ''core id'' fs + 1) * (greatest ''physical id'' fs + 1)" by (intro mult_nonneg_nonneg) simp_all
  moreover have "- (2 ^ 31) \<le> (0 :: int)" by simp
  ultimately have "- (2 ^ 31) \<le> (greatest ''core id'' fs + 1) * (greatest ''physical id'' fs + 1)" by (rule order_trans [rotated])
  then have "int32 ((greatest ''core id'' fs + 1) * (greatest ''physical id'' fs + 1))" unfolding int32_def using assms(6) by blast
  moreover have "int32 (greatest ''core id'' fs + 1)" "int32 (greatest ''physical id'' fs + 1)"
    using g assms(4,5) by (simp_all add: int32_def)
  moreover have "cpu_lines (cpu_text fs) \<lparr>n_processors = 0, n_cores = 0, n_nodes = 0\<rparr> =
      Inr \<lparr>n_processors = int (length (ids ''processor'' fs)), n_cores = greatest ''core id'' fs, n_nodes = greatest ''physical id'' fs\<rparr>"
    unfolding cpu_lines_text [OF assms(1)] using assms(3)
    by (subst cpu_fields_ok [OF assms(2)]) (simp_all add: greatest_def)
  ultimately show ?thesis by (simp add: parseCPUInfo_def cpu_file_def to_int_def)
qed

lemma parse_bad_id:
  assumes "\<forall>f \<in> set (fs @ (k, v) # rest). field_ok f" "\<forall>r \<in> set (ids ''core id'' fs) \<union> set (ids ''physical id'' fs). \<exists>v. r = Inr v"
    and "int (length (ids ''processor'' fs)) < 2 ^ 31" "trim k \<in> {''core id'', ''physical id''}" "stoi (trim v) = Inl e"
  shows "parseCPUInfo (Readable (cpu_text (fs @ (k, v) # rest))) = Inl e"
proof -
  let ?i = "\<lparr>n_processors = 0, n_cores = 0, n_nodes = 0\<rparr>"
  obtain info where "cpu_fields fs ?i = Inr info" using cpu_fields_ok [OF assms(2), of ?i] assms(3) by simp
  from cpu_fields_err [OF this assms(4,5)] show ?thesis by (simp add: parseCPUInfo_def cpu_file_def cpu_lines_text [OF assms(1)])
qed

text \<open>Whatever the file says, there is at least one node.\<close>

lemma cpu_field_nodes: "cpu_field k v info = Inr info' \<Longrightarrow> n_nodes info \<le> n_nodes info' \<and> n_cores info \<le> n_cores info'"
  by (auto simp: cpu_field_def bindR_Inr_iff split: if_splits)

lemma cpu_lines_nodes: "cpu_lines s info = Inr info' \<Longrightarrow> n_nodes info \<le> n_nodes info' \<and> n_cores info \<le> n_cores info'"
proof (induction s info arbitrary: info' rule: cpu_lines.induct)
  case (1 s info)
  show ?case
  proof (cases "getline newline s")
    case (Some lr)
    obtain line rest where l: "getline newline s = Some (line, rest)" using Some by (cases lr) simp
    then obtain info1 where i: "cpu_line line info = Inr info1" "cpu_lines rest info1 = Inr info'"
      using "1.prems" by (subst (asm) cpu_lines.simps) (auto simp: bindR_Inr_iff)
    have "n_nodes info \<le> n_nodes info1 \<and> n_cores info \<le> n_cores info1"
      using i(1) cpu_field_nodes by (auto simp: cpu_line_def split: option.splits)
    then show ?thesis using "1.IH" [OF l refl, of info1 info'] i(2) by fastforce
  qed (use "1.prems" in \<open>subst (asm) cpu_lines.simps, simp\<close>)
qed

lemma parse_nodes:
  assumes "parseCPUInfo file = Inr info"
  shows "1 \<le> n_nodes info" "n_nodes info \<le> n_cores info"
proof -
  let ?i = "\<lparr>n_processors = 0, n_cores = 0, n_nodes = 0\<rparr>"
  obtain info0 where r: "cpu_file file ?i = Inr info0"
    and i: "n_nodes info = n_nodes info0 + 1" "n_cores info = (n_cores info0 + 1) * (n_nodes info0 + 1)"
    using assms unfolding parseCPUInfo_def bindR_Inr_iff to_int_def by (auto split: if_splits)
  have "info0 = ?i \<or> (\<exists>s. cpu_lines s ?i = Inr info0)" using r by (auto simp: cpu_file_def bindR_Inr_iff split: cpuinfo_file.splits)
  then have "0 \<le> n_nodes info0" "0 \<le> n_cores info0" using cpu_lines_nodes by fastforce+
  then show "1 \<le> n_nodes info" "n_nodes info \<le> n_cores info" using i by (simp_all add: algebra_simps)
qed

end
