(* ===== verification/NumberProperties.thy ===== *)
theory NumberProperties
  imports RefEnv HeqatMisc CpuInfo
begin

text \<open>
  What the rest of the library relies on when it computes with numbers and containers of numbers:
  the value of every arithmetic operation, the queries on bits, the round trips through
  hexadecimal text, the archive and byte strings, the copies of these in the accelerator's
  library, the positions containers accept, and what is read from \<open>/proc/cpuinfo\<close>. The
  properties rest on the lemmas of \<open>BigNumber\<close>, \<open>BigNumberConv\<close>, \<open>BigNumberBytes\<close>,
  \<open>HeqatMisc\<close>, \<open>CpuInfo\<close>, \<open>Texts\<close> and \<open>CipherText\<close>; the witnesses use the library of \<open>IppReference\<close>.
\<close>

abbreviation ref_I :: "(refbn, int list) env" where
  "ref_I \<equiv> ref_env False True"

lemma ref_I_ok: "ipp_ok ref_I"
  using ref_env_ok [of True] by simp

section \<open>Arithmetic\<close>

text \<open>
  C34: over a library that keeps its contract, the arithmetic operators compute sums, products,
  quotients rounded towards zero and remainders in the range of the modulus, whatever the sizes
  of their operands, and every result is normalised. Differences are right when the operands do
  not have opposite signs; otherwise the room for the result may be too small.
\<close>

theorem arithmetic_values:
  assumes "ipp_ok I"
  shows "bn_val I (bn_plus I a b) = bn_val I a + bn_val I b \<and>
    bn_val I (bn_times I a b) = bn_val I a * bn_val I b \<and>
    (0 \<le> bn_val I a * bn_val I b \<longrightarrow> bn_val I (bn_minus I a b) = bn_val I a - bn_val I b) \<and>
    (bn_val I b \<noteq> 0 \<longrightarrow> bn_val I (bn_div I a b) = tdiv (bn_val I a) (bn_val I b)) \<and>
    (0 < bn_val I b \<longrightarrow> bn_val I (bn_mod I a b) = bn_val I a mod bn_val I b \<and> bn_norm I (bn_mod I a b)) \<and>
    bn_norm I (bn_plus I a b) \<and> bn_norm I (bn_times I a b) \<and> bn_norm I (bn_minus I a b) \<and> bn_norm I (bn_div I a b)"
  using assms by (simp add: bn_simps)

theorem arithmetic_values_witness:
  "fst (bn_plus ref_I (7, 1) (5, 1)) = 12 \<and> fst (bn_times ref_I (7, 1) (5, 1)) = 35 \<and>
   fst (bn_minus ref_I (7, 1) (5, 1)) = 2 \<and> fst (bn_div ref_I (7, 1) (5, 1)) = 1 \<and> fst (bn_mod ref_I (7, 1) (5, 1)) = 2"
  using arithmetic_values [OF ref_I_ok, of "(7, 1)" "(5, 1)"] by (simp add: tdiv_def)

text \<open>
  C39: the queries on bits. The sizes agree: the index of the highest bit set is one below the
  size in bits, and the lowest bit set divides the number. A bit is tested right at every index
  except the size in bits itself when that is a multiple of 32, where the code reads one word too
  far instead of answering that the bit is not set.
\<close>

theorem bit_queries:
  assumes "ipp_ok I" "bn_val I x \<noteq> 0" "0 \<le> i" "i \<noteq> Ref_bits I x \<or> \<not> 32 dvd i"
  shows "BitSize I x = int (nat_bits (bn_mag I x)) \<and>
    (\<exists>k. MSB I x = int k \<and> 2 ^ k \<le> bn_mag I x \<and> bn_mag I x < 2 ^ Suc k) \<and>
    (\<exists>k. LSB I x = int k \<and> 2 ^ k dvd bn_mag I x \<and> odd (bn_mag I x div 2 ^ k)) \<and>
    IsOdd I x = odd (bn_val I x) \<and> TestBit I x i = Inr (odd (bn_mag I x div 2 ^ nat i))"
proof (intro conjI)
  show "BitSize I x = int (nat_bits (bn_mag I x))" by (rule BitSize_val [OF assms(1,2)])
  show "\<exists>k. MSB I x = int k \<and> 2 ^ k \<le> bn_mag I x \<and> bn_mag I x < 2 ^ Suc k"
    by (rule MSB_val [OF assms(1,2)]) blast
  show "\<exists>k. LSB I x = int k \<and> 2 ^ k dvd bn_mag I x \<and> odd (bn_mag I x div 2 ^ k)"
    by (rule LSB_val [OF assms(1,2)]) blast
  show "IsOdd I x = odd (bn_val I x)" by (simp add: IsOdd_val [OF assms(1)])
  show "TestBit I x i = Inr (odd (bn_mag I x div 2 ^ nat i))" by (rule TestBit_val [OF assms(1,3,4)])
qed

theorem bit_queries_witness:
  "\<not> IsOdd ref_I (6, 1) \<and> TestBit ref_I (6, 1) 2 = Inr True \<and> TestBit ref_I (6, 1) 3 = Inr False"
proof -
  have "\<bar>bn_val ref_I (6, 1)\<bar> = int (bn_mag ref_I (6, 1))" by (rule abs_bn_val)
  then have m: "bn_mag ref_I (6, 1) = 6" by simp
  have "\<not> 32 dvd (2 :: int)" "\<not> 32 dvd (3 :: int)" by simp_all
  then show ?thesis
    using bit_queries [OF ref_I_ok, of "(6, 1)" 2] bit_queries [OF ref_I_ok, of "(6, 1)" 3] by (simp add: m)
qed

section \<open>Round trips\<close>

text \<open>
  C36: the hexadecimal text of a number is read back as the number, unless it is zero, whose text
  has no digit, for which the constructor asks the library for a number without words; an archive
  is read back; a text of decimal digits is read as the number it denotes.
\<close>

theorem text_roundtrip:
  assumes "ipp_ok I"
  shows "(if bn_val I x = 0 then BigNumber_str I (num2hex I x) = Inl (Undefined ''a number without words'')
      else \<exists>y. BigNumber_str I (num2hex I x) = Inr y \<and> bn_val I y = bn_val I x) \<and>
    bn_val I (bn_load I (bn_save I x)) = bn_val I x \<and> bn_norm I (bn_load I (bn_save I x)) \<and>
    (s \<noteq> [] \<and> list_all is_digit s \<longrightarrow> (\<exists>y. BigNumber_str I s = Inr y \<and> bn_val I y = dec_val s))"
  using str_num2hex [OF assms, of x] load_save [OF assms, of x] BigNumber_str_decimal [OF assms, of s] by blast

theorem text_roundtrip_witness:
  "(\<exists>y. BigNumber_str ref_I (num2hex ref_I (- 300, 1)) = Inr y \<and> fst y = - 300) \<and>
   fst (bn_load ref_I (bn_save ref_I (- 300, 1))) = - 300 \<and> (\<exists>y. BigNumber_str ref_I ''907'' = Inr y \<and> fst y = 907)"
proof -
  have d: "list_all is_digit ''907''" "dec_val ''907'' = 907" by code_simp+
  show ?thesis using text_roundtrip [OF ref_I_ok, of "(- 300, 1)" "''907''"] d by simp
qed





section \<open>The processor\<close>

text \<open>
  C38: what \<open>/proc/cpuinfo\<close> is read as. For a file of fields, whatever their order, their padding and
  the other fields between them, the parser counts the processors and takes the greatest core and
  package numbers, from which it computes cores and nodes; the first number that \<open>std::stoi\<close>
  refuses stops it with that exception, which nothing catches; a file that does not exist is no
  error, but one node with one core.
\<close>

theorem cpuinfo_counts:
  assumes "\<forall>f \<in> set fs. field_ok f" "\<forall>r \<in> set (ids ''core id'' fs) \<union> set (ids ''physical id'' fs). \<exists>v. r = Inr v"
    and "int (length (ids ''processor'' fs)) < 2 ^ 31" "greatest ''core id'' fs + 1 < 2 ^ 31" "greatest ''physical id'' fs + 1 < 2 ^ 31"
    and "(greatest ''core id'' fs + 1) * (greatest ''physical id'' fs + 1) < 2 ^ 31"
  shows "parseCPUInfo (Readable (cpu_text fs)) = Inr \<lparr>n_processors = int (length (ids ''processor'' fs)),
      n_cores = (greatest ''core id'' fs + 1) * (greatest ''physical id'' fs + 1), n_nodes = greatest ''physical id'' fs + 1\<rparr> \<and>
    (\<forall>k v e rest. field_ok (k, v) \<and> (\<forall>f \<in> set rest. field_ok f) \<and> trim k \<in> {''core id'', ''physical id''} \<and> stoi (trim v) = Inl e \<longrightarrow>
      parseCPUInfo (Readable (cpu_text (fs @ (k, v) # rest))) = Inl e) \<and>
    parseCPUInfo Missing = Inr \<lparr>n_processors = 0, n_cores = 1, n_nodes = 1\<rparr>"
proof (intro conjI allI impI)
  fix k v e rest
  assume h: "field_ok (k, v) \<and> (\<forall>f \<in> set rest. field_ok f) \<and> trim k \<in> {''core id'', ''physical id''} \<and> stoi (trim v) = Inl e"
  then have "\<forall>f \<in> set (fs @ (k, v) # rest). field_ok f" using assms(1) by auto
  then show "parseCPUInfo (Readable (cpu_text (fs @ (k, v) # rest))) = Inl e"
    by (rule parse_bad_id [OF _ assms(2,3)]) (use h in simp_all)
qed (use parse_text [OF assms] in \<open>simp_all add: parseCPUInfo_def cpu_file_def to_int_def int32_def\<close>)

definition ref_fields :: "(string \<times> string) list" where
  "ref_fields = [(''processor '', '' 0''), (''physical id '', '' 0''), (''core id '', '' 3''), (''flags '', '' fpu vme''),
    (''processor '', '' 1''), (''physical id '', '' 1''), (''core id '', '' 5'')]"

theorem cpuinfo_counts_witness:
  "parseCPUInfo (Readable (cpu_text ref_fields)) = Inr \<lparr>n_processors = 2, n_cores = 12, n_nodes = 2\<rparr> \<and>
   parseCPUInfo (Readable (cpu_text (ref_fields @ [(''core id '', '' ?'')]))) = Inl InvalidArgument"
proof -
  have i: "ids ''core id'' ref_fields = [Inr 3, Inr 5]" "ids ''physical id'' ref_fields = [Inr 0, Inr 1]"
    "length (ids ''processor'' ref_fields) = 2" by code_simp+
  then have g: "greatest ''core id'' ref_fields = 5" "greatest ''physical id'' ref_fields = 1" by (simp_all add: greatest_def)
  have f: "\<forall>f \<in> set ref_fields. field_ok f" by (simp add: ref_fields_def field_ok_def newline_def)
  have b: "field_ok (''core id '', '' ?'')" "trim ''core id '' = ''core id''" "stoi (trim '' ?'') = Inl InvalidArgument"
    by (simp add: field_ok_def newline_def) code_simp+
  show ?thesis using cpuinfo_counts [OF f] b by (auto simp: i g)
qed

text \<open>
  Whatever the file says, if the parser returns, it reports at least one node and no more nodes
  than cores, so the division that gives the number of threads is defined.
\<close>

theorem cpuinfo_threads:
  assumes "parseCPUInfo file = Inr info" "runtime_detect C"
  shows "1 \<le> n_nodes info \<and> n_nodes info \<le> n_cores info \<and>
    (\<exists>n. getMaxThreads C (n_nodes info) = Inr n \<and> (num_threads C = None \<longrightarrow> \<bar>n\<bar> \<le> \<bar>hardware_concurrency C\<bar>))"
proof -
  note n = parse_nodes [OF assms(1)]
  have "\<bar>sgn c * sgn m * (\<bar>c\<bar> div \<bar>m\<bar>)\<bar> \<le> \<bar>c\<bar>" if "1 \<le> m" for c m :: int
  proof -
    have "0 \<le> \<bar>c\<bar> div \<bar>m\<bar>" "\<bar>c\<bar> div \<bar>m\<bar> \<le> \<bar>c\<bar>" using that zdiv_mono2 [of "\<bar>c\<bar>" 1 m] by (simp_all add: pos_imp_zdiv_nonneg_iff)
    moreover have "\<bar>sgn c * sgn m\<bar> \<le> 1" by (simp add: sgn_if)
    ultimately show ?thesis using mult_mono [of "\<bar>sgn c * sgn m\<bar>" 1 "\<bar>c\<bar> div \<bar>m\<bar>" "\<bar>c\<bar>"] by (simp add: abs_mult)
  qed
  then show ?thesis using n assms(2) by (auto simp: getMaxThreads_def getNodes_def Let_def split: option.splits)
qed

theorem cpuinfo_threads_witness:
  "1 \<le> n_nodes \<lparr>n_processors = 0, n_cores = 1, n_nodes = 1\<rparr> \<and>
   (\<exists>n. getMaxThreads (ref_config False True\<lparr>runtime_detect := True, num_threads := None\<rparr>) 1 = Inr n)"
proof -
  have "parseCPUInfo Missing = Inr \<lparr>n_processors = 0, n_cores = 1, n_nodes = 1\<rparr>"
    by (simp add: parseCPUInfo_def cpu_file_def to_int_def int32_def)
  from cpuinfo_threads [OF this, of "ref_config False True\<lparr>runtime_detect := True, num_threads := None\<rparr>"] show ?thesis by auto
qed

section \<open>Containers\<close>

text \<open>
  What a container accepts. A number is inserted at any position up to the end, and a range
  is removed if it ends before the last element; a range that reaches the last element is
  refused, although it lies inside the container. The size member stays the length of the vector.
\<close>

theorem text_edits:
  assumes "ipp_ok I" "text_inv t"
  shows "(pos \<le> m_size t \<and> unat (m_size t) + 1 < 2 ^ 64 \<longrightarrow> (\<exists>t'. text_insert I pos bn t = Inr t' \<and> text_inv t' \<and>
      text_vals I t' = take (unat pos) (text_vals I t) @ bn_val I bn # drop (unat pos) (text_vals I t))) \<and>
    (unat pos + unat n < unat (m_size t) \<longrightarrow> (\<exists>t'. text_remove pos n t = Inr t' \<and> text_inv t' \<and>
      text_vals I t' = take (unat pos) (text_vals I t) @ drop (unat pos + unat n) (text_vals I t))) \<and>
    (unat pos + unat n = unat (m_size t) \<longrightarrow>
      text_remove pos n t = Inl (RuntimeError ''BaseText: remove position is out of range''))"
proof (intro conjI impI)
  assume "pos \<le> m_size t \<and> unat (m_size t) + 1 < 2 ^ 64"
  then show "\<exists>t'. text_insert I pos bn t = Inr t' \<and> text_inv t' \<and>
      text_vals I t' = take (unat pos) (text_vals I t) @ bn_val I bn # drop (unat pos) (text_vals I t)"
    by (elim conjE) (rule text_insert_ok [OF assms, of pos bn], assumption, assumption, blast)
next
  assume "unat pos + unat n < unat (m_size t)"
  then show "\<exists>t'. text_remove pos n t = Inr t' \<and> text_inv t' \<and>
      text_vals I t' = take (unat pos) (text_vals I t) @ drop (unat pos + unat n) (text_vals I t)"
    by (rule text_remove_ok [OF assms(2), of pos n I]) blast
qed (rule text_remove_end [OF assms(2)])

theorem text_edits_witness:
  "\<exists>t'. text_insert ref_I 1 (3, 1) ref_pt = Inr t' \<and> text_vals ref_I t' = [40, 3, 10] \<and>
    text_remove 1 1 ref_pt = Inl (RuntimeError ''BaseText: remove position is out of range'')"
  using text_edits [OF ref_I_ok ref_pt_ok(1), of 1 "(3, 1)" 1] by (auto simp: ref_pt_ok(2,3))

text \<open>
  C40: a ciphertext of at least two elements is rotated by a positive shift below its size; every
  negative shift is refused, although the code's comparisons mean to admit it, and a plaintext of
  at least two elements refuses every shift. The comparisons mix signed and unsigned numbers.
\<close>

theorem rotation_shifts:
  assumes "ipp_ok I" "text_inv ct" "1 < unat (m_size ct)" "unat (m_size ct) < 2 ^ 31"
    and "1 < m_size t" "m_size t < 2 ^ 63"
  shows "(0 < sint shift \<and> sint shift < int (unat (m_size ct)) \<longrightarrow>
      (\<exists>c. CipherText_rotate I shift ct = Inr c \<and> text_inv c \<and> m_pk c = PublicKey_copy I (m_pk ct) \<and>
        text_vals I c = rotate (unat (m_size ct) - nat (sint shift)) (text_vals I ct))) \<and>
    (sint shift < 0 \<longrightarrow>
      CipherText_rotate I shift ct = Inl (RuntimeError ''rotate: Cannot shift more than the test size'')) \<and>
    PlainText_rotate I any t = Inl (RuntimeError ''rotate: Cannot shift more than the test size'')"
proof -
  have "m_size ct \<noteq> 1" "m_size ct < 2 ^ 63" using assms(3,4) by (auto simp: word_less_nat_alt)
  then have "sint shift < 0 \<longrightarrow>
      CipherText_rotate I shift ct = Inl (RuntimeError ''rotate: Cannot shift more than the test size'')"
    by (simp add: CipherText_rotate_neg)
  moreover have "\<exists>c. CipherText_rotate I shift ct = Inr c \<and> text_inv c \<and> m_pk c = PublicKey_copy I (m_pk ct) \<and>
      text_vals I c = rotate (unat (m_size ct) - nat (sint shift)) (text_vals I ct)"
    if "0 < sint shift" "sint shift < int (unat (m_size ct))"
    by (rule CipherText_rotate_pos [OF assms(1-4) that]) blast
  ultimately show ?thesis using PlainText_rotate_guard [OF assms(5,6)] by simp
qed

theorem rotation_shifts_witness:
  "\<exists>c. CipherText_rotate ref_I 1 ref_ct = Inr c \<and> text_vals ref_I c = rotate 1 (text_vals ref_I ref_ct) \<and>
    CipherText_rotate ref_I (- 1) ref_ct = Inl (RuntimeError ''rotate: Cannot shift more than the test size'') \<and>
    PlainText_rotate ref_I 0 ref_pt = Inl (RuntimeError ''rotate: Cannot shift more than the test size'')"
proof -
  have c: "text_inv ref_ct" "unat (m_size ref_ct) = 2"
    using ref_ct_ok(2) ct_encD(1,4) [OF ref_ct_ok(2)] by (simp_all add: text_inv_def)
  have p: "1 < m_size ref_pt" "m_size ref_pt < 2 ^ 63" by (simp_all add: ref_pt_ok(3))
  have s: "sint (1 :: u32) = 1" "sint (- 1 :: u32) = - 1" by simp_all
  show ?thesis
    using rotation_shifts [OF ref_I_ok c(1) _ _ p, of 1 0] rotation_shifts [OF ref_I_ok c(1) _ _ p, of "- 1" 0]
    by (auto simp: c(2) s)
qed

end
