(* ===== verification/QatModExp.thy ===== *)
theory QatModExp
  imports BigNumberBytes
begin

text \<open>
  The two functions of \<open>ipcl/mod_exp.cpp\<close> that send exponentiations to the accelerator, in the build
  without \<open>IPCL_USE_QAT_LITE\<close>. Operands go as byte strings of the length of the first modulus, in
  slices of at most \<open>batch_size\<close>.

  What they call is a service: a slice of operands and the size in bits goes in, and the contents of
  the result buffers come out when the last request of the slice is collected; \<open>None\<close> is a failure to
  acquire a buffer. The memory the functions allocate for themselves is always there.
\<close>

type_synonym batch_service = "(u8 list \<times> u8 list \<times> u8 list) list \<Rightarrow> int \<Rightarrow> u8 list list option"

definition bin_of :: "('b, 'z) ipp_scheme \<Rightarrow> int \<Rightarrow> 'b \<Rightarrow> u8 list result" where
  "bin_of I len x =
    bindR (toBin I (replicate (nat len) 0) len x) (\<lambda>(ret, data). if ret then Inr data else Inl (ProcessExit 1))"

definition qat_operands :: "('b, 'z) ipp_scheme \<Rightarrow> int \<Rightarrow> 'b list \<Rightarrow> 'b list \<Rightarrow> 'b list \<Rightarrow> nat
    \<Rightarrow> (u8 list \<times> u8 list \<times> u8 list) result" where
  "qat_operands I len base expo md k =
    bindR (vec_at base k) (\<lambda>b. bindR (bin_of I len b) (\<lambda>bb.
    bindR (vec_at expo k) (\<lambda>e. bindR (bin_of I len e) (\<lambda>eb.
    bindR (vec_at md k) (\<lambda>m. bindR (bin_of I len m) (\<lambda>mb. Inr (bb, eb, mb)))))))"

definition qat_result :: "('b, 'z) ipp_scheme \<Rightarrow> int \<Rightarrow> u8 list \<Rightarrow> 'b result" where
  "qat_result I len out =
    bindR (fromBin I out len) (\<lambda>ret. case ret of None \<Rightarrow> Inl (ProcessExit 1) | Some raw \<Rightarrow> Inr (raw_copy I raw))"

text \<open>One slice: \<open>quantity\<close> elements from index \<open>off\<close> on.\<close>

definition qat_slice :: "('b, 'z) ipp_scheme \<Rightarrow> batch_service \<Rightarrow> int \<Rightarrow> int \<Rightarrow> 'b list \<Rightarrow> 'b list \<Rightarrow> 'b list
    \<Rightarrow> nat \<times> nat \<Rightarrow> 'b list result" where
  "qat_slice I srv len nbits base expo md = (\<lambda>(off, quantity).
    bindR (mapR (\<lambda>i. qat_operands I len base expo md (off + i)) [0 ..< quantity]) (\<lambda>ops.
    case srv ops nbits of
      None \<Rightarrow> Inl (ProcessExit 1)
    | Some outs \<Rightarrow> mapR (\<lambda>i. bindR (vec_at outs i) (qat_result I len)) [0 ..< quantity]))"

definition heQatBnModExp_MT_bytes :: "('b, 'z) ipp_scheme \<Rightarrow> batch_service \<Rightarrow> 'b list \<Rightarrow> 'b list \<Rightarrow> 'b list
    \<Rightarrow> nat \<Rightarrow> 'b list result" where
  "heQatBnModExp_MT_bytes I srv base expo md batch_size =
    (if md = [] then Inl (Undefined ''front of an empty vector'')
     else if batch_size = 0 then Inl (Undefined ''division by zero'')
     else let len = BITSIZE_WORD (BitSize I (hd md)) * 4;
              nbits = 8 * len;
              worksize = length base mod 2 ^ 32;
              nslices = (worksize + batch_size - 1) mod 2 ^ 32 div batch_size;
              residue = worksize mod batch_size
          in mapR_concat (qat_slice I srv len nbits base expo md)
               (map (\<lambda>j. (j * batch_size, if j = nslices - 1 \<and> residue > 0 then residue else batch_size)) [0 ..< nslices]))"

definition heQatBnModExp :: "('b, 'z) ipp_scheme \<Rightarrow> batch_service \<Rightarrow> 'b list \<Rightarrow> 'b list \<Rightarrow> 'b list
    \<Rightarrow> nat \<Rightarrow> 'b list result" where
  "heQatBnModExp I srv base expo md batch_size =
    (if md = [] then Inl (Undefined ''front of an empty vector'')
     else if batch_size = 0 then Inl (Undefined ''division by zero'')
     else let len = BITSIZE_WORD (BitSize I (hd md)) * 4;
              nbits = 8 * len;
              worksize = length base mod 2 ^ 32;
              (nslices, residue, batch_size) =
                (if worksize div batch_size = 0 then (1, 0, worksize)
                 else (worksize div batch_size, worksize mod batch_size, batch_size))
          in bindR (mapR_concat (qat_slice I srv len nbits base expo md)
               (map (\<lambda>j. (j * batch_size, batch_size)) [0 ..< nslices])) (\<lambda>res.
             if residue > 0
             then bindR (qat_slice I srv len nbits base expo md (nslices * batch_size, residue)) (\<lambda>rest. Inr (res @ rest))
             else Inr res))"

section \<open>The two functions agree\<close>

lemma mapR_append:
  "mapR f (xs @ ys) = bindR (mapR f xs) (\<lambda>us. bindR (mapR f ys) (\<lambda>vs. Inr (us @ vs)))"
proof (induction xs)
  case (Cons x xs)
  then show ?case by (cases "f x"; cases "mapR f xs"; cases "mapR f ys") (simp_all add: bindR_def)
qed (cases "mapR f ys"; simp add: bindR_def)

lemma mapR_concat_snoc:
  "mapR_concat f (xs @ [y]) = bindR (mapR_concat f xs) (\<lambda>us. bindR (f y) (\<lambda>vs. Inr (us @ vs)))"
  unfolding mapR_concat_def mapR_append by (cases "mapR f xs"; cases "f y") (simp_all add: bindR_def)

text \<open>The slices of \<open>n\<close> elements.\<close>

definition slices :: "nat \<Rightarrow> nat \<Rightarrow> (nat \<times> nat) list" where
  "slices n batch = map (\<lambda>j. (j * batch, batch)) [0 ..< n div batch] @
    (if n mod batch > 0 then [(n div batch * batch, n mod batch)] else [])"

lemma slices_MT:
  assumes "0 < batch" "n + batch \<le> 2 ^ 32"
  shows "map (\<lambda>j. (j * batch, if j = (n + batch - 1) mod 2 ^ 32 div batch - 1 \<and> n mod batch > 0 then n mod batch else batch))
    [0 ..< (n + batch - 1) mod 2 ^ 32 div batch] = slices n batch"
proof -
  have m: "(n + batch - 1) mod 2 ^ 32 = n + batch - 1" using assms by simp
  have d: "n = n div batch * batch + n mod batch" by simp
  show ?thesis
  proof (cases "n mod batch = 0")
    case True
    then obtain q where q: "n = q * batch" by (metis d add_0_right)
    have "(n + batch - 1) div batch = q"
      unfolding q by (rule div_nat_eqI) (use assms(1) in \<open>simp_all add: algebra_simps\<close>)
    then show ?thesis unfolding m using True assms(1) by (simp add: slices_def q)
  next
    case False
    then have r: "0 < n mod batch" "n mod batch < batch" using assms(1) by simp_all
    have q: "batch * (n div batch) + n mod batch = n" by simp
    have "(n + batch - 1) div batch = n div batch + 1"
      by (rule div_nat_eqI; unfold add_mult_distrib2 mult_Suc_right mult_1_right add_Suc_right [symmetric] Suc_eq_plus1)
        (use r q in linarith)+
    then show ?thesis unfolding m using r by (simp add: slices_def)
  qed
qed

lemma MT_slices:
  assumes "md \<noteq> []" "0 < batch" "length base + batch \<le> 2 ^ 32"
  shows "heQatBnModExp_MT_bytes I srv base expo md batch =
    (let len = BITSIZE_WORD (BitSize I (hd md)) * 4
     in mapR_concat (qat_slice I srv len (8 * len) base expo md) (slices (length base) batch))"
proof -
  have w: "length base mod 2 ^ 32 = length base" using assms(2,3) by simp
  show ?thesis
    unfolding heQatBnModExp_MT_bytes_def Let_def w slices_MT [OF assms(2,3)] using assms by simp
qed

lemma legacy_slices:
  assumes "md \<noteq> []" "0 < batch" "length base + batch \<le> 2 ^ 32" "base \<noteq> []"
  shows "heQatBnModExp I srv base expo md batch =
    (let len = BITSIZE_WORD (BitSize I (hd md)) * 4
     in mapR_concat (qat_slice I srv len (8 * len) base expo md) (slices (length base) batch))"
proof -
  have w: "length base mod 2 ^ 32 = length base" using assms(2,3) by simp
  define f where "f = qat_slice I srv (BITSIZE_WORD (BitSize I (hd md)) * 4)
    (8 * (BITSIZE_WORD (BitSize I (hd md)) * 4)) base expo md"
  show ?thesis
  proof (cases "length base < batch")
    case True
    then have s: "slices (length base) batch = [(0, length base)]" using assms(4) by (simp add: slices_def)
    show ?thesis
      using True assms unfolding heQatBnModExp_def Let_def w s f_def [symmetric]
      by (simp add: bindR_def split: sum.split)
  next
    case False
    then have d: "length base div batch \<noteq> 0" using assms(2) by (simp add: div_eq_0_iff)
    show ?thesis
      using assms d unfolding heQatBnModExp_def Let_def w slices_def f_def [symmetric]
      by (simp add: mapR_concat_snoc) (simp add: bindR_def split: sum.split)
  qed
qed

lemma MT_eq_legacy:
  assumes "0 < batch" "length base + batch \<le> 2 ^ 32" "base \<noteq> []"
  shows "heQatBnModExp_MT_bytes I srv base expo md batch = heQatBnModExp I srv base expo md batch"
proof (cases "md = []")
  case True
  then show ?thesis by (simp add: heQatBnModExp_MT_bytes_def heQatBnModExp_def)
next
  case False
  show ?thesis unfolding MT_slices [OF False assms(1,2)] legacy_slices [OF False assms] ..
qed

section \<open>What they compute\<close>

text \<open>A service that computes powers: results have the length of the operands.\<close>

definition service_ok :: "batch_service \<Rightarrow> bool" where
  "service_ok srv \<longleftrightarrow> (\<forall>ops n.
    (\<forall>(b, e, m) \<in> set ops. length b = n \<and> length e = n \<and> length m = n \<and> 0 < be_val m) \<longrightarrow>
    (\<exists>outs. srv ops (8 * int n) = Some outs \<and> length outs = length ops \<and>
      (\<forall>i < length ops. length (outs ! i) = n \<and>
        (case ops ! i of (b, e, m) \<Rightarrow> be_val (outs ! i) = be_val b ^ be_val e mod be_val m))))"

lemma mapR_ex:
  assumes "\<forall>x \<in> set xs. \<exists>y. f x = Inr y \<and> P x y"
  shows "\<exists>ys. mapR f xs = Inr ys \<and> list_all2 P xs ys"
  using assms
proof (induction xs)
  case (Cons x xs)
  then obtain y ys where "f x = Inr y" "P x y" "mapR f xs = Inr ys" "list_all2 P xs ys"
    by (metis list.set_intros)
  then show ?case by simp
qed simp

lemma bin_of_ok:
  assumes "ipp_ok I" "4 * bn_nw I x \<le> n" "0 \<le> bn_val I x"
  shows "\<exists>bs. bin_of I (int n) x = Inr bs \<and> length bs = n \<and> int (be_val bs) = bn_val I x"
proof -
  obtain bs where "toBin I (replicate n 0) (int n) x = Inr (True, bs)" "length bs = n" "be_val bs = bn_mag I x"
    using toBin_ok [OF assms(1,2)] by blast
  then show ?thesis using abs_bn_val [of I x] assms(3) by (simp add: bin_of_def)
qed

text \<open>An element that fits: its operands are as long as the first modulus or shorter.\<close>

definition qat_fits :: "('b, 'z) ipp_scheme \<Rightarrow> nat \<Rightarrow> 'b \<Rightarrow> 'b \<Rightarrow> 'b \<Rightarrow> bool" where
  "qat_fits I n b e m \<longleftrightarrow> 4 * bn_nw I b \<le> n \<and> 4 * bn_nw I e \<le> n \<and> 4 * bn_nw I m \<le> n \<and>
    0 \<le> bn_val I b \<and> 0 \<le> bn_val I e \<and> 0 < bn_val I m"

lemma qat_operands_ok:
  assumes "ipp_ok I" "qat_fits I n (base ! k) (expo ! k) (md ! k)"
    and "k < length base" "k < length expo" "k < length md"
  shows "\<exists>y. qat_operands I (int n) base expo md k = Inr y \<and>
    (case y of (b, e, m) \<Rightarrow> length b = n \<and> length e = n \<and> length m = n \<and> 0 < be_val m \<and>
      int (be_val b) = bn_val I (base ! k) \<and> int (be_val e) = bn_val I (expo ! k) \<and> int (be_val m) = bn_val I (md ! k))"
proof -
  obtain b where b: "bin_of I (int n) (base ! k) = Inr b" "length b = n" "int (be_val b) = bn_val I (base ! k)"
    using bin_of_ok [OF assms(1)] assms(2) unfolding qat_fits_def by blast
  obtain e where e: "bin_of I (int n) (expo ! k) = Inr e" "length e = n" "int (be_val e) = bn_val I (expo ! k)"
    using bin_of_ok [OF assms(1)] assms(2) unfolding qat_fits_def by blast
  obtain m where m: "bin_of I (int n) (md ! k) = Inr m" "length m = n" "int (be_val m) = bn_val I (md ! k)"
    using bin_of_ok [OF assms(1)] assms(2) unfolding qat_fits_def by (metis less_imp_le)
  have "0 < be_val m" using m(3) assms(2) by (simp add: qat_fits_def flip: of_nat_0_less_iff [where 'a = int])
  then show ?thesis using b e m assms(3-5) by (simp add: qat_operands_def)
qed

text \<open>A result that is read back exactly: not a positive multiple of \<open>2\<^sup>3\<^sup>2\<close>.\<close>

definition readable :: "int \<Rightarrow> bool" where
  "readable v \<longleftrightarrow> v mod 2 ^ 32 \<noteq> 0 \<or> v = 0"

lemma qat_result_ok:
  assumes "ipp_ok I" "length out = 4 * Suc w" "readable (int (be_val out))"
  shows "\<exists>y. qat_result I (int (4 * Suc w)) out = Inr y \<and> bn_val I y = int (be_val out) \<and> bn_norm I y"
proof -
  have "int (low_word out) = int (be_val out) mod 2 ^ 32"
    using low_word_mod [of out] assms(2) by (simp add: zmod_int)
  then have "low_word out \<noteq> 0 \<or> be_val out = 0" using assms(3) unfolding readable_def by auto
  from fromBin_exact [OF assms(1,2) this] show ?thesis unfolding assms(2) by (auto simp: qat_result_def)
qed

definition qat_power :: "('b, 'z) ipp_scheme \<Rightarrow> 'b list \<Rightarrow> 'b list \<Rightarrow> 'b list \<Rightarrow> nat \<Rightarrow> int" where
  "qat_power I base expo md k = bn_val I (base ! k) ^ nat (bn_val I (expo ! k)) mod bn_val I (md ! k)"

text \<open>The operands of a slice, and what the service returns for them.\<close>

lemma slice_operands:
  assumes i: "ipp_ok I"
    and l: "off + q \<le> length base" "length expo = length base" "length md = length base"
    and fit: "\<And>k. k < length base \<Longrightarrow> qat_fits I (4 * Suc w) (base ! k) (expo ! k) (md ! k)"
  shows "\<exists>ops. mapR (\<lambda>i. qat_operands I (int (4 * Suc w)) base expo md (off + i)) [0 ..< q] = Inr ops \<and> length ops = q \<and>
    (\<forall>k < q. case ops ! k of (b, e, m) \<Rightarrow> length b = 4 * Suc w \<and> length e = 4 * Suc w \<and> length m = 4 * Suc w \<and> 0 < be_val m \<and>
      int (be_val b) = bn_val I (base ! (off + k)) \<and> int (be_val e) = bn_val I (expo ! (off + k)) \<and>
      int (be_val m) = bn_val I (md ! (off + k)))"
proof -
  let ?n = "4 * Suc w"
  let ?P = "\<lambda>i (b, e, m). length b = ?n \<and> length e = ?n \<and> length m = ?n \<and> 0 < be_val m \<and>
      int (be_val b) = bn_val I (base ! (off + i)) \<and> int (be_val e) = bn_val I (expo ! (off + i)) \<and>
      int (be_val m) = bn_val I (md ! (off + i))"
  have "\<forall>i \<in> set [0 ..< q]. \<exists>y. qat_operands I (int ?n) base expo md (off + i) = Inr y \<and> ?P i y"
    by (rule ballI, rule qat_operands_ok [OF i]) (use l fit in auto)
  from mapR_ex [OF this] obtain ops where
    ops: "mapR (\<lambda>i. qat_operands I (int ?n) base expo md (off + i)) [0 ..< q] = Inr ops" "list_all2 ?P [0 ..< q] ops"
    by blast
  have "?P k (ops ! k)" if "k < q" for k using list_all2_nthD [OF ops(2), of k] that by simp
  then show ?thesis using ops(1) list_all2_lengthD [OF ops(2)] by (intro exI [of _ ops]) simp
qed

lemma service_outputs:
  assumes "service_ok srv" "\<forall>k < length ops. case ops ! k of (b, e, m) \<Rightarrow> length b = n \<and> length e = n \<and> length m = n \<and> 0 < be_val m"
  shows "\<exists>outs. srv ops (8 * int n) = Some outs \<and> length outs = length ops \<and> (\<forall>k < length ops. length (outs ! k) = n \<and>
    (case ops ! k of (b, e, m) \<Rightarrow> be_val (outs ! k) = be_val b ^ be_val e mod be_val m))"
proof -
  have "\<forall>x \<in> set ops. case x of (b, e, m) \<Rightarrow> length b = n \<and> length e = n \<and> length m = n \<and> 0 < be_val m"
    using assms(2) unfolding all_set_conv_all_nth .
  then show ?thesis using assms(1) unfolding service_ok_def by blast
qed

lemma qat_slice_ok:
  assumes i: "ipp_ok I" and srv: "service_ok srv"
    and l: "off + q \<le> length base" "length expo = length base" "length md = length base"
    and fit: "\<And>k. k < length base \<Longrightarrow> qat_fits I (4 * Suc w) (base ! k) (expo ! k) (md ! k)"
    and rd: "\<And>k. k < length base \<Longrightarrow> readable (qat_power I base expo md k)"
  shows "\<exists>ys. qat_slice I srv (int (4 * Suc w)) (8 * int (4 * Suc w)) base expo md (off, q) = Inr ys \<and>
    map (bn_val I) ys = map (\<lambda>i. qat_power I base expo md (off + i)) [0 ..< q] \<and> (\<forall>y \<in> set ys. bn_norm I y)"
proof -
  let ?n = "4 * Suc w"
  obtain ops where ops: "mapR (\<lambda>i. qat_operands I (int ?n) base expo md (off + i)) [0 ..< q] = Inr ops" "length ops = q"
    and P: "\<forall>k < q. case ops ! k of (b, e, m) \<Rightarrow> length b = ?n \<and> length e = ?n \<and> length m = ?n \<and> 0 < be_val m \<and>
      int (be_val b) = bn_val I (base ! (off + k)) \<and> int (be_val e) = bn_val I (expo ! (off + k)) \<and>
      int (be_val m) = bn_val I (md ! (off + k))"
    using slice_operands [OF i l fit] by blast
  have "\<forall>k < length ops. case ops ! k of (b, e, m) \<Rightarrow> length b = ?n \<and> length e = ?n \<and> length m = ?n \<and> 0 < be_val m"
    using P ops(2) by (auto split: prod.splits)
  from service_outputs [OF srv this] obtain outs where outs: "srv ops (8 * int ?n) = Some outs" "length outs = q"
    "\<forall>k < q. length (outs ! k) = ?n \<and> (case ops ! k of (b, e, m) \<Rightarrow> be_val (outs ! k) = be_val b ^ be_val e mod be_val m)"
    unfolding ops(2) by blast
  have val: "int (be_val (outs ! k)) = qat_power I base expo md (off + k)" if k: "k < q" for k
  proof -
    obtain b e m where o3: "ops ! k = (b, e, m)" by (cases "ops ! k") auto
    have p: "int (be_val b) = bn_val I (base ! (off + k))" "int (be_val e) = bn_val I (expo ! (off + k))"
      "int (be_val m) = bn_val I (md ! (off + k))" "be_val (outs ! k) = be_val b ^ be_val e mod be_val m"
      using P outs(3) k o3 by auto
    have e: "nat (bn_val I (expo ! (off + k))) = be_val e" using p(2) by (metis nat_int)
    show ?thesis unfolding qat_power_def e p(4) p(1) [symmetric] p(3) [symmetric] by (simp add: zmod_int)
  qed
  have "\<forall>k \<in> set [0 ..< q]. \<exists>y. bindR (vec_at outs k) (qat_result I (int ?n)) = Inr y \<and>
      (bn_val I y = qat_power I base expo md (off + k) \<and> bn_norm I y)"
  proof
    fix k assume "k \<in> set [0 ..< q]"
    then have k: "k < q" by simp
    then have "readable (int (be_val (outs ! k)))" using rd [of "off + k"] val [OF k] l(1) by simp
    then show "\<exists>y. bindR (vec_at outs k) (qat_result I (int ?n)) = Inr y \<and>
        (bn_val I y = qat_power I base expo md (off + k) \<and> bn_norm I y)"
      using qat_result_ok [OF i, of "outs ! k" w] outs(2,3) val k by simp
  qed
  from mapR_ex [OF this] obtain ys where
    ys: "mapR (\<lambda>i. bindR (vec_at outs i) (qat_result I (int ?n))) [0 ..< q] = Inr ys"
      "list_all2 (\<lambda>k y. bn_val I y = qat_power I base expo md (off + k) \<and> bn_norm I y) [0 ..< q] ys"
    by blast
  have "qat_slice I srv (int ?n) (8 * int ?n) base expo md (off, q) = Inr ys"
    unfolding qat_slice_def prod.case ops(1) bindR_Inr outs(1) option.case ys(1) ..
  moreover have "map (bn_val I) ys = map (\<lambda>i. qat_power I base expo md (off + i)) [0 ..< q]"
    by (rule nth_equalityI) (use ys(2) in \<open>auto simp: list_all2_conv_all_nth\<close>)
  moreover have "\<forall>y \<in> set ys. bn_norm I y" using ys(2) by (auto simp: list_all2_conv_all_nth in_set_conv_nth)
  ultimately show ?thesis by blast
qed

lemma slices_bounds: "(off, q) \<in> set (slices n batch) \<Longrightarrow> 0 < batch \<Longrightarrow> off + q \<le> n"
proof -
  assume s: "(off, q) \<in> set (slices n batch)" and "0 < batch"
  have d: "n div batch * batch + n mod batch = n" by simp
  have "j * batch + batch \<le> n" if "j < n div batch" for j
  proof -
    have "(j + 1) * batch \<le> n div batch * batch" using that by (intro mult_le_mono1) simp
    also have "n div batch * batch \<le> n" by (rule div_times_less_eq_dividend)
    finally show ?thesis by (simp add: algebra_simps)
  qed
  then show "off + q \<le> n" using s d by (auto simp: slices_def split: if_splits)
qed

lemma slices_cover: "0 < batch \<Longrightarrow> concat (map (\<lambda>(off, q). map (\<lambda>i. f (off + i)) [0 ..< q]) (slices n batch)) = map f [0 ..< n]"
proof -
  assume "0 < batch"
  have full: "concat (map (\<lambda>j. map (\<lambda>i. f (j * batch + i)) [0 ..< batch]) [0 ..< k]) = map f [0 ..< k * batch]" for k
  proof (induction k)
    case (Suc k)
    have "[0 ..< k * batch + batch] = [0 ..< k * batch] @ [k * batch ..< k * batch + batch]"
      by (rule upt_add_eq_append) simp
    then have "map f [0 ..< Suc k * batch] = map f [0 ..< k * batch] @ map f [k * batch ..< k * batch + batch]"
      by (simp add: add.commute)
    moreover have "map f [k * batch ..< k * batch + batch] = map (\<lambda>i. f (k * batch + i)) [0 ..< batch]"
      by (rule nth_equalityI) simp_all
    ultimately show ?case using Suc by simp
  qed simp
  have "map f [0 ..< n] = map f [0 ..< n div batch * batch] @ map (\<lambda>i. f (n div batch * batch + i)) [0 ..< n mod batch]"
    by (rule nth_equalityI) (auto simp: nth_append less_diff_conv2)
  then show ?thesis using full [of "n div batch"] by (auto simp: slices_def comp_def)
qed

lemma mapR_concat_ex:
  assumes "\<forall>x \<in> set xs. \<exists>ys. f x = Inr ys \<and> map g ys = h x \<and> (\<forall>y \<in> set ys. Q y)"
  shows "\<exists>ys. mapR_concat f xs = Inr ys \<and> map g ys = concat (map h xs) \<and> (\<forall>y \<in> set ys. Q y)"
proof -
  obtain yss where y: "mapR f xs = Inr yss" "list_all2 (\<lambda>x ys. map g ys = h x \<and> (\<forall>y \<in> set ys. Q y)) xs yss"
    using mapR_ex [OF assms] by blast
  have "map g (concat yss) = concat (map h xs) \<and> (\<forall>y \<in> set (concat yss). Q y)"
    using y(2) by (induction rule: list_all2_induct) auto
  then show ?thesis using y(1) by (simp add: mapR_concat_def)
qed

lemma heQatBnModExp_MT_ok:
  assumes i: "ipp_ok I" and srv: "service_ok srv" and b: "0 < batch" "length base + batch \<le> 2 ^ 32"
    and l: "md \<noteq> []" "length expo = length base" "length md = length base"
    and w: "bn_nw I (hd md) = Suc w" "BITSIZE_WORD (BitSize I (hd md)) = int (Suc w)"
    and fit: "\<And>k. k < length base \<Longrightarrow> qat_fits I (4 * Suc w) (base ! k) (expo ! k) (md ! k)"
    and rd: "\<And>k. k < length base \<Longrightarrow> readable (qat_power I base expo md k)"
  shows "\<exists>ys. heQatBnModExp_MT_bytes I srv base expo md batch = Inr ys \<and>
    map (bn_val I) ys = map (qat_power I base expo md) [0 ..< length base] \<and> (\<forall>y \<in> set ys. bn_norm I y)"
proof -
  have n: "int (Suc w) * 4 = int (4 * Suc w)" by simp
  have "\<exists>ys. mapR_concat (qat_slice I srv (int (4 * Suc w)) (8 * int (4 * Suc w)) base expo md) (slices (length base) batch) = Inr ys \<and>
      map (bn_val I) ys = concat (map (\<lambda>(off, q). map (\<lambda>i. qat_power I base expo md (off + i)) [0 ..< q]) (slices (length base) batch)) \<and>
      (\<forall>y \<in> set ys. bn_norm I y)"
  proof (rule mapR_concat_ex, rule ballI)
    fix x assume x: "x \<in> set (slices (length base) batch)"
    obtain off q where oq: "x = (off, q)" by (cases x)
    have "off + q \<le> length base" using slices_bounds x oq b(1) by blast
    from qat_slice_ok [OF i srv this l(2,3) fit rd] show "\<exists>ys.
      qat_slice I srv (int (4 * Suc w)) (8 * int (4 * Suc w)) base expo md x = Inr ys \<and>
      map (bn_val I) ys = (case x of (off, q) \<Rightarrow> map (\<lambda>i. qat_power I base expo md (off + i)) [0 ..< q]) \<and>
      (\<forall>y \<in> set ys. bn_norm I y)" unfolding oq prod.case .
  qed
  then show ?thesis
    unfolding MT_slices [OF l(1) b] w(2) Let_def n slices_cover [OF b(1)] .
qed

section \<open>What the library needs of an accelerator\<close>

text \<open>
  The interface between the library's batches and whatever serves them: for a valid accelerator the
  service returns the powers of its operands. Both functions that send batches then compute powers.
\<close>

locale power_server =
  fixes valid :: "'d \<Rightarrow> bool" and serve :: "'d \<Rightarrow> batch_service"
  assumes served: "valid d \<Longrightarrow> service_ok (serve d)"
begin

lemma batches_powers:
  assumes "valid d" "ipp_ok I" "0 < batch" "length base + batch \<le> 2 ^ 32"
    and "md \<noteq> []" "length expo = length base" "length md = length base"
    and "bn_nw I (hd md) = Suc w" "BITSIZE_WORD (BitSize I (hd md)) = int (Suc w)"
    and "\<And>k. k < length base \<Longrightarrow> qat_fits I (4 * Suc w) (base ! k) (expo ! k) (md ! k)"
    and "\<And>k. k < length base \<Longrightarrow> readable (qat_power I base expo md k)"
  shows "\<exists>ys. heQatBnModExp_MT_bytes I (serve d) base expo md batch = Inr ys \<and>
    map (bn_val I) ys = map (qat_power I base expo md) [0 ..< length base] \<and> (\<forall>y \<in> set ys. bn_norm I y)"
  by (rule heQatBnModExp_MT_ok [OF assms(2) served [OF assms(1)] assms(3-)])

end

end
