(* ===== verification/ModExpProperties.thy ===== *)
theory ModExpProperties
  imports RefEnv QatModExp
begin

text \<open>
  Modular exponentiation as its clients see it: the multi-buffer path, the single-buffer path and
  the accelerator give the same powers, the hybrid split keeps the order of the elements, and the
  ratio of the split stays in the range that \<open>modExp\<close> checks, except after one documented mode.
  The batches of the accelerator's functions are covered too. The properties rest on the lemmas of
  \<open>ModExp\<close>, \<open>Hybrid\<close> and \<open>QatModExp\<close>.
\<close>

abbreviation ref_C :: "(refbn, int list) env" where
  "ref_C \<equiv> ref_env False True"

lemma ref_C_ok: "ipp_me_ok ref_C"
  by (rule ref_env_me_ok)

lemma ref_chunk: "chunk (ref_env qat omp) [(2, 1), (3, 1)] [(3, 1), (2, 1)] [(5, 1), (7, 1)]"
  by (simp add: chunk_def chunk_ok_def same_size_def lane_def All_less_Suc numeral_2_eq_2)
    (simp add: dwords_def nat_bits.simps)

section \<open>The paths of the dispatch\<close>

text \<open>
  C23: on bases below odd moduli above 1, of one size, and exponents not above the moduli, the
  multi-buffer path, which works on eight numbers at a time, and the loop over single numbers
  both succeed and give the same numbers: the powers.
\<close>

theorem multi_buffer_eq_single:
  assumes "ipp_me_ok I" "chunk I bs es ms"
  shows "\<exists>xs ys. ippMBModExpWrapper I bs es ms = Inr xs \<and> ippSBModExpWrapper I bs es ms = Inr ys \<and>
    map (bn_val I) xs = map (bn_val I) ys \<and>
    map (bn_val I) xs = map (\<lambda>i. mpow (bn_val I (bs ! i)) (bn_val I (es ! i)) (bn_val I (ms ! i))) [0 ..< length bs]"
  using ippMBModExpWrapper_ok [OF assms] ippSBModExpWrapper_ok [OF assms] by (auto simp: powers_of_list)

theorem multi_buffer_eq_single_witness:
  "\<exists>xs ys. ippMBModExpWrapper ref_C [(2, 1), (3, 1)] [(3, 1), (2, 1)] [(5, 1), (7, 1)] = Inr xs \<and>
    ippSBModExpWrapper ref_C [(2, 1), (3, 1)] [(3, 1), (2, 1)] [(5, 1), (7, 1)] = Inr ys \<and>
    map fst xs = [3, 2] \<and> map fst ys = [3, 2]"
proof -
  have v: "bn_val ref_C = fst" by (rule ext) simp
  have u: "[0 ..< Suc (Suc 0)] = [0, 1]" by (simp add: upt_rec)
  show ?thesis
    using multi_buffer_eq_single [OF ref_C_ok ref_chunk] by (auto simp: v u mpow_def)
qed

text \<open>
  A single exponentiation succeeds and gives the power when the base is in range and the
  modulus is odd and above 1; a negative exponent is refused with an exception.
\<close>

theorem single_power:
  assumes "ipp_me_ok I" "mont_neg_ok I" "0 \<le> bn_val I b" "bn_val I b < bn_val I m" "odd (bn_val I m)" "1 < bn_val I m"
  shows "if 0 \<le> bn_val I e
    then \<exists>r. modExp_1 I b e m = Inr r \<and> bn_norm I r \<and> bn_val I r = bn_val I b ^ nat (bn_val I e) mod bn_val I m
    else \<exists>msg. modExp_1 I b e m = Inl (RuntimeError msg)"
proof (cases "0 \<le> bn_val I e")
  case True
  then have "lane (bn_val I b) (bn_val I e) (bn_val I m)" using assms by (simp add: lane_def)
  then show ?thesis using True modExp_1_ok [OF assms(1)] unfolding mpow_def by (metis (full_types))
next
  case False
  then show ?thesis
    using ippSBModExp_neg [OF assms(1,2) _ assms(3-5)] by (simp add: modExp_1_def ippModExp_1_def)
qed

theorem single_power_witness:
  "(\<exists>r. modExp_1 ref_C (2, 1) (10, 1) (1001, 1) = Inr r \<and> fst r = 23) \<and>
   (\<exists>msg. modExp_1 ref_C (2, 1) (- 1, 1) (1001, 1) = Inl (RuntimeError msg))"
proof -
  obtain y where "ref_C = ref_me y" using ref_env_ref_me by blast
  then have n: "mont_neg_ok ref_C" by (simp add: ref_mont_ops)
  show ?thesis
    using single_power [OF ref_C_ok n, of "(2, 1)" "(1001, 1)" "(10, 1)"]
      single_power [OF ref_C_ok n, of "(2, 1)" "(1001, 1)" "(- 1, 1)"] by auto
qed

section \<open>The accelerator\<close>

text \<open>A service for the witnesses: powers of the numbers in the byte strings.\<close>

definition to_be :: "nat \<Rightarrow> nat \<Rightarrow> u8 list" where
  "to_be n v = rev (map (\<lambda>i. of_nat (v div 256 ^ i)) [0 ..< n])"

definition ref_service :: batch_service where
  "ref_service ops nbits =
    Some (map (\<lambda>(b, e, m). to_be (nat (nbits div 8)) (be_val b ^ be_val e mod be_val m)) ops)"

lemma bytes_val_digits: "bytes_val (map (\<lambda>i. of_nat (v div 256 ^ i)) [0 ..< n]) = v mod 256 ^ n"
proof (induction n)
  case (Suc n)
  have "v mod 256 ^ Suc n = v mod 256 ^ n + 256 ^ n * (v div 256 ^ n mod 256)"
    unfolding power_Suc2 using mod_mult2_eq [of v "256 ^ n" 256] by simp
  then show ?case by (simp add: bytes_val_append Suc unat_of_nat del: power_Suc)
qed simp

lemma be_val_to_be: "v < 256 ^ n \<Longrightarrow> be_val (to_be n v) = v"
  by (simp add: be_val_def to_be_def bytes_val_digits)

lemma ref_service_ok: "service_ok ref_service"
  unfolding service_ok_def
proof (intro allI impI)
  fix ops :: "(u8 list \<times> u8 list \<times> u8 list) list" and n
  assume a: "\<forall>(b, e, m) \<in> set ops. length b = n \<and> length e = n \<and> length m = n \<and> 0 < be_val m"
  let ?out = "\<lambda>(b, e, m). to_be n (be_val b ^ be_val e mod be_val m)"
  have s: "ref_service ops (8 * int n) = Some (map ?out ops)" by (simp add: ref_service_def)
  have "length (map ?out ops ! i) = n \<and>
      (case ops ! i of (b, e, m) \<Rightarrow> be_val (map ?out ops ! i) = be_val b ^ be_val e mod be_val m)"
    if i: "i < length ops" for i
  proof -
    obtain b e m where t: "ops ! i = (b, e, m)" by (metis prod_cases3)
    have "(b, e, m) \<in> set ops" using nth_mem [OF i] t by simp
    then have m: "length m = n" "0 < be_val m" using a by auto
    have "be_val m < 256 ^ n" using bytes_val_bound [of "rev m"] m(1) by (simp add: be_val_def)
    then have "be_val b ^ be_val e mod be_val m < 256 ^ n"
      using m(2) by (meson less_trans mod_less_divisor)
    then show ?thesis using i by (simp add: t be_val_to_be) (simp add: to_be_def)
  qed
  then show "\<exists>outs. ref_service ops (8 * int n) = Some outs \<and> length outs = length ops \<and>
      (\<forall>i < length ops. length (outs ! i) = n \<and>
        (case ops ! i of (b, e, m) \<Rightarrow> be_val (outs ! i) = be_val b ^ be_val e mod be_val m))"
    using s by simp
qed

definition ref_Q :: "(refbn, int list) env" where
  "ref_Q = (ref_env True False)\<lparr>heQatBnModExp_MT := heQatBnModExp_MT_bytes (ref_env True False) ref_service\<rparr>"

lemma ref_Q_ref_me: "\<exists>y. ref_Q = ref_me y"
  by (simp add: ref_Q_def ref_env_def ref_me_def ref_ipp_def)

lemma ref_Q_ok: "ipp_me_ok ref_Q"
proof -
  obtain y where y: "ref_Q = ref_me y" using ref_Q_ref_me by blast
  show ?thesis unfolding y by (rule ref_me_ok)
qed

lemma ref_Q_sel [simp]: "Config ref_Q = ref_config True False"
  "heQatBnModExp_MT ref_Q = heQatBnModExp_MT_bytes (ref_env True False) ref_service" "bn_val ref_Q x = fst x"
proof -
  obtain y where y: "ref_Q = ref_me y" using ref_Q_ref_me by blast
  show "bn_val ref_Q x = fst x" unfolding y by (rule ref_me_val)
qed (simp_all add: ref_Q_def)



text \<open>
  The two functions that send batches to the accelerator agree, for every service, every
  batch size that is not zero and every number of elements for which the slice count does not
  overflow: they cut the work into the same slices, in the same order.
\<close>

theorem batches_eq_legacy:
  assumes "0 < batch" "length base + batch \<le> 2 ^ 32" "base \<noteq> []"
  shows "heQatBnModExp_MT_bytes I srv base expo md batch = heQatBnModExp I srv base expo md batch"
  by (rule MT_eq_legacy [OF assms])

theorem batches_eq_legacy_witness:
  "heQatBnModExp_MT_bytes ref_C ref_service [(2, 1), (3, 1), (4, 1)] [(3, 1), (2, 1), (1, 1)] [(5, 1), (7, 1), (9, 1)] 2 =
    heQatBnModExp ref_C ref_service [(2, 1), (3, 1), (4, 1)] [(3, 1), (2, 1), (1, 1)] [(5, 1), (7, 1), (9, 1)] 2"
  by (rule batches_eq_legacy) simp_all

section \<open>The hybrid split\<close>

definition powers :: "('b, 'z) ipp_scheme \<Rightarrow> 'b list \<Rightarrow> 'b list \<Rightarrow> 'b list \<Rightarrow> int list" where
  "powers I bs es ms = map (\<lambda>i. mpow (bn_val I (bs ! i)) (bn_val I (es ! i)) (bn_val I (ms ! i))) [0 ..< length bs]"

lemma powers_part:
  assumes "ipp_ok I" "chunk I bs es ms" "off + k \<le> length bs" "0 < k"
  defines "cp xs \<equiv> map (BigNumber_copy I) (take k (drop off xs))"
  shows "chunk I (cp bs) (cp es) (cp ms)" "length (cp bs) = k"
    "powers I (cp bs) (cp es) (cp ms) = take k (drop off (powers I bs es ms))"
proof -
  note P = chunk_part [OF assms(1-4), folded cp_def]
  show "chunk I (cp bs) (cp es) (cp ms)" "length (cp bs) = k" by (rule P(1), rule P(2))
  show "powers I (cp bs) (cp es) (cp ms) = take k (drop off (powers I bs es ms))"
    by (rule nth_equalityI) (use assms(3) in \<open>simp_all add: powers_def P(2-5)\<close>)
qed



text \<open>The calls that set the split, and a sequence of them.\<close>

datatype hybrid_call = SetRatio rat bool | SetMode HybridMode | SetOff | Tune nat rat

fun run_call :: "config \<Rightarrow> hybrid_call \<Rightarrow> hybrid \<Rightarrow> unit result \<times> hybrid" where
  "run_call C (SetRatio r b) w = setHybridRatio C r b w"
| "run_call C (SetMode m) w = setHybridMode C m w"
| "run_call C SetOff w = setHybridOff C w"
| "run_call C (Tune n r) w = optimal_ratio C n r w"

definition hybrid_calls :: "config \<Rightarrow> hybrid_call list \<Rightarrow> hybrid" where
  "hybrid_calls C cs = fold (\<lambda>c w. snd (run_call C c w)) cs g_hybrid_init"

lemma f32_pos_pos: "0 < x \<Longrightarrow> 0 < f32_pos x"
proof -
  assume x: "0 < x"
  have "2 ^ 23 * pow2 (f32_exp x) * pow2 (- f32_exp x) \<le> x * pow2 (- f32_exp x)"
    using f32_exp_lower [OF x] by (intro mult_right_mono) (simp_all add: less_imp_le)
  then have "2 ^ 23 \<le> x * pow2 (- f32_exp x)" by (simp add: mult.assoc pow2_minus)
  then have "1 \<le> \<lfloor>x * pow2 (- f32_exp x)\<rfloor>" by simp
  then show ?thesis by (simp add: f32_pos_def round_half_even_def Let_def)
qed

lemma mode_ratio: "m \<noteq> UNDEFINED \<Longrightarrow> 0 \<le> scale_down (mode_value m) 100 \<and> scale_down (mode_value m) 100 \<le> 1"
  unfolding scale_down_def by (rule f32_unit) (cases m; simp)+

text \<open>
  C26: after any sequence of calls that set the ratio, set a mode, switch the split off or tune it
  to a workload, refused calls included, the ratio is in the range that \<open>modExp\<close> checks, so no
  exponentiation fails for it, unless the mode \<open>UNDEFINED\<close> is set. Setting this mode, which the
  interface offers, puts the ratio below zero, and the next exponentiation throws.
\<close>

theorem ratio_invariant:
  assumes "use_qat (Config I)" "use_omp (Config I)"
  shows "(SetMode UNDEFINED \<notin> set cs \<longrightarrow> ratio_ok (hybrid_calls (Config I) cs)) \<and>
    modExp I bs es ms (hybrid_calls (Config I) (cs @ [SetMode UNDEFINED])) =
      (Inl (RuntimeError ''modExp: hybrid modexp qat ratio is incorrect''),
       hybrid_calls (Config I) (cs @ [SetMode UNDEFINED]))"
proof
  have step: "ratio_ok w \<Longrightarrow> c \<noteq> SetMode UNDEFINED \<Longrightarrow> ratio_ok (snd (run_call (Config I) c w))" for c w
  proof (cases c)
    case (SetMode m)
    then show "ratio_ok w \<Longrightarrow> c \<noteq> SetMode UNDEFINED \<Longrightarrow> ?thesis"
      using mode_ratio [of m] by (simp add: setHybridMode_def Let_def ratio_ok_def)
  next
    case (Tune n r)
    then show "ratio_ok w \<Longrightarrow> ?thesis"
      using ratios_unit(1,2) by (auto simp: optimal_ratio_def isHybridOptimal_def Let_def setHybridRatio_run ratio_ok_def)
  qed (auto simp: setHybridRatio_run setHybridOff_def ratio_ok_def)
  have "ratio_ok w \<Longrightarrow> SetMode UNDEFINED \<notin> set cs \<Longrightarrow> ratio_ok (fold (\<lambda>c w. snd (run_call (Config I) c w)) cs w)" for w
  proof (induction cs arbitrary: w)
    case (Cons c cs)
    have "ratio_ok (snd (run_call (Config I) c w))" by (rule step) (use Cons.prems in auto)
    then show ?case using Cons.IH Cons.prems(2) by (simp del: run_call.simps)
  qed simp
  moreover have "ratio_ok g_hybrid_init" by (simp add: ratio_ok_def g_hybrid_init_def)
  ultimately show "SetMode UNDEFINED \<notin> set cs \<longrightarrow> ratio_ok (hybrid_calls (Config I) cs)"
    unfolding hybrid_calls_def by blast
  have "scale_down (- 1) 100 < 0" using f32_pos_pos [of "1 / 100"] by (simp add: scale_down_def f32_def)
  then have "\<not> ratio_ok (hybrid_calls (Config I) (cs @ [SetMode UNDEFINED]))"
    by (simp add: hybrid_calls_def setHybridMode_def Let_def assms(1) ratio_ok_def)
  then show "modExp I bs es ms (hybrid_calls (Config I) (cs @ [SetMode UNDEFINED])) =
      (Inl (RuntimeError ''modExp: hybrid modexp qat ratio is incorrect''),
       hybrid_calls (Config I) (cs @ [SetMode UNDEFINED]))"
    by (rule modExp_bad_ratio [OF assms])
qed

theorem ratio_invariant_witness:
  "ratio_ok (hybrid_calls (ref_config True True) [SetRatio 2 True, SetMode PREF_QAT80, Tune 1000 (1 / 4)]) \<and>
   fst (modExp (ref_env True True) [(2, 1)] [(3, 1)] [(5, 1)] (hybrid_calls (ref_config True True) [SetMode UNDEFINED])) =
     Inl (RuntimeError ''modExp: hybrid modexp qat ratio is incorrect'')"
  using ratio_invariant [of "ref_env True True" "[SetRatio 2 True, SetMode PREF_QAT80, Tune 1000 (1 / 4)]"]
    ratio_invariant [of "ref_env True True" "[]" "[(2, 1)]" "[(3, 1)]" "[(5, 1)]"] by simp

end
