(* ===== verification/RequestBuffer.thy ===== *)
theory RequestBuffer
  imports Prelude
begin

text \<open>
  The request buffers of the accelerator's runtime (\<open>module/heqat/heqat/ctrl.c\<close> and the types of
  \<open>heqat/common/types.h\<close>): a ring of \<open>HE_QAT_BUFFER_SIZE\<close> pointers with a counter, the index of
  the next free slot, of the next request to process and of the next result to collect.
  A pointer is an address or \<open>None\<close> for \<open>NULL\<close>; an array is a function of its index.

  The body of a function between locking and unlocking the buffer's mutex is one step; where the
  code waits on a condition variable the step is not possible yet and the model's value is
  \<open>None\<close>. The counters are C's \<open>unsigned int\<close>, with the wrap-around written out.

  The ring refines a bounded queue: the locale \<open>bounded_fifo\<close> states the contract of such a queue,
  with the lemmas its clients use.
\<close>

section \<open>The types of the runtime\<close>

definition HE_QAT_NUM_ACTIVE_INSTANCES :: nat where "HE_QAT_NUM_ACTIVE_INSTANCES = 8"

definition HE_QAT_BUFFER_SIZE :: nat where "HE_QAT_BUFFER_SIZE = 1024"

definition HE_QAT_BUFFER_COUNT :: nat where "HE_QAT_BUFFER_COUNT = HE_QAT_NUM_ACTIVE_INSTANCES"

definition HE_QAT_MAX_RETRY :: nat where "HE_QAT_MAX_RETRY = 100"

definition NUM_PKE_SLICES :: nat where "NUM_PKE_SLICES = 6"

named_theorems qat_consts "the runtime's numeric constants"

declare HE_QAT_NUM_ACTIVE_INSTANCES_def [qat_consts] HE_QAT_BUFFER_SIZE_def [qat_consts]
  HE_QAT_BUFFER_COUNT_def [qat_consts] HE_QAT_MAX_RETRY_def [qat_consts] NUM_PKE_SLICES_def [qat_consts]

datatype HE_QAT_STATUS = HE_QAT_STATUS_ACTIVE | HE_QAT_STATUS_RUNNING | HE_QAT_STATUS_INVALID_PARAM
  | HE_QAT_STATUS_READY | HE_QAT_STATUS_SUCCESS | HE_QAT_STATUS_FAIL | HE_QAT_STATUS_INACTIVE

datatype HE_QAT_OP = HE_QAT_OP_NONE | HE_QAT_OP_MODEXP

type_synonym ptr = "nat option"

record reqbuf =
  rb_data :: "nat \<Rightarrow> ptr"
  rb_count :: nat
  rb_next_free_slot :: nat
  rb_next_data_slot :: nat
  rb_next_data_out :: nat

record tasklist =
  tl_request :: "nat \<Rightarrow> ptr"
  tl_count :: nat

definition uint_add :: "nat \<Rightarrow> nat \<Rightarrow> nat" where
  "uint_add a b = (a + b) mod 2 ^ 32"

definition uint_sub :: "nat \<Rightarrow> nat \<Rightarrow> nat" where
  "uint_sub a b = (a + (2 ^ 32 - b mod 2 ^ 32)) mod 2 ^ 32"

lemma uint_add_small [simp]: "a + b < 2 ^ 32 \<Longrightarrow> uint_add a b = a + b"
  by (simp add: uint_add_def)

lemma uint_sub_small [simp]:
  assumes "b \<le> a" "a < 2 ^ 32"
  shows "uint_sub a b = a - b"
proof -
  have b: "b mod 2 ^ 32 = b" using assms by simp
  have eq: "a + (2 ^ 32 - b) = (a - b) + 2 ^ 32" using assms by simp
  show ?thesis unfolding uint_sub_def b eq mod_add_self2 by (rule mod_less) (use assms(2) in simp)
qed

definition ring_next :: "nat \<Rightarrow> nat" where
  "ring_next s = uint_add s 1 mod HE_QAT_BUFFER_SIZE"

lemma ring_next_mod: "ring_next ((a + k) mod HE_QAT_BUFFER_SIZE) = (a + Suc k) mod HE_QAT_BUFFER_SIZE"
proof -
  have "(a + k) mod HE_QAT_BUFFER_SIZE < 1024" by (simp add: qat_consts)
  then show ?thesis by (simp add: ring_next_def mod_simps)
qed

lemma ring_distinct_le:
  assumes "(a + i) mod N = (a + j) mod N" "i \<le> j" "j < (N :: nat)"
  shows "i = j"
proof -
  have "N dvd (a + j) - (a + i)" using assms(1,2) mod_eq_dvd_iff_nat [of "a + i" "a + j" N] by simp
  then have "N dvd j - i" by simp
  then show ?thesis using assms(2,3) by (auto dest!: dvd_imp_le)
qed

lemma ring_distinct:
  assumes "(a + i) mod N = (a + j) mod N" "i < N" "j < (N :: nat)"
  shows "i = j"
  using ring_distinct_le [of a i N j] ring_distinct_le [of a j N i] assms by linarith

lemma ring_advance: "c \<le> n \<Longrightarrow> ((a + c) mod N + (n - c)) mod N = (a + n) mod (N :: nat)"
  by (metis add.assoc le_add_diff_inverse mod_add_left_eq)

section \<open>Operations of a buffer\<close>

definition submit_request :: "ptr \<Rightarrow> reqbuf \<Rightarrow> reqbuf option" where
  "submit_request args b =
    (if rb_count b \<ge> HE_QAT_BUFFER_SIZE then None
     else Some (b\<lparr>rb_data := (rb_data b)(rb_next_free_slot b := args),
                  rb_next_free_slot := ring_next (rb_next_free_slot b),
                  rb_count := uint_add (rb_count b) 1\<rparr>))"

definition store_request :: "nat \<Rightarrow> tasklist \<times> reqbuf \<Rightarrow> tasklist \<times> reqbuf" where
  "store_request i = (\<lambda>(r, b).
    (r\<lparr>tl_request := (tl_request r)(i := None)\<rparr>,
     b\<lparr>rb_data := (rb_data b)(rb_next_free_slot b := tl_request r i),
       rb_next_free_slot := ring_next (rb_next_free_slot b)\<rparr>))"

definition submit_request_list :: "tasklist \<Rightarrow> reqbuf \<Rightarrow> (tasklist \<times> reqbuf) option" where
  "submit_request_list r b =
    (if tl_count r = 0 then Some (r, b)
     else if rb_count b \<ge> HE_QAT_BUFFER_SIZE \<or> uint_sub HE_QAT_BUFFER_SIZE (rb_count b) < tl_count r
     then None
     else let (r', b') = fold store_request [0 ..< tl_count r] (r, b)
          in Some (r'\<lparr>tl_count := 0\<rparr>, b'\<lparr>rb_count := uint_add (rb_count b') (tl_count r)\<rparr>))"

definition fetch_request :: "nat \<Rightarrow> tasklist \<times> reqbuf \<Rightarrow> tasklist \<times> reqbuf" where
  "fetch_request i = (\<lambda>(r, b).
    (r\<lparr>tl_request := (tl_request r)(i := rb_data b (rb_next_data_slot b))\<rparr>,
     b\<lparr>rb_next_data_slot := ring_next (rb_next_data_slot b)\<rparr>))"

definition read_request_list :: "tasklist \<Rightarrow> nat \<Rightarrow> reqbuf \<Rightarrow> (tasklist \<times> reqbuf) option" where
  "read_request_list r max_requests b =
    (if rb_count b = 0 then None
     else let count = (if rb_count b < max_requests then rb_count b else max_requests);
              (r', b') = fold fetch_request [0 ..< count] (r, b)
          in Some (r'\<lparr>tl_count := count\<rparr>, b'\<lparr>rb_count := uint_sub (rb_count b') count\<rparr>))"

section \<open>The ring as a queue\<close>

definition rb_elems :: "reqbuf \<Rightarrow> ptr list" where
  "rb_elems b = map (\<lambda>k. rb_data b ((rb_next_data_slot b + k) mod HE_QAT_BUFFER_SIZE)) [0 ..< rb_count b]"

definition rb_inv :: "reqbuf \<Rightarrow> bool" where
  "rb_inv b \<longleftrightarrow> rb_count b \<le> HE_QAT_BUFFER_SIZE \<and> rb_next_data_slot b < HE_QAT_BUFFER_SIZE \<and>
    rb_next_free_slot b = (rb_next_data_slot b + rb_count b) mod HE_QAT_BUFFER_SIZE"

definition tl_elems :: "tasklist \<Rightarrow> ptr list" where
  "tl_elems r = map (tl_request r) [0 ..< tl_count r]"

lemma rb_elems_length [simp]: "length (rb_elems b) = rb_count b"
  by (simp add: rb_elems_def)

lemma tl_elems_length [simp]: "length (tl_elems r) = tl_count r"
  by (simp add: tl_elems_def)

lemma rb_inv_count: "rb_inv b \<Longrightarrow> rb_count b \<le> HE_QAT_BUFFER_SIZE"
  by (simp add: rb_inv_def)

lemma submit_request_ok:
  assumes "rb_inv b" "submit_request x b = Some b'"
  shows "rb_inv b' \<and> rb_elems b' = rb_elems b @ [x]"
proof -
  let ?N = HE_QAT_BUFFER_SIZE
  have lt: "rb_count b < ?N" and b': "b' = b\<lparr>rb_data := (rb_data b)(rb_next_free_slot b := x),
      rb_next_free_slot := ring_next (rb_next_free_slot b), rb_count := Suc (rb_count b)\<rparr>"
    using assms by (auto simp: submit_request_def qat_consts split: if_splits)
  have i: "rb_next_data_slot b < ?N"
    "rb_next_free_slot b = (rb_next_data_slot b + rb_count b) mod ?N"
    using assms(1) by (simp_all add: rb_inv_def)
  have "(rb_next_data_slot b + k) mod ?N \<noteq> rb_next_free_slot b" if "k < rb_count b" for k
    using that lt ring_distinct [of "rb_next_data_slot b" k ?N "rb_count b"] i(2) by auto
  then have "rb_elems b' = rb_elems b @ [x]" by (simp add: b' rb_elems_def i(2))
  moreover have "rb_inv b'" using lt i by (simp add: rb_inv_def b' ring_next_mod)
  ultimately show ?thesis by simp
qed

lemma submit_request_None: "submit_request x b = None \<longleftrightarrow> HE_QAT_BUFFER_SIZE \<le> rb_count b"
  by (simp add: submit_request_def)

lemma store_requests:
  assumes "n \<le> HE_QAT_BUFFER_SIZE" "rb_next_free_slot b = a mod HE_QAT_BUFFER_SIZE"
    and "fold store_request [0 ..< n] (r, b) = (r', b')"
  shows "rb_next_free_slot b' = (a + n) mod HE_QAT_BUFFER_SIZE \<and>
    rb_count b' = rb_count b \<and> rb_next_data_slot b' = rb_next_data_slot b \<and>
    rb_next_data_out b' = rb_next_data_out b \<and> tl_count r' = tl_count r \<and>
    (\<forall>k. tl_request r' k = (if k < n then None else tl_request r k)) \<and>
    (\<forall>k < n. rb_data b' ((a + k) mod HE_QAT_BUFFER_SIZE) = tl_request r k) \<and>
    (\<forall>s. (\<forall>k < n. s \<noteq> (a + k) mod HE_QAT_BUFFER_SIZE) \<longrightarrow> rb_data b' s = rb_data b s)"
  using assms
proof (induction n arbitrary: r' b')
  case 0
  then show ?case by simp
next
  case (Suc n)
  obtain r1 b1 where 1: "fold store_request [0 ..< n] (r, b) = (r1, b1)" by fastforce
  have 2: "store_request n (r1, b1) = (r', b')" using Suc.prems(3) 1 by simp
  have n: "n \<le> HE_QAT_BUFFER_SIZE" using Suc.prems(1) by simp
  note IH = Suc.IH [OF n Suc.prems(2) 1]
  have ne: "(a + k) mod HE_QAT_BUFFER_SIZE \<noteq> (a + n) mod HE_QAT_BUFFER_SIZE" if "k < n" for k
    using ring_distinct [of a k HE_QAT_BUFFER_SIZE n] that Suc.prems(1) by auto
  have r': "r' = r1\<lparr>tl_request := (tl_request r1)(n := None)\<rparr>"
    and b': "b' = b1\<lparr>rb_data := (rb_data b1)((a + n) mod HE_QAT_BUFFER_SIZE := tl_request r n),
      rb_next_free_slot := (a + Suc n) mod HE_QAT_BUFFER_SIZE\<rparr>"
    using 2 IH by (simp_all add: store_request_def ring_next_mod)
  show ?case using IH ne unfolding r' b' by (auto simp: less_Suc_eq)
qed

lemma submit_request_list_ok:
  assumes "rb_inv b" "submit_request_list r b = Some (r', b')"
  shows "rb_inv b' \<and> rb_elems b' = rb_elems b @ tl_elems r \<and> tl_count r' = 0"
proof (cases "tl_count r = 0")
  case True
  then show ?thesis using assms by (simp add: submit_request_list_def tl_elems_def)
next
  case False
  let ?N = HE_QAT_BUFFER_SIZE
  let ?n = "tl_count r"
  let ?a = "rb_next_data_slot b + rb_count b"
  obtain r1 b1 where f: "fold store_request [0 ..< ?n] (r, b) = (r1, b1)" by fastforce
  have i: "rb_count b \<le> ?N" "rb_next_data_slot b < ?N" "rb_next_free_slot b = ?a mod ?N"
    using assms(1) by (simp_all add: rb_inv_def)
  have g: "rb_count b + ?n \<le> ?N"
    using assms(2) False i(1) by (auto simp: submit_request_list_def qat_consts split: if_splits)
  then have n: "?n \<le> ?N" by simp
  note st = store_requests [OF n i(3) f]
  have b': "b' = b1\<lparr>rb_count := rb_count b + ?n\<rparr>" and r': "tl_count r' = 0"
    using assms(2) False f g st
    by (auto simp: submit_request_list_def qat_consts split: if_splits)
  have inv: "rb_inv b'" using st i g by (simp add: rb_inv_def b' add.assoc)
  have old: "rb_data b1 ((rb_next_data_slot b + k) mod ?N) = rb_data b ((rb_next_data_slot b + k) mod ?N)"
    if k: "k < rb_count b" for k
  proof -
    have "(rb_next_data_slot b + k) mod ?N \<noteq> (?a + j) mod ?N" if "j < ?n" for j
      using ring_distinct [of "rb_next_data_slot b" k ?N "rb_count b + j"] k that g by (auto simp: add.assoc)
    then show ?thesis using st by blast
  qed
  have new: "rb_data b1 ((rb_next_data_slot b + (rb_count b + k)) mod ?N) = tl_request r k" if "k < ?n" for k
    using st that by (simp add: add.assoc)
  have "rb_elems b' = rb_elems b @ tl_elems r"
  proof (rule nth_equalityI)
    fix k assume "k < length (rb_elems b')"
    then have "k < rb_count b \<or> (\<exists>j < ?n. k = rb_count b + j)"
      by (simp add: b') (metis add_diff_inverse_nat nat_add_left_cancel_less)
    then show "rb_elems b' ! k = (rb_elems b @ tl_elems r) ! k"
      using old new st by (auto simp: rb_elems_def tl_elems_def b' nth_append)
  qed (simp add: b')
  then show ?thesis using inv r' by simp
qed

lemma submit_request_list_None:
  assumes "rb_inv b" "0 < tl_count r"
  shows "submit_request_list r b = None \<longleftrightarrow> HE_QAT_BUFFER_SIZE < rb_count b + tl_count r"
  using assms by (auto simp: submit_request_list_def rb_inv_def qat_consts split: prod.splits)

lemma fetch_requests:
  assumes "rb_next_data_slot b = a mod HE_QAT_BUFFER_SIZE"
    and "fold fetch_request [0 ..< n] (r, b) = (r', b')"
  shows "b' = b\<lparr>rb_next_data_slot := (a + n) mod HE_QAT_BUFFER_SIZE\<rparr> \<and> tl_count r' = tl_count r \<and>
    (\<forall>k. tl_request r' k = (if k < n then rb_data b ((a + k) mod HE_QAT_BUFFER_SIZE) else tl_request r k))"
  using assms(2)
proof (induction n arbitrary: r' b')
  case 0
  then show ?case using assms(1) by simp
next
  case (Suc n)
  obtain r1 b1 where 1: "fold fetch_request [0 ..< n] (r, b) = (r1, b1)" by fastforce
  have 2: "fetch_request n (r1, b1) = (r', b')" using Suc.prems 1 by simp
  show ?case using Suc.IH [OF 1] 2 by (auto simp: fetch_request_def ring_next_mod less_Suc_eq)
qed

lemma read_request_list_ok:
  assumes "rb_inv b" "read_request_list r m b = Some (r', b')"
  shows "rb_inv b' \<and> rb_elems b = tl_elems r' @ rb_elems b' \<and> tl_count r' = min (rb_count b) m \<and>
    rb_next_free_slot b' = rb_next_free_slot b"
proof -
  let ?N = HE_QAT_BUFFER_SIZE
  let ?n = "min (rb_count b) m"
  obtain r1 b1 where f: "fold fetch_request [0 ..< ?n] (r, b) = (r1, b1)" by fastforce
  have i: "rb_count b \<le> ?N" "rb_next_data_slot b < ?N"
    "rb_next_free_slot b = (rb_next_data_slot b + rb_count b) mod ?N"
    using assms(1) by (simp_all add: rb_inv_def)
  have d: "rb_next_data_slot b = rb_next_data_slot b mod ?N" using i(2) by simp
  note ft = fetch_requests [OF d f]
  have n: "(if rb_count b < m then rb_count b else m) = ?n" by simp
  have u: "uint_sub (rb_count b) ?n = rb_count b - ?n" using i(1) by (simp add: qat_consts)
  have b1: "b1 = b\<lparr>rb_next_data_slot := (rb_next_data_slot b + ?n) mod ?N\<rparr>" using ft by blast
  have b': "b' = b1\<lparr>rb_count := rb_count b - ?n\<rparr>" and r': "r' = r1\<lparr>tl_count := ?n\<rparr>"
    using assms(2) f by (auto simp: read_request_list_def n Let_def u b1 split: if_splits)
  have "((rb_next_data_slot b + ?n) mod ?N + (rb_count b - ?n)) mod ?N = (rb_next_data_slot b + rb_count b) mod ?N"
    by (rule ring_advance) simp
  then have inv: "rb_inv b'" using i by (simp add: rb_inv_def b' b1)
  have "rb_elems b = tl_elems r' @ rb_elems b'"
    by (rule nth_equalityI)
      (use ft in \<open>auto simp: rb_elems_def tl_elems_def b' b1 r' nth_append mod_simps add.assoc\<close>)
  then show ?thesis using inv by (simp add: r' b' b1)
qed

lemma read_request_list_None: "read_request_list r m b = None \<longleftrightarrow> rb_count b = 0"
  by (simp add: read_request_list_def split_beta Let_def)


section \<open>The contract of a bounded queue\<close>

text \<open>
  \<open>put\<close> and \<open>put_all\<close> wait while there is no room, \<open>get\<close> waits while there is nothing to take and
  then takes at most the given number of elements.
\<close>

datatype 'e fifo_event = Put 'e | PutAll "'e list" | Get nat

fun event_in :: "'e fifo_event \<Rightarrow> 'e list" where
  "event_in (Put x) = [x]"
| "event_in (PutAll xs) = xs"
| "event_in (Get n) = []"

fun fifo_run :: "('e \<Rightarrow> 'b \<Rightarrow> 'b option) \<Rightarrow> ('e list \<Rightarrow> 'b \<Rightarrow> 'b option) \<Rightarrow>
    (nat \<Rightarrow> 'b \<Rightarrow> ('e list \<times> 'b) option) \<Rightarrow> 'e fifo_event list \<Rightarrow> 'b \<Rightarrow> ('e list \<times> 'b) option" where
  "fifo_run put put_all get [] b = Some ([], b)"
| "fifo_run put put_all get (Put x # es) b =
    Option.bind (put x b) (fifo_run put put_all get es)"
| "fifo_run put put_all get (PutAll xs # es) b =
    Option.bind (put_all xs b) (fifo_run put put_all get es)"
| "fifo_run put put_all get (Get n # es) b =
    Option.bind (get n b) (\<lambda>(xs, b'). map_option (\<lambda>(ys, c). (xs @ ys, c)) (fifo_run put put_all get es b'))"

locale bounded_fifo =
  fixes inv :: "'b \<Rightarrow> bool" and elems :: "'b \<Rightarrow> 'e list" and cap :: nat
    and put :: "'e \<Rightarrow> 'b \<Rightarrow> 'b option" and put_all :: "'e list \<Rightarrow> 'b \<Rightarrow> 'b option"
    and get :: "nat \<Rightarrow> 'b \<Rightarrow> ('e list \<times> 'b) option"
  assumes cap_ok: "inv b \<Longrightarrow> length (elems b) \<le> cap"
    and put_ok: "inv b \<Longrightarrow> put x b = Some b' \<Longrightarrow> inv b' \<and> elems b' = elems b @ [x]"
    and put_None: "inv b \<Longrightarrow> put x b = None \<longleftrightarrow> cap \<le> length (elems b)"
    and put_all_ok: "inv b \<Longrightarrow> put_all xs b = Some b' \<Longrightarrow> inv b' \<and> elems b' = elems b @ xs"
    and put_all_None: "inv b \<Longrightarrow> xs \<noteq> [] \<Longrightarrow> put_all xs b = None \<longleftrightarrow> cap < length (elems b) + length xs"
    and get_ok: "inv b \<Longrightarrow> get n b = Some (xs, b') \<Longrightarrow>
      inv b' \<and> elems b = xs @ elems b' \<and> length xs = min (length (elems b)) n"
    and get_None: "inv b \<Longrightarrow> get n b = None \<longleftrightarrow> elems b = []"
begin

lemma run_order:
  "inv b \<Longrightarrow> fifo_run put put_all get es b = Some (out, b') \<Longrightarrow>
    inv b' \<and> out @ elems b' = elems b @ concat (map event_in es)"
proof (induction es arbitrary: b out)
  case (Cons e es)
  show ?case
  proof (cases e)
    case (Put x)
    then obtain b1 where 1: "put x b = Some b1" "fifo_run put put_all get es b1 = Some (out, b')"
      using Cons.prems(2) by (auto simp: bind_eq_Some_conv)
    show ?thesis
      using put_ok [OF Cons.prems(1) 1(1)] Cons.IH [OF _ 1(2)] by (simp add: Put)
  next
    case (PutAll xs)
    then obtain b1 where 1: "put_all xs b = Some b1" "fifo_run put put_all get es b1 = Some (out, b')"
      using Cons.prems(2) by (auto simp: bind_eq_Some_conv)
    show ?thesis
      using put_all_ok [OF Cons.prems(1) 1(1)] Cons.IH [OF _ 1(2)] by (simp add: PutAll)
  next
    case (Get n)
    then obtain xs b1 ys where 1: "get n b = Some (xs, b1)"
      "fifo_run put put_all get es b1 = Some (ys, b')" "out = xs @ ys"
      using Cons.prems(2) by (auto simp: bind_eq_Some_conv)
    show ?thesis
      using get_ok [OF Cons.prems(1) 1(1)] Cons.IH [OF _ 1(2)] by (simp add: Get 1(3))
  qed
qed simp

lemma run_bounded:
  assumes "inv b" "fifo_run put put_all get es b = Some (out, b')"
  shows "length (elems b @ concat (map event_in es)) \<le> length out + cap"
  using run_order [OF assms] cap_ok [of b']
  by (metis add_left_mono length_append)

lemma put_get:
  assumes "inv b" "elems b = []" "put_all xs b = Some b1" "xs \<noteq> []" "length xs \<le> n"
  shows "\<exists>b2. get n b1 = Some (xs, b2) \<and> elems b2 = []"
proof -
  have 1: "inv b1" "elems b1 = xs" using put_all_ok [OF assms(1,3)] assms(2) by simp_all
  then obtain ys b2 where g: "get n b1 = Some (ys, b2)" using get_None [OF 1(1), of n] assms(4) by fastforce
  have "elems b1 = ys @ elems b2" "length ys = length (elems b1)"
    using get_ok [OF 1(1) g] assms(5) unfolding 1(2) by (blast, metis min_absorb1)
  then have "ys = elems b1" "elems b2 = []" by simp_all
  then show ?thesis using g 1(2) by simp
qed

end

definition tl_of :: "ptr list \<Rightarrow> tasklist" where
  "tl_of xs = \<lparr>tl_request = (\<lambda>i. if i < length xs then xs ! i else None), tl_count = length xs\<rparr>"

lemma tl_of_count [simp]: "tl_count (tl_of xs) = length xs"
  by (simp add: tl_of_def)

lemma tl_of_elems [simp]: "tl_elems (tl_of xs) = xs"
  by (rule nth_equalityI) (simp_all add: tl_of_def tl_elems_def)

lemma rb_elems_Nil [simp]: "rb_elems b = [] \<longleftrightarrow> rb_count b = 0"
  by (simp add: rb_elems_def)

definition rb_put_all :: "ptr list \<Rightarrow> reqbuf \<Rightarrow> reqbuf option" where
  "rb_put_all xs b = map_option snd (submit_request_list (tl_of xs) b)"

definition rb_get :: "nat \<Rightarrow> reqbuf \<Rightarrow> (ptr list \<times> reqbuf) option" where
  "rb_get n b = map_option (\<lambda>(r, b'). (tl_elems r, b')) (read_request_list (tl_of []) n b)"

interpretation ring: bounded_fifo rb_inv rb_elems HE_QAT_BUFFER_SIZE submit_request rb_put_all rb_get
proof unfold_locales
  show "rb_inv b \<Longrightarrow> rb_put_all xs b = Some b' \<Longrightarrow> rb_inv b' \<and> rb_elems b' = rb_elems b @ xs" for b xs b'
    using submit_request_list_ok [of b "tl_of xs"] by (auto simp: rb_put_all_def)
  show "rb_inv b \<Longrightarrow> xs \<noteq> [] \<Longrightarrow>
      rb_put_all xs b = None \<longleftrightarrow> HE_QAT_BUFFER_SIZE < length (rb_elems b) + length xs" for b xs
    using submit_request_list_None [of b "tl_of xs"] by (simp add: rb_put_all_def)
  show "rb_inv b' \<and> rb_elems b = xs @ rb_elems b' \<and> length xs = min (length (rb_elems b)) n"
    if i: "rb_inv b" and g: "rb_get n b = Some (xs, b')" for b n xs b'
  proof -
    obtain r where r: "read_request_list (tl_of []) n b = Some (r, b')" "xs = tl_elems r"
      using g unfolding rb_get_def by (cases "read_request_list (tl_of []) n b") auto
    show ?thesis using read_request_list_ok [OF i r(1)] unfolding r(2) tl_elems_length rb_elems_length by blast
  qed
  show "rb_inv b \<Longrightarrow> rb_get n b = None \<longleftrightarrow> rb_elems b = []" for b n
    using read_request_list_None [of "tl_of []" n b] by (simp add: rb_get_def)
qed (auto simp: rb_inv_count submit_request_ok submit_request_None)

end
