(* ===== verification/OutstandingBuffers.thy ===== *)
theory OutstandingBuffers
  imports RequestBuffer
begin

text \<open>
  The outstanding buffers (\<open>HE_QAT_OutstandingBuffer\<close> in \<open>heqat/common/types.h\<close>): each client
  thread acquires one of \<open>HE_QAT_BUFFER_COUNT\<close> request buffers (\<open>heqat/bnops.c\<close>), fills it, and
  releases it when its results are there; the scheduler thread pulls requests out of the ready
  buffers (\<open>heqat/ctrl.c\<close>).
\<close>

record outbuf =
  ob_buffer :: "nat \<Rightarrow> reqbuf"
  ob_busy_count :: nat
  ob_next_free_buffer :: nat
  ob_free_buffer :: "nat \<Rightarrow> int"
  ob_next_ready_buffer :: nat
  ob_ready_buffer :: "nat \<Rightarrow> int"

section \<open>Operations\<close>

text \<open>The search for a free buffer: \<open>k\<close> more buffers from index \<open>i\<close> on.\<close>

fun scan_free :: "nat \<Rightarrow> (nat \<Rightarrow> int) \<Rightarrow> nat \<Rightarrow> nat option" where
  "scan_free 0 free_buffer i = None"
| "scan_free (Suc k) free_buffer i =
    (if free_buffer i \<noteq> 0 then Some i
     else scan_free k free_buffer (uint_add i 1 mod HE_QAT_BUFFER_COUNT))"

text \<open>
  The argument is what the pointer \<open>_buffer_id\<close> refers to, \<open>None\<close> for \<open>NULL\<close>; the result holds its
  new contents.
\<close>

definition acquire_bnModExp_buffer :: "nat option \<Rightarrow> outbuf \<Rightarrow> ((HE_QAT_STATUS \<times> nat option) \<times> outbuf) option" where
  "acquire_bnModExp_buffer arg ob =
    (case arg of None \<Rightarrow> Some ((HE_QAT_STATUS_INVALID_PARAM, None), ob)
     | Some old \<Rightarrow>
       if ob_busy_count ob \<ge> HE_QAT_BUFFER_COUNT then None
       else let found = scan_free HE_QAT_BUFFER_COUNT (ob_free_buffer ob) (ob_next_free_buffer ob);
                buffer_id = (case found of Some i \<Rightarrow> i | None \<Rightarrow> old);
                free_buffer = (case found of Some i \<Rightarrow> (ob_free_buffer ob)(i := 0) | None \<Rightarrow> ob_free_buffer ob)
            in Some ((HE_QAT_STATUS_SUCCESS, Some buffer_id),
                 ob\<lparr>ob_free_buffer := free_buffer,
                    ob_next_free_buffer := uint_add buffer_id 1 mod HE_QAT_BUFFER_COUNT,
                    ob_next_ready_buffer := buffer_id,
                    ob_ready_buffer := (ob_ready_buffer ob)(buffer_id := 1),
                    ob_busy_count := uint_add (ob_busy_count ob) 1\<rparr>))"

text \<open>The last part of \<open>release_bnModExp_buffer\<close>, under the mutex of \<open>outstanding\<close>.\<close>

definition release_buffer :: "nat \<Rightarrow> outbuf \<Rightarrow> outbuf" where
  "release_buffer buffer_id ob =
    ob\<lparr>ob_next_free_buffer := buffer_id,
       ob_ready_buffer := (ob_ready_buffer ob)(buffer_id := 0),
       ob_free_buffer := (ob_free_buffer ob)(buffer_id := 1),
       ob_busy_count := uint_sub (ob_busy_count ob) 1\<rparr>"

definition on_buffer :: "nat \<Rightarrow> (reqbuf \<Rightarrow> reqbuf) \<Rightarrow> outbuf \<Rightarrow> outbuf" where
  "on_buffer i f ob = ob\<lparr>ob_buffer := (ob_buffer ob)(i := f (ob_buffer ob i))\<rparr>"

definition ready_index :: "outbuf \<Rightarrow> nat option" where
  "ready_index ob =
    find (\<lambda>i. ob_ready_buffer ob i \<noteq> 0 \<and> rb_count (ob_buffer ob i) \<noteq> 0) [0 ..< HE_QAT_BUFFER_COUNT]"

definition pull_request :: "nat \<Rightarrow> tasklist \<times> reqbuf \<Rightarrow> tasklist \<times> reqbuf" where
  "pull_request i = (\<lambda>(r, b).
    (r\<lparr>tl_request := (tl_request r)(i := rb_data b (rb_next_data_slot b))\<rparr>,
     b\<lparr>rb_count := uint_sub (rb_count b) 1, rb_next_data_slot := ring_next (rb_next_data_slot b)\<rparr>))"

definition pull_outstanding_requests :: "tasklist \<Rightarrow> nat \<Rightarrow> outbuf \<Rightarrow> (tasklist \<times> outbuf) option" where
  "pull_outstanding_requests r max_num_requests ob =
    (if ob_busy_count ob = 0 then None
     else case ready_index ob of
       None \<Rightarrow> Some (r\<lparr>tl_count := 0\<rparr>, ob)
     | Some index \<Rightarrow>
         let b = ob_buffer ob index;
             num_requests = (if rb_count b < max_num_requests then rb_count b else max_num_requests);
             (r', b') = fold pull_request [0 ..< num_requests] (r\<lparr>tl_count := 0\<rparr>, b)
         in Some (r'\<lparr>tl_count := num_requests\<rparr>, on_buffer index (\<lambda>_. b') ob))"

section \<open>The invariant of the buffers\<close>

definition taken :: "outbuf \<Rightarrow> nat set" where
  "taken ob = {b. b < HE_QAT_BUFFER_COUNT \<and> ob_free_buffer ob b = 0}"

definition out_inv :: "outbuf \<Rightarrow> bool" where
  "out_inv ob \<longleftrightarrow> ob_busy_count ob = card (taken ob) \<and> ob_next_free_buffer ob < HE_QAT_BUFFER_COUNT \<and>
    (\<forall>b < HE_QAT_BUFFER_COUNT. rb_inv (ob_buffer ob b) \<and>
      (ob_ready_buffer ob b \<noteq> 0 \<longleftrightarrow> ob_free_buffer ob b = 0))"

lemma finite_taken [simp]: "finite (taken ob)"
  by (simp add: taken_def)

lemma taken_lt: "b \<in> taken ob \<Longrightarrow> b < HE_QAT_BUFFER_COUNT"
  by (simp add: taken_def)

lemma taken_card: "card (taken ob) \<le> HE_QAT_BUFFER_COUNT"
  using card_mono [of "{..< HE_QAT_BUFFER_COUNT}" "taken ob"] by (auto simp: taken_def)

lemma taken_full: "card (taken ob) < HE_QAT_BUFFER_COUNT \<Longrightarrow> \<exists>b < HE_QAT_BUFFER_COUNT. ob_free_buffer ob b \<noteq> 0"
proof (rule ccontr)
  assume lt: "card (taken ob) < HE_QAT_BUFFER_COUNT" and "\<not> (\<exists>b < HE_QAT_BUFFER_COUNT. ob_free_buffer ob b \<noteq> 0)"
  then have "taken ob = {..< HE_QAT_BUFFER_COUNT}" unfolding taken_def by blast
  then show False using lt by simp
qed

lemma scan_free_spec:
  "i < HE_QAT_BUFFER_COUNT \<Longrightarrow>
    case scan_free k fb i of
      None \<Rightarrow> \<forall>j < k. fb ((i + j) mod HE_QAT_BUFFER_COUNT) = 0
    | Some b \<Rightarrow> b < HE_QAT_BUFFER_COUNT \<and> fb b \<noteq> 0"
proof (induction k arbitrary: i)
  case (Suc k)
  let ?i = "uint_add i 1 mod HE_QAT_BUFFER_COUNT"
  have i: "uint_add i (Suc 0) = Suc i" using Suc.prems by (simp add: qat_consts)
  have lt: "?i < HE_QAT_BUFFER_COUNT" by (simp add: qat_consts)
  have s: "(i + j) mod HE_QAT_BUFFER_COUNT = i" if "j = 0" for j using Suc.prems that by simp
  show ?case
    using Suc.IH [OF lt] Suc.prems s
    by (auto simp: i less_Suc_eq_0_disj mod_simps split: option.splits)
qed simp

lemma scan_free_found:
  assumes "i < HE_QAT_BUFFER_COUNT" "b < HE_QAT_BUFFER_COUNT" "fb b \<noteq> 0"
  shows "\<exists>c. scan_free HE_QAT_BUFFER_COUNT fb i = Some c \<and> c < HE_QAT_BUFFER_COUNT \<and> fb c \<noteq> 0"
proof -
  let ?N = HE_QAT_BUFFER_COUNT
  define j where "j = (b + (?N - i)) mod ?N"
  have j: "j < ?N" by (simp add: j_def qat_consts)
  have "i + (b + (?N - i)) = b + ?N" using assms(1) by simp
  then have "(i + j) mod ?N = b" using assms(2) by (simp add: j_def mod_add_right_eq)
  then show ?thesis
    using scan_free_spec [OF assms(1), of ?N fb] j assms(3) by (auto split: option.splits)
qed

lemma acquire_ok:
  assumes "out_inv ob" "acquire_bnModExp_buffer (Some x) ob = Some (r, ob')"
  shows "\<exists>b. r = (HE_QAT_STATUS_SUCCESS, Some b) \<and> b < HE_QAT_BUFFER_COUNT \<and> b \<notin> taken ob \<and>
    taken ob' = insert b (taken ob) \<and> ob_buffer ob' = ob_buffer ob \<and> out_inv ob'"
proof -
  let ?N = HE_QAT_BUFFER_COUNT
  have i: "ob_busy_count ob = card (taken ob)" "ob_next_free_buffer ob < ?N"
    "\<And>b. b < ?N \<Longrightarrow> rb_inv (ob_buffer ob b) \<and> (ob_ready_buffer ob b \<noteq> 0 \<longleftrightarrow> ob_free_buffer ob b = 0)"
    using assms(1) by (auto simp: out_inv_def)
  have lt: "card (taken ob) < ?N"
    using assms(2) i(1) by (auto simp: acquire_bnModExp_buffer_def split: if_splits)
  then obtain c where "c < ?N" "ob_free_buffer ob c \<noteq> 0"
    using taken_full [of ob] by blast
  then obtain b where b: "scan_free ?N (ob_free_buffer ob) (ob_next_free_buffer ob) = Some b"
    "b < ?N" "ob_free_buffer ob b \<noteq> 0"
    using scan_free_found [OF i(2)] by blast
  have new: "b \<notin> taken ob" using b(3) by (simp add: taken_def)
  have r: "r = (HE_QAT_STATUS_SUCCESS, Some b)" and ob': "ob' = ob\<lparr>ob_free_buffer := (ob_free_buffer ob)(b := 0),
      ob_next_free_buffer := uint_add b 1 mod ?N, ob_next_ready_buffer := b,
      ob_ready_buffer := (ob_ready_buffer ob)(b := 1), ob_busy_count := uint_add (ob_busy_count ob) 1\<rparr>"
    using assms(2) lt b(1) by (simp_all add: acquire_bnModExp_buffer_def i(1))
  have t: "taken ob' = insert b (taken ob)" using b(2) by (auto simp: taken_def ob')
  have bc: "ob_busy_count ob' = Suc (card (taken ob))"
    using lt by (simp add: ob' i(1) qat_consts)
  have "out_inv ob'"
    unfolding out_inv_def t using bc new i(3) by (simp add: ob') (simp add: qat_consts)
  then show ?thesis using r b(2) new t by (simp add: ob')
qed

lemma acquire_waits:
  assumes "out_inv ob"
  shows "acquire_bnModExp_buffer (Some x) ob = None \<longleftrightarrow> taken ob = {..< HE_QAT_BUFFER_COUNT}"
proof -
  have s: "taken ob \<subseteq> {..< HE_QAT_BUFFER_COUNT}" by (auto simp: taken_def)
  have full: "HE_QAT_BUFFER_COUNT \<le> card (taken ob) \<longleftrightarrow> taken ob = {..< HE_QAT_BUFFER_COUNT}"
  proof
    assume "HE_QAT_BUFFER_COUNT \<le> card (taken ob)"
    then have "card (taken ob) = card {..< HE_QAT_BUFFER_COUNT}" using taken_card [of ob] by simp
    then show "taken ob = {..< HE_QAT_BUFFER_COUNT}" by (rule card_subset_eq [OF finite_lessThan s])
  qed simp
  have b: "ob_busy_count ob = card (taken ob)" using assms unfolding out_inv_def by blast
  show ?thesis unfolding acquire_bnModExp_buffer_def b full by (simp add: Let_def)
qed

lemma release_ok:
  assumes "out_inv ob" "b \<in> taken ob"
  shows "out_inv (release_buffer b ob) \<and> taken (release_buffer b ob) = taken ob - {b} \<and>
    ob_buffer (release_buffer b ob) = ob_buffer ob"
proof -
  have b: "b < HE_QAT_BUFFER_COUNT" using assms(2) by (rule taken_lt)
  have t: "taken (release_buffer b ob) = taken ob - {b}" by (auto simp: taken_def release_buffer_def)
  have "1 \<le> card (taken ob)" using assms(2) by (metis One_nat_def Suc_leI card_gt_0_iff empty_iff finite_taken)
  moreover have "card (taken ob) < 2 ^ 32" using taken_card [of ob] by (simp add: qat_consts)
  ultimately have "uint_sub (card (taken ob)) 1 = card (taken ob) - 1" by simp
  then have "ob_busy_count (release_buffer b ob) = card (taken ob - {b})"
    using assms by (simp add: release_buffer_def out_inv_def)
  then have "out_inv (release_buffer b ob)"
    unfolding out_inv_def t using assms(1) b by (simp add: release_buffer_def out_inv_def)
  then show ?thesis using t by (simp add: release_buffer_def)
qed

lemma acquire_release:
  assumes "out_inv ob" "acquire_bnModExp_buffer (Some x) ob = Some ((s, Some b), ob')"
  shows "taken (release_buffer b ob') = taken ob"
  using acquire_ok [OF assms] release_ok [of ob' b] by auto

lemma on_buffer_inv:
  "out_inv ob \<Longrightarrow> rb_inv (f (ob_buffer ob i)) \<Longrightarrow> out_inv (on_buffer i f ob) \<and> taken (on_buffer i f ob) = taken ob"
  by (auto simp: out_inv_def on_buffer_def taken_def)

section \<open>Pulling requests\<close>

lemma pull_requests:
  assumes "n \<le> rb_count b" "rb_count b < 2 ^ 32" "rb_next_data_slot b = a mod HE_QAT_BUFFER_SIZE"
    and "fold pull_request [0 ..< n] (r, b) = (r', b')"
  shows "b' = b\<lparr>rb_count := rb_count b - n, rb_next_data_slot := (a + n) mod HE_QAT_BUFFER_SIZE\<rparr> \<and>
    tl_count r' = tl_count r \<and>
    (\<forall>k. tl_request r' k = (if k < n then rb_data b ((a + k) mod HE_QAT_BUFFER_SIZE) else tl_request r k))"
  using assms(1,4)
proof (induction n arbitrary: r' b')
  case 0
  then show ?case using assms(3) by simp
next
  case (Suc n)
  obtain r1 b1 where 1: "fold pull_request [0 ..< n] (r, b) = (r1, b1)" by fastforce
  have 2: "pull_request n (r1, b1) = (r', b')" using Suc.prems 1 by simp
  have "uint_sub (rb_count b - n) 1 = rb_count b - Suc n" using Suc.prems(1) assms(2) by simp
  then show ?case
    using Suc.IH [OF _ 1] Suc.prems(1) 2 by (auto simp: pull_request_def ring_next_mod less_Suc_eq)
qed

lemma pull_is_read:
  assumes "rb_inv b" "n \<le> rb_count b" "fold pull_request [0 ..< n] (r, b) = (r', b')"
    "fold fetch_request [0 ..< n] (r, b) = (r2, b2)"
  shows "r' = r2 \<and> b' = b2\<lparr>rb_count := rb_count b - n\<rparr>"
proof -
  have d: "rb_next_data_slot b = rb_next_data_slot b mod HE_QAT_BUFFER_SIZE" "rb_count b < 2 ^ 32"
    using assms(1) by (auto simp: rb_inv_def qat_consts)
  note p = pull_requests [OF assms(2) d(2,1) assms(3)] and f = fetch_requests [OF d(1) assms(4)]
  have "r' = r2" by (rule tasklist.equality) (use p f in auto)
  moreover have "b' = b2\<lparr>rb_count := rb_count b - n\<rparr>" using p f by simp
  ultimately show ?thesis by simp
qed

lemma ready_index_Some: "ready_index ob = Some i \<Longrightarrow>
    i < HE_QAT_BUFFER_COUNT \<and> ob_ready_buffer ob i \<noteq> 0 \<and> rb_count (ob_buffer ob i) \<noteq> 0 \<and>
    (\<forall>j < i. ob_ready_buffer ob j = 0 \<or> rb_count (ob_buffer ob j) = 0)"
  unfolding ready_index_def find_Some_iff by auto

lemma ready_index_None: "ready_index ob = None \<longleftrightarrow>
    (\<forall>i < HE_QAT_BUFFER_COUNT. ob_ready_buffer ob i = 0 \<or> rb_count (ob_buffer ob i) = 0)"
  unfolding ready_index_def find_None_iff by auto

lemma pull_reads:
  assumes "out_inv ob" "ob_busy_count ob \<noteq> 0" "ready_index ob = Some i"
  shows "pull_outstanding_requests r n ob =
    map_option (\<lambda>(r', b'). (r', on_buffer i (\<lambda>_. b') ob)) (read_request_list (r\<lparr>tl_count := 0\<rparr>) n (ob_buffer ob i))"
proof -
  let ?b = "ob_buffer ob i" and ?n = "min (rb_count (ob_buffer ob i)) n"
  have r: "i < HE_QAT_BUFFER_COUNT" "rb_count ?b \<noteq> 0" using ready_index_Some [OF assms(3)] by auto
  then have inv: "rb_inv ?b" using assms(1) by (simp add: out_inv_def)
  obtain r1 b1 r2 b2 where f: "fold pull_request [0 ..< ?n] (r\<lparr>tl_count := 0\<rparr>, ?b) = (r1, b1)"
    "fold fetch_request [0 ..< ?n] (r\<lparr>tl_count := 0\<rparr>, ?b) = (r2, b2)" by fastforce
  have d: "rb_next_data_slot ?b = rb_next_data_slot ?b mod HE_QAT_BUFFER_SIZE" "rb_count ?b < 2 ^ 32"
    using inv by (auto simp: rb_inv_def qat_consts)
  have c: "rb_count b2 = rb_count ?b" using fetch_requests [OF d(1) f(2)] by simp
  have n: "(if rb_count ?b < n then rb_count ?b else n) = ?n" by simp
  have u: "uint_sub (rb_count b2) ?n = rb_count ?b - ?n" unfolding c using d(2) by simp
  have "r1 = r2" "b1 = b2\<lparr>rb_count := rb_count ?b - ?n\<rparr>" using pull_is_read [OF inv _ f] by simp_all
  then show ?thesis
    using assms(2,3) r(2) f u by (simp add: pull_outstanding_requests_def read_request_list_def n Let_def)
qed

lemma pull_ok:
  assumes "out_inv ob" "pull_outstanding_requests r n ob = Some (r', ob')"
  shows "out_inv ob' \<and> taken ob' = taken ob \<and>
    (ready_index ob = None \<and> tl_count r' = 0 \<and> ob' = ob \<or>
     (\<exists>i b'. ready_index ob = Some i \<and> ob' = on_buffer i (\<lambda>_. b') ob \<and> rb_inv b' \<and>
        rb_elems (ob_buffer ob i) = tl_elems r' @ rb_elems b' \<and>
        tl_count r' = min (rb_count (ob_buffer ob i)) n))"
proof (cases "ready_index ob")
  case None
  then show ?thesis using assms by (auto simp: pull_outstanding_requests_def split: if_splits)
next
  case (Some i)
  have b: "ob_busy_count ob \<noteq> 0" using assms(2) by (auto simp: pull_outstanding_requests_def split: if_splits)
  have "i < HE_QAT_BUFFER_COUNT" using ready_index_Some [OF Some] by simp
  then have inv: "rb_inv (ob_buffer ob i)" using assms(1) by (simp add: out_inv_def)
  obtain b' where rd: "read_request_list (r\<lparr>tl_count := 0\<rparr>) n (ob_buffer ob i) = Some (r', b')"
    "ob' = on_buffer i (\<lambda>_. b') ob"
    using assms(2) unfolding pull_reads [OF assms(1) b Some]
    by (cases "read_request_list (r\<lparr>tl_count := 0\<rparr>) n (ob_buffer ob i)") auto
  note ok = read_request_list_ok [OF inv rd(1)]
  have "out_inv ob' \<and> taken ob' = taken ob" unfolding rd(2) by (rule on_buffer_inv) (use assms(1) ok in auto)
  then show ?thesis using ok Some rd(2) by blast
qed

end
