(* ===== verification/QatRequests.thy ===== *)
theory QatRequests
  imports OutstandingBuffers
begin

text \<open>
  Work requests of the accelerator's runtime: the API calls that build and submit them
  (\<open>heqat/bnops.c\<close>), the callbacks that complete them (\<open>heqat/cb.c\<close>) and the calls that wait for
  them and free their memory.

  Memory is a store: \<open>rt_mem\<close> holds byte arrays, \<open>rt_bignums\<close> OpenSSL's numbers, \<open>rt_ops\<close> and
  \<open>rt_tasks\<close> the structures allocated with \<open>calloc\<close>. The \<open>k\<close>-th allocation gets the address \<open>k\<close>,
  or \<open>NULL\<close> if the environment says that it fails. A program on the runtime's state returns
  \<open>None\<close> where the code waits (for room in a buffer, for a task to be ready, or spinning on an
  empty slot), and an error where it would access memory that is not allocated.

  Building a request touches only memory no other thread knows, so a whole call up to its
  \<open>submit_request\<close> is one step. Sizes in bits are natural numbers, as every caller passes them.
\<close>

section \<open>State\<close>

datatype CpaStatus = CPA_STATUS_SUCCESS | CPA_STATUS_FAIL | CPA_STATUS_RETRY | CPA_STATUS_OTHER int

datatype callback = NoCallback | BIGNUMModExpCallback | BnModExpCallback

record flat_buffer =
  fb_pData :: ptr
  fb_dataLenInBytes :: nat

record op_data =
  od_base :: flat_buffer
  od_exponent :: flat_buffer
  od_modulus :: flat_buffer

record task =
  tk_id :: nat
  tk_op_type :: HE_QAT_OP
  tk_op_status :: CpaStatus
  tk_op_result :: flat_buffer
  tk_op_data :: ptr
  tk_op_output :: ptr
  tk_callback_func :: callback
  tk_request_status :: HE_QAT_STATUS

record runtime =
  rt_allocs :: nat
  rt_mem :: "nat \<Rightarrow> u8 list option"
  rt_bignums :: "nat \<Rightarrow> nat option"
  rt_ops :: "nat \<Rightarrow> op_data option"
  rt_tasks :: "nat \<Rightarrow> task option"
  rt_he_qat_buffer :: reqbuf
  rt_outstanding :: outbuf
  rt_bn_ids :: nat
  rt_BIGNUM_ids :: nat
  rt_mt_ids :: nat
  rt_block_at_index :: nat
  rt_request_count :: nat
  rt_response_count :: nat

text \<open>
  Outside the code: which allocations succeed, what uninitialised memory holds, and OpenSSL's
  conversions \<open>BN_bn2binpad\<close> (its return value and the bytes it writes) and \<open>BN_bin2bn\<close>.
\<close>

record qat_env =
  qe_alloc :: "nat \<Rightarrow> bool"
  qe_garbage :: "nat \<Rightarrow> nat \<Rightarrow> u8"
  qe_bn2binpad :: "nat \<Rightarrow> nat \<Rightarrow> int \<times> u8 list"
  qe_bin2bn :: "u8 list \<Rightarrow> nat option"

type_synonym 'a qprog = "runtime \<Rightarrow> ('a result \<times> runtime) option"

section \<open>Programs on the runtime\<close>

definition retQ :: "'a \<Rightarrow> 'a qprog" where
  "retQ x s = Some (Inr x, s)"

definition bindQ :: "'a qprog \<Rightarrow> ('a \<Rightarrow> 'b qprog) \<Rightarrow> 'b qprog" where
  "bindQ m f s = (case m s of None \<Rightarrow> None | Some (Inl e, s') \<Rightarrow> Some (Inl e, s') | Some (Inr x, s') \<Rightarrow> f x s')"

definition waitQ :: "'a qprog" where
  "waitQ s = None"

definition modifyQ :: "(runtime \<Rightarrow> runtime) \<Rightarrow> unit qprog" where
  "modifyQ f s = Some (Inr (), f s)"

definition undefQ :: "string \<Rightarrow> 'a qprog" where
  "undefQ msg s = Some (Inl (Undefined msg), s)"

lemma qprog_simps [simp, run]:
  "retQ x s = Some (Inr x, s)" "waitQ s = None" "modifyQ f s = Some (Inr (), f s)"
  "undefQ msg s = Some (Inl (Undefined msg), s)"
  by (simp_all add: retQ_def waitQ_def modifyQ_def undefQ_def)

lemma bindQ_simps [simp, run]:
  "bindQ (retQ x) f s = f x s" "bindQ (modifyQ h) f s = f () (h s)"
  by (simp_all add: bindQ_def)

lemma bindQ_ok: "m s = Some (Inr x, s') \<Longrightarrow> bindQ m f s = f x s'"
  by (simp add: bindQ_def)

lemma bindQ_InrE:
  assumes "bindQ m f s = Some (Inr y, s2)"
  obtains x s1 where "m s = Some (Inr x, s1)" "f x s1 = Some (Inr y, s2)"
  using assms by (auto simp: bindQ_def split: option.splits sum.splits)

definition take_address :: "qat_env \<Rightarrow> ptr qprog" where
  "take_address E s =
    Some (Inr (if qe_alloc E (rt_allocs s) then Some (rt_allocs s) else None),
          s\<lparr>rt_allocs := Suc (rt_allocs s)\<rparr>)"

definition HE_QAT_MEM_ALLOC_CONTIG :: "qat_env \<Rightarrow> nat \<Rightarrow> ptr qprog" where
  "HE_QAT_MEM_ALLOC_CONTIG E len =
    bindQ (take_address E) (\<lambda>p. case p of None \<Rightarrow> retQ None
      | Some a \<Rightarrow> bindQ (modifyQ (\<lambda>s. s\<lparr>rt_mem := (rt_mem s)(a \<mapsto> map (qe_garbage E a) [0 ..< len])\<rparr>))
          (\<lambda>_. retQ (Some a)))"

definition HE_QAT_MEM_FREE_CONTIG :: "ptr \<Rightarrow> unit qprog" where
  "HE_QAT_MEM_FREE_CONTIG p = (case p of None \<Rightarrow> retQ ()
    | Some a \<Rightarrow> modifyQ (\<lambda>s. s\<lparr>rt_mem := (rt_mem s)(a := None)\<rparr>))"

definition mem_read :: "ptr \<Rightarrow> nat \<Rightarrow> u8 list qprog" where
  "mem_read p len s = (case Option.bind p (rt_mem s) of
      Some bs \<Rightarrow> if len \<le> length bs then Some (Inr (take len bs), s) else undefQ ''read past a buffer'' s
    | None \<Rightarrow> undefQ ''read of unallocated memory'' s)"

definition mem_write :: "ptr \<Rightarrow> u8 list \<Rightarrow> unit qprog" where
  "mem_write p bs s = (case p of
      None \<Rightarrow> undefQ ''write to NULL'' s
    | Some a \<Rightarrow> (case rt_mem s a of
        Some old \<Rightarrow> if length bs \<le> length old
          then Some (Inr (), s\<lparr>rt_mem := (rt_mem s)(a \<mapsto> bs @ drop (length bs) old)\<rparr>)
          else undefQ ''write past a buffer'' s
      | None \<Rightarrow> undefQ ''write to unallocated memory'' s))"

definition zero_task :: task where
  "zero_task = \<lparr>tk_id = 0, tk_op_type = HE_QAT_OP_NONE, tk_op_status = CPA_STATUS_SUCCESS,
    tk_op_result = \<lparr>fb_pData = None, fb_dataLenInBytes = 0\<rparr>, tk_op_data = None, tk_op_output = None,
    tk_callback_func = NoCallback, tk_request_status = HE_QAT_STATUS_SUCCESS\<rparr>"

definition calloc_task :: "qat_env \<Rightarrow> ptr qprog" where
  "calloc_task E =
    bindQ (take_address E) (\<lambda>p. case p of None \<Rightarrow> retQ None
      | Some a \<Rightarrow> bindQ (modifyQ (\<lambda>s. s\<lparr>rt_tasks := (rt_tasks s)(a \<mapsto> zero_task)\<rparr>)) (\<lambda>_. retQ (Some a)))"

definition calloc_op :: "qat_env \<Rightarrow> op_data \<Rightarrow> ptr qprog" where
  "calloc_op E d =
    bindQ (take_address E) (\<lambda>p. case p of None \<Rightarrow> retQ None
      | Some a \<Rightarrow> bindQ (modifyQ (\<lambda>s. s\<lparr>rt_ops := (rt_ops s)(a \<mapsto> d)\<rparr>)) (\<lambda>_. retQ (Some a)))"

definition get_task :: "nat \<Rightarrow> task qprog" where
  "get_task a s = (case rt_tasks s a of Some t \<Rightarrow> Some (Inr t, s) | None \<Rightarrow> undefQ ''freed request'' s)"

definition put_task :: "nat \<Rightarrow> task \<Rightarrow> unit qprog" where
  "put_task a t = modifyQ (\<lambda>s. s\<lparr>rt_tasks := (rt_tasks s)(a \<mapsto> t)\<rparr>)"

definition submit_internal :: "ptr \<Rightarrow> unit qprog" where
  "submit_internal p s = (case submit_request p (rt_he_qat_buffer s) of
      None \<Rightarrow> None | Some b \<Rightarrow> Some (Inr (), s\<lparr>rt_he_qat_buffer := b\<rparr>))"

definition submit_outstanding :: "nat \<Rightarrow> ptr \<Rightarrow> unit qprog" where
  "submit_outstanding i p s =
    (if i < HE_QAT_BUFFER_COUNT then
       (case submit_request p (ob_buffer (rt_outstanding s) i) of
         None \<Rightarrow> None
       | Some b \<Rightarrow> Some (Inr (), s\<lparr>rt_outstanding := on_buffer i (\<lambda>_. b) (rt_outstanding s)\<rparr>))
     else undefQ ''no such buffer'' s)"

section \<open>Building requests\<close>

text \<open>Allocate contiguous memory and copy an operand into it; \<open>None\<close> when the allocation fails.\<close>

definition copy_in :: "qat_env \<Rightarrow> ptr \<Rightarrow> nat \<Rightarrow> ptr qprog" where
  "copy_in E src len =
    bindQ (HE_QAT_MEM_ALLOC_CONTIG E len) (\<lambda>p. case p of None \<Rightarrow> retQ None
      | Some a \<Rightarrow> bindQ (mem_read src len) (\<lambda>bs. bindQ (mem_write p bs) (\<lambda>_. retQ p)))"

text \<open>
  Pack a request: the operation's data, the memory of the result and the other fields; returns
  whether the allocations succeeded.
\<close>

definition pack_request :: "qat_env \<Rightarrow> nat \<Rightarrow> nat \<Rightarrow> ptr \<Rightarrow> ptr \<Rightarrow> ptr \<Rightarrow> callback \<Rightarrow> ptr \<Rightarrow> nat \<Rightarrow> bool qprog" where
  "pack_request E request len pBase pExponent pModulus cb r ident =
    bindQ (calloc_op E \<lparr>od_base = \<lparr>fb_pData = pBase, fb_dataLenInBytes = len\<rparr>,
        od_exponent = \<lparr>fb_pData = pExponent, fb_dataLenInBytes = len\<rparr>,
        od_modulus = \<lparr>fb_pData = pModulus, fb_dataLenInBytes = len\<rparr>\<rparr>) (\<lambda>op.
    if op = None then retQ False
    else bindQ (HE_QAT_MEM_ALLOC_CONTIG E len) (\<lambda>res.
    if res = None then bindQ (put_task request (zero_task\<lparr>tk_op_data := op\<rparr>)) (\<lambda>_. retQ False)
    else bindQ (put_task request
      \<lparr>tk_id = ident, tk_op_type = HE_QAT_OP_MODEXP, tk_op_status = CPA_STATUS_SUCCESS,
       tk_op_result = \<lparr>fb_pData = res, fb_dataLenInBytes = len\<rparr>, tk_op_data = op, tk_op_output = r,
       tk_callback_func = cb, tk_request_status = HE_QAT_STATUS_SUCCESS\<rparr>) (\<lambda>_. retQ True)))"

definition ull_inc :: "nat \<Rightarrow> nat" where
  "ull_inc n = (n + 1) mod 2 ^ 64"

definition HE_QAT_bnModExp :: "qat_env \<Rightarrow> ptr \<Rightarrow> ptr \<Rightarrow> ptr \<Rightarrow> ptr \<Rightarrow> nat \<Rightarrow> HE_QAT_STATUS qprog" where
  "HE_QAT_bnModExp E r b e m nbits s =
    (let len = (nbits + 7) div 2 ^ 3 in
     if r = None \<or> b = None \<or> e = None \<or> m = None then retQ HE_QAT_STATUS_INVALID_PARAM s else
     bindQ (copy_in E b len) (\<lambda>pBase. if pBase = None then retQ HE_QAT_STATUS_FAIL else
     bindQ (copy_in E e len) (\<lambda>pExponent. if pExponent = None then retQ HE_QAT_STATUS_FAIL else
     bindQ (copy_in E m len) (\<lambda>pModulus. if pModulus = None then retQ HE_QAT_STATUS_FAIL else
     bindQ (calloc_task E) (\<lambda>request. case request of None \<Rightarrow> retQ HE_QAT_STATUS_FAIL | Some a \<Rightarrow>
     bindQ (pack_request E a len pBase pExponent pModulus BnModExpCallback r (rt_bn_ids s)) (\<lambda>ok.
     if \<not> ok then retQ HE_QAT_STATUS_FAIL else
     bindQ (modifyQ (\<lambda>s. s\<lparr>rt_bn_ids := ull_inc (rt_bn_ids s)\<rparr>)) (\<lambda>_.
     bindQ (submit_internal request) (\<lambda>_. retQ HE_QAT_STATUS_SUCCESS))))))) s)"

definition HE_QAT_bnModExp_MT :: "qat_env \<Rightarrow> nat \<Rightarrow> ptr \<Rightarrow> ptr \<Rightarrow> ptr \<Rightarrow> ptr \<Rightarrow> nat \<Rightarrow> HE_QAT_STATUS qprog" where
  "HE_QAT_bnModExp_MT E buffer_id r b e m nbits s =
    (let len = (nbits + 7) div 2 ^ 3 in
     if r = None \<or> b = None \<or> e = None \<or> m = None then retQ HE_QAT_STATUS_INVALID_PARAM s else
     bindQ (copy_in E b len) (\<lambda>pBase. if pBase = None then retQ HE_QAT_STATUS_FAIL else
     bindQ (copy_in E e len) (\<lambda>pExponent. if pExponent = None then retQ HE_QAT_STATUS_FAIL else
     bindQ (copy_in E m len) (\<lambda>pModulus. if pModulus = None then retQ HE_QAT_STATUS_FAIL else
     bindQ (calloc_task E) (\<lambda>request. case request of None \<Rightarrow> retQ HE_QAT_STATUS_FAIL | Some a \<Rightarrow>
     bindQ (pack_request E a len pBase pExponent pModulus BnModExpCallback r (rt_mt_ids s)) (\<lambda>ok.
     if \<not> ok then retQ HE_QAT_STATUS_FAIL else
     bindQ (modifyQ (\<lambda>s. s\<lparr>rt_mt_ids := ull_inc (rt_mt_ids s)\<rparr>)) (\<lambda>_.
     bindQ (submit_outstanding buffer_id request) (\<lambda>_. retQ HE_QAT_STATUS_SUCCESS))))))) s)"

text \<open>
  The call on OpenSSL's numbers: an operand is written with \<open>BN_bn2binpad\<close>, whose result \<open>0\<close> alone
  is taken as a failure.
\<close>

definition bignum_in :: "qat_env \<Rightarrow> nat \<Rightarrow> nat \<Rightarrow> ptr qprog" where
  "bignum_in E x len =
    bindQ (HE_QAT_MEM_ALLOC_CONTIG E len) (\<lambda>p. case p of None \<Rightarrow> retQ None
      | Some a \<Rightarrow> bindQ (mem_write p (snd (qe_bn2binpad E x len))) (\<lambda>_.
          if fst (qe_bn2binpad E x len) = 0 then bindQ (HE_QAT_MEM_FREE_CONTIG p) (\<lambda>_. retQ None)
          else retQ p))"

definition HE_QAT_BIGNUMModExp :: "qat_env \<Rightarrow> ptr \<Rightarrow> nat \<Rightarrow> nat \<Rightarrow> nat \<Rightarrow> nat \<Rightarrow> HE_QAT_STATUS qprog" where
  "HE_QAT_BIGNUMModExp E r b e m nbits s =
    (let len = (nbits + 7) div 2 ^ 3 in
     bindQ (calloc_task E) (\<lambda>request. case request of None \<Rightarrow> retQ HE_QAT_STATUS_FAIL | Some a \<Rightarrow>
     bindQ (bignum_in E b len) (\<lambda>pBase. if pBase = None then retQ HE_QAT_STATUS_FAIL else
     bindQ (bignum_in E e len) (\<lambda>pExponent. if pExponent = None then retQ HE_QAT_STATUS_FAIL else
     bindQ (bignum_in E m len) (\<lambda>pModulus. if pModulus = None then retQ HE_QAT_STATUS_FAIL else
     bindQ (pack_request E a len pBase pExponent pModulus BIGNUMModExpCallback r (rt_BIGNUM_ids s)) (\<lambda>ok.
     if \<not> ok then retQ HE_QAT_STATUS_FAIL else
     bindQ (modifyQ (\<lambda>s. s\<lparr>rt_BIGNUM_ids := ull_inc (rt_BIGNUM_ids s)\<rparr>)) (\<lambda>_.
     bindQ (submit_internal request) (\<lambda>_. retQ HE_QAT_STATUS_SUCCESS))))))) s)"

section \<open>Completion\<close>

definition HE_QAT_bnModExpCallback :: "ptr \<Rightarrow> CpaStatus \<Rightarrow> ptr \<Rightarrow> unit qprog" where
  "HE_QAT_bnModExpCallback pCallbackTag status pOpData =
    (case pCallbackTag of None \<Rightarrow> retQ ()
     | Some a \<Rightarrow>
       bindQ (modifyQ (\<lambda>s. s\<lparr>rt_response_count := ull_inc (rt_response_count s)\<rparr>)) (\<lambda>_.
       bindQ (get_task a) (\<lambda>t.
       let t = t\<lparr>tk_op_status := status\<rparr> in
       if status \<noteq> CPA_STATUS_SUCCESS then put_task a t
       else if pOpData = tk_op_data t then
         bindQ (put_task a (t\<lparr>tk_request_status := HE_QAT_STATUS_READY\<rparr>)) (\<lambda>_.
         bindQ (mem_read (fb_pData (tk_op_result t)) (fb_dataLenInBytes (tk_op_result t))) (\<lambda>bs.
         mem_write (tk_op_output t) bs))
       else put_task a (t\<lparr>tk_request_status := HE_QAT_STATUS_FAIL\<rparr>))))"

definition HE_QAT_BIGNUMModExpCallback :: "qat_env \<Rightarrow> ptr \<Rightarrow> CpaStatus \<Rightarrow> ptr \<Rightarrow> unit qprog" where
  "HE_QAT_BIGNUMModExpCallback E pCallbackTag status pOpData =
    (case pCallbackTag of None \<Rightarrow> retQ ()
     | Some a \<Rightarrow>
       bindQ (modifyQ (\<lambda>s. s\<lparr>rt_response_count := ull_inc (rt_response_count s)\<rparr>)) (\<lambda>_.
       bindQ (get_task a) (\<lambda>t.
       let t = t\<lparr>tk_op_status := status\<rparr> in
       if status \<noteq> CPA_STATUS_SUCCESS then put_task a t
       else if pOpData = tk_op_data t then
         bindQ (mem_read (fb_pData (tk_op_result t)) (fb_dataLenInBytes (tk_op_result t))) (\<lambda>bs.
         case (qe_bin2bn E bs, tk_op_output t) of
           (Some v, Some r) \<Rightarrow>
             bindQ (modifyQ (\<lambda>s. s\<lparr>rt_bignums := (rt_bignums s)(r \<mapsto> v)\<rparr>)) (\<lambda>_.
             put_task a (t\<lparr>tk_request_status := HE_QAT_STATUS_READY\<rparr>))
         | (Some v, None) \<Rightarrow> put_task a (t\<lparr>tk_request_status := HE_QAT_STATUS_READY\<rparr>)
         | (None, _) \<Rightarrow> put_task a (t\<lparr>tk_request_status := HE_QAT_STATUS_FAIL\<rparr>))
       else put_task a (t\<lparr>tk_request_status := HE_QAT_STATUS_FAIL\<rparr>))))"

section \<open>Collecting results\<close>

text \<open>Wait until a task is ready, then free everything that belongs to it.\<close>

definition collect_task :: "nat \<Rightarrow> unit qprog" where
  "collect_task a =
    bindQ (get_task a) (\<lambda>t.
    if tk_request_status t \<noteq> HE_QAT_STATUS_READY then waitQ
    else bindQ (case tk_op_data t of None \<Rightarrow> retQ ()
        | Some o' \<Rightarrow> (\<lambda>s. case rt_ops s o' of None \<Rightarrow> undefQ ''freed operation data'' s
            | Some d \<Rightarrow> bindQ (HE_QAT_MEM_FREE_CONTIG (fb_pData (od_base d))) (\<lambda>_.
                bindQ (HE_QAT_MEM_FREE_CONTIG (fb_pData (od_exponent d))) (\<lambda>_.
                bindQ (HE_QAT_MEM_FREE_CONTIG (fb_pData (od_modulus d))) (\<lambda>_.
                modifyQ (\<lambda>s. s\<lparr>rt_ops := (rt_ops s)(o' := None)\<rparr>)))) s)) (\<lambda>_.
      bindQ (HE_QAT_MEM_FREE_CONTIG (fb_pData (tk_op_result t))) (\<lambda>_.
      modifyQ (\<lambda>s. s\<lparr>rt_tasks := (rt_tasks s)(a := None)\<rparr>))))"

definition clear_slot :: "nat \<Rightarrow> reqbuf \<Rightarrow> reqbuf" where
  "clear_slot i b = b\<lparr>rb_data := (rb_data b)(i := None)\<rparr>"

text \<open>
  \<open>getBnModExpRequest\<close>: a \<open>do\<close>-\<open>while\<close> loop, so its body runs once more than the condition holds;
  \<open>continue\<close> on an empty slot goes to the condition, which counts the iteration.
\<close>

definition get_one_request :: "unit qprog" where
  "get_one_request s =
    (let i = rt_block_at_index s in
     case rb_data (rt_he_qat_buffer s) i of
       None \<Rightarrow> retQ () s
     | Some a \<Rightarrow> bindQ (collect_task a) (\<lambda>_. modifyQ (\<lambda>s.
         s\<lparr>rt_he_qat_buffer := clear_slot i (rt_he_qat_buffer s),
           rt_block_at_index := (i + 1) mod HE_QAT_BUFFER_SIZE\<rparr>)) s)"

primrec get_requests :: "nat \<Rightarrow> unit qprog" where
  "get_requests 0 = retQ ()"
| "get_requests (Suc n) = bindQ get_one_request (\<lambda>_. get_requests n)"

definition getBnModExpRequest :: "nat \<Rightarrow> unit qprog" where
  "getBnModExpRequest batch_size = get_requests (max 1 batch_size)"

text \<open>\<open>release_bnModExp_buffer\<close>: \<open>continue\<close> on an empty slot repeats the iteration for ever.\<close>

definition release_one :: "nat \<Rightarrow> nat \<Rightarrow> unit qprog" where
  "release_one buffer_id i s =
    (case rb_data (ob_buffer (rt_outstanding s) buffer_id) i of
       None \<Rightarrow> None
     | Some a \<Rightarrow> bindQ (collect_task a) (\<lambda>_. modifyQ (\<lambda>s.
         s\<lparr>rt_outstanding := on_buffer buffer_id (clear_slot i) (rt_outstanding s)\<rparr>)) s)"

primrec release_loop :: "nat \<Rightarrow> nat \<Rightarrow> nat \<Rightarrow> nat qprog" where
  "release_loop buffer_id 0 i = retQ i"
| "release_loop buffer_id (Suc n) i = bindQ (release_one buffer_id i) (\<lambda>_. release_loop buffer_id n (ring_next i))"

definition release_bnModExp_buffer :: "nat \<Rightarrow> nat \<Rightarrow> unit qprog" where
  "release_bnModExp_buffer buffer_id batch_size s =
    bindQ (release_loop buffer_id batch_size (rb_next_data_out (ob_buffer (rt_outstanding s) buffer_id))) (\<lambda>i.
    modifyQ (\<lambda>s. s\<lparr>rt_outstanding := release_buffer buffer_id
      (on_buffer buffer_id (\<lambda>b. b\<lparr>rb_next_data_out := i\<rparr>) (rt_outstanding s))\<rparr>)) s"


section \<open>Requests that are submitted\<close>

definition operand :: "runtime \<Rightarrow> ptr \<Rightarrow> nat \<Rightarrow> u8 list \<Rightarrow> bool" where
  "operand s p len bs \<longleftrightarrow> (\<exists>a mem. p = Some a \<and> a < rt_allocs s \<and> rt_mem s a = Some mem \<and>
    len \<le> length mem \<and> take len mem = bs)"

definition allocs_ok :: "qat_env \<Rightarrow> runtime \<Rightarrow> nat \<Rightarrow> bool" where
  "allocs_ok E s n \<longleftrightarrow> (\<forall>k < n. qe_alloc E (rt_allocs s + k))"

lemma alloc_contig_ok:
  "qe_alloc E (rt_allocs s) \<Longrightarrow> HE_QAT_MEM_ALLOC_CONTIG E len s =
    Some (Inr (Some (rt_allocs s)), s\<lparr>rt_allocs := Suc (rt_allocs s),
      rt_mem := (rt_mem s)(rt_allocs s \<mapsto> map (qe_garbage E (rt_allocs s)) [0 ..< len])\<rparr>)"
  by (simp add: HE_QAT_MEM_ALLOC_CONTIG_def bindQ_def take_address_def)

lemma alloc_contig_fail:
  "\<not> qe_alloc E (rt_allocs s) \<Longrightarrow>
    HE_QAT_MEM_ALLOC_CONTIG E len s = Some (Inr None, s\<lparr>rt_allocs := Suc (rt_allocs s)\<rparr>)"
  by (simp add: HE_QAT_MEM_ALLOC_CONTIG_def bindQ_def take_address_def)

lemma copy_in_ok:
  assumes "qe_alloc E (rt_allocs s)" "operand s p len bs"
  shows "copy_in E p len s = Some (Inr (Some (rt_allocs s)),
    s\<lparr>rt_allocs := Suc (rt_allocs s), rt_mem := (rt_mem s)(rt_allocs s \<mapsto> bs)\<rparr>)"
  using assms
  by (auto simp: copy_in_def bindQ_def alloc_contig_ok operand_def mem_read_def mem_write_def)

lemma copy_in_fail:
  "\<not> qe_alloc E (rt_allocs s) \<Longrightarrow> copy_in E p len s = Some (Inr None, s\<lparr>rt_allocs := Suc (rt_allocs s)\<rparr>)"
  by (simp add: copy_in_def bindQ_def alloc_contig_fail)

lemma calloc_task_ok:
  "qe_alloc E (rt_allocs s) \<Longrightarrow> calloc_task E s = Some (Inr (Some (rt_allocs s)),
    s\<lparr>rt_allocs := Suc (rt_allocs s), rt_tasks := (rt_tasks s)(rt_allocs s \<mapsto> zero_task)\<rparr>)"
  by (simp add: calloc_task_def bindQ_def take_address_def)

lemma calloc_op_ok:
  "qe_alloc E (rt_allocs s) \<Longrightarrow> calloc_op E d s = Some (Inr (Some (rt_allocs s)),
    s\<lparr>rt_allocs := Suc (rt_allocs s), rt_ops := (rt_ops s)(rt_allocs s \<mapsto> d)\<rparr>)"
  by (simp add: calloc_op_def bindQ_def take_address_def)

definition queued_op :: "nat \<Rightarrow> nat \<Rightarrow> op_data" where
  "queued_op k len = \<lparr>od_base = \<lparr>fb_pData = Some k, fb_dataLenInBytes = len\<rparr>,
    od_exponent = \<lparr>fb_pData = Some (k + 1), fb_dataLenInBytes = len\<rparr>,
    od_modulus = \<lparr>fb_pData = Some (k + 2), fb_dataLenInBytes = len\<rparr>\<rparr>"

definition queued_task :: "nat \<Rightarrow> nat \<Rightarrow> ptr \<Rightarrow> nat \<Rightarrow> task" where
  "queued_task k len r ident = \<lparr>tk_id = ident, tk_op_type = HE_QAT_OP_MODEXP, tk_op_status = CPA_STATUS_SUCCESS,
    tk_op_result = \<lparr>fb_pData = Some (k + 5), fb_dataLenInBytes = len\<rparr>, tk_op_data = Some (k + 4),
    tk_op_output = r, tk_callback_func = BnModExpCallback, tk_request_status = HE_QAT_STATUS_SUCCESS\<rparr>"

text \<open>The memory of a request: operands, structures and the place of the result.\<close>

definition with_request :: "qat_env \<Rightarrow> nat \<Rightarrow> ptr \<Rightarrow> nat \<Rightarrow> u8 list \<Rightarrow> u8 list \<Rightarrow> u8 list \<Rightarrow> runtime \<Rightarrow> runtime" where
  "with_request E len r ident bs es ms s = (let k = rt_allocs s in
    s\<lparr>rt_allocs := k + 6,
      rt_mem := (rt_mem s)(k \<mapsto> bs, k + 1 \<mapsto> es, k + 2 \<mapsto> ms, k + 5 \<mapsto> map (qe_garbage E (k + 5)) [0 ..< len]),
      rt_tasks := (rt_tasks s)(k + 3 \<mapsto> queued_task k len r ident),
      rt_ops := (rt_ops s)(k + 4 \<mapsto> queued_op k len)\<rparr>)"

lemma operand_later:
  "operand s p len bs \<Longrightarrow> rt_allocs s \<le> k \<Longrightarrow>
    operand (s\<lparr>rt_allocs := Suc k, rt_mem := (rt_mem s)(k \<mapsto> xs)\<rparr>) p len bs"
  unfolding operand_def by (elim exE conjE) (intro exI conjI, assumption, simp_all)

lemma allocs_okD: "allocs_ok E s n \<Longrightarrow> k < n \<Longrightarrow> qe_alloc E (k + rt_allocs s)"
  by (simp add: allocs_ok_def add.commute)

text \<open>Building a request: what the two calls on byte arrays do before they submit it.\<close>

lemma build_request:
  assumes a: "allocs_ok E s 6"
    and o': "operand s b len bs" "operand s e len es" "operand s m len ms"
  shows "bindQ (copy_in E b len) (\<lambda>pBase. if pBase = None then retQ HE_QAT_STATUS_FAIL else
     bindQ (copy_in E e len) (\<lambda>pExponent. if pExponent = None then retQ HE_QAT_STATUS_FAIL else
     bindQ (copy_in E m len) (\<lambda>pModulus. if pModulus = None then retQ HE_QAT_STATUS_FAIL else
     bindQ (calloc_task E) (\<lambda>request. case request of None \<Rightarrow> retQ HE_QAT_STATUS_FAIL | Some a \<Rightarrow>
     bindQ (pack_request E a len pBase pExponent pModulus BnModExpCallback r ident) (\<lambda>ok.
     if \<not> ok then retQ HE_QAT_STATUS_FAIL else f request))))) s =
    f (Some (rt_allocs s + 3)) (with_request E len r ident bs es ms s)"
proof -
  let ?k = "rt_allocs s"
  have q: "qe_alloc E ?k" "qe_alloc E (Suc ?k)" "qe_alloc E (Suc (Suc ?k))" "qe_alloc E (Suc (Suc (Suc ?k)))"
    "qe_alloc E (Suc (Suc (Suc (Suc ?k))))" "qe_alloc E (Suc (Suc (Suc (Suc (Suc ?k)))))"
    using allocs_okD [OF a, of 0] allocs_okD [OF a, of 1] allocs_okD [OF a, of 2]
      allocs_okD [OF a, of 3] allocs_okD [OF a, of 4] allocs_okD [OF a, of 5]
    by (simp_all add: eval_nat_numeral)
  define s1 where "s1 = s\<lparr>rt_allocs := Suc ?k, rt_mem := (rt_mem s)(?k \<mapsto> bs)\<rparr>"
  define s2 where "s2 = s\<lparr>rt_allocs := Suc (Suc ?k), rt_mem := (rt_mem s)(?k \<mapsto> bs, Suc ?k \<mapsto> es)\<rparr>"
  define s3 where "s3 = s\<lparr>rt_allocs := Suc (Suc (Suc ?k)),
    rt_mem := (rt_mem s)(?k \<mapsto> bs, Suc ?k \<mapsto> es, Suc (Suc ?k) \<mapsto> ms)\<rparr>"
  have c1: "copy_in E b len s = Some (Inr (Some ?k), s1)"
    using copy_in_ok [OF q(1) o'(1)] by (simp add: s1_def)
  have "operand s1 e len es" using operand_later [OF o'(2), of ?k] by (simp add: s1_def)
  then have c2: "copy_in E e len s1 = Some (Inr (Some (Suc ?k)), s2)"
    using copy_in_ok [of E s1] q(2) by (simp add: s1_def s2_def)
  have "operand s1 m len ms" using operand_later [OF o'(3), of ?k] by (simp add: s1_def)
  then have "operand s2 m len ms" using operand_later [of s1 m len ms "Suc ?k"] by (simp add: s1_def s2_def)
  then have c3: "copy_in E m len s2 = Some (Inr (Some (Suc (Suc ?k))), s3)"
    using copy_in_ok [of E s2] q(3) by (simp add: s2_def s3_def)
  have e: "rt_allocs s3 = Suc (Suc (Suc ?k))" by (simp add: s3_def)
  define s4 where "s4 = s3\<lparr>rt_allocs := Suc (Suc (Suc (Suc ?k))), rt_tasks := (rt_tasks s)(Suc (Suc (Suc ?k)) \<mapsto> zero_task)\<rparr>"
  have c4: "calloc_task E s3 = Some (Inr (Some (Suc (Suc (Suc ?k)))), s4)"
    using q(4) by (simp add: calloc_task_ok e s4_def) (simp add: s3_def)
  have c5: "pack_request E (Suc (Suc (Suc ?k))) len (Some ?k) (Some (Suc ?k)) (Some (Suc (Suc ?k))) BnModExpCallback r ident s4 =
      Some (Inr True, with_request E len r ident bs es ms s)"
    using q(5,6)
    by (simp add: pack_request_def bindQ_def calloc_op_ok alloc_contig_ok put_task_def s4_def)
      (simp add: with_request_def queued_task_def queued_op_def zero_task_def s3_def eval_nat_numeral Let_def)
  show ?thesis
    by (simp add: bindQ_def c1 c2 c3 c4 c5 eval_nat_numeral)
qed


text \<open>
  The call on a client's buffer: with six successful allocations it succeeds, and the request is
  the last element of the buffer; it waits exactly when the buffer is full.
\<close>

lemma bnModExp_MT_ok:
  assumes "allocs_ok E s 6" "i < HE_QAT_BUFFER_COUNT" "r \<noteq> None"
    and "operand s b len bs" "operand s e len es" "operand s m len ms" "len = (nbits + 7) div 2 ^ 3"
    and "submit_request (Some (rt_allocs s + 3)) (ob_buffer (rt_outstanding s) i) = Some b'"
  shows "HE_QAT_bnModExp_MT E i r b e m nbits s =
    Some (Inr HE_QAT_STATUS_SUCCESS, (with_request E len r (rt_mt_ids s) bs es ms s)
      \<lparr>rt_mt_ids := ull_inc (rt_mt_ids s), rt_outstanding := on_buffer i (\<lambda>_. b') (rt_outstanding s)\<rparr>)"
proof -
  have p: "b \<noteq> None" "e \<noteq> None" "m \<noteq> None" using assms(4-6) by (auto simp: operand_def)
  have w: "rt_outstanding (with_request E len r ident bs es ms s) = rt_outstanding s"
    "rt_mt_ids (with_request E len r ident bs es ms s) = rt_mt_ids s" for ident
    by (simp_all add: with_request_def Let_def)
  show ?thesis
    unfolding HE_QAT_bnModExp_MT_def Let_def assms(7) [symmetric] build_request [OF assms(1,4,5,6)]
    using assms(2,3,8) p by (simp add: bindQ_def submit_outstanding_def w)
qed

lemma bnModExp_ok:
  assumes "allocs_ok E s 6" "r \<noteq> None"
    and "operand s b len bs" "operand s e len es" "operand s m len ms" "len = (nbits + 7) div 2 ^ 3"
    and "submit_request (Some (rt_allocs s + 3)) (rt_he_qat_buffer s) = Some b'"
  shows "HE_QAT_bnModExp E r b e m nbits s =
    Some (Inr HE_QAT_STATUS_SUCCESS, (with_request E len r (rt_bn_ids s) bs es ms s)
      \<lparr>rt_bn_ids := ull_inc (rt_bn_ids s), rt_he_qat_buffer := b'\<rparr>)"
proof -
  have p: "b \<noteq> None" "e \<noteq> None" "m \<noteq> None" using assms(3-5) by (auto simp: operand_def)
  have w: "rt_he_qat_buffer (with_request E len r ident bs es ms s) = rt_he_qat_buffer s"
    "rt_bn_ids (with_request E len r ident bs es ms s) = rt_bn_ids s" for ident
    by (simp_all add: with_request_def Let_def)
  show ?thesis
    unfolding HE_QAT_bnModExp_def Let_def assms(6) [symmetric] build_request [OF assms(1,3,4,5)]
    using assms(2,7) p by (simp add: bindQ_def submit_internal_def w)
qed

lemma bnModExp_MT_null:
  "r = None \<or> b = None \<or> e = None \<or> m = None \<Longrightarrow>
    HE_QAT_bnModExp_MT E i r b e m nbits s = Some (Inr HE_QAT_STATUS_INVALID_PARAM, s) \<and>
    HE_QAT_bnModExp E r b e m nbits s = Some (Inr HE_QAT_STATUS_INVALID_PARAM, s)"
  by (auto simp: HE_QAT_bnModExp_MT_def HE_QAT_bnModExp_def Let_def)

text \<open>
  When the memory of the exponent cannot be allocated, the call fails without a request, and the
  memory of the base stays allocated: no other address is known to anyone.
\<close>

lemma bnModExp_MT_leak:
  assumes "qe_alloc E (rt_allocs s)" "\<not> qe_alloc E (rt_allocs s + 1)"
    and "r \<noteq> None" "operand s b len bs" "e \<noteq> None" "m \<noteq> None" "len = (nbits + 7) div 2 ^ 3"
  shows "HE_QAT_bnModExp_MT E i r b e m nbits s = Some (Inr HE_QAT_STATUS_FAIL,
    s\<lparr>rt_allocs := rt_allocs s + 2, rt_mem := (rt_mem s)(rt_allocs s \<mapsto> bs)\<rparr>)"
proof -
  have b: "b \<noteq> None" using assms(4) by (auto simp: operand_def)
  show ?thesis
    using assms(1-3,5,6) b unfolding HE_QAT_bnModExp_MT_def Let_def assms(7) [symmetric]
    by (simp add: bindQ_def copy_in_ok [OF assms(1,4)] copy_in_fail)
qed

section \<open>Completed requests\<close>

definition task_result :: "runtime \<Rightarrow> task \<Rightarrow> u8 list \<Rightarrow> bool" where
  "task_result s t bs \<longleftrightarrow> (\<exists>a mem. fb_pData (tk_op_result t) = Some a \<and> rt_mem s a = Some mem \<and>
    length bs = fb_dataLenInBytes (tk_op_result t) \<and> fb_dataLenInBytes (tk_op_result t) \<le> length mem \<and>
    take (fb_dataLenInBytes (tk_op_result t)) mem = bs)"

lemma callback_ready:
  assumes "rt_tasks s a = Some t" "task_result s t bs" "tk_op_output t = Some r" "rt_mem s r = Some old"
    and "length bs \<le> length old"
  shows "HE_QAT_bnModExpCallback (Some a) CPA_STATUS_SUCCESS (tk_op_data t) s =
    Some (Inr (), s\<lparr>rt_response_count := ull_inc (rt_response_count s),
      rt_tasks := (rt_tasks s)(a \<mapsto> t\<lparr>tk_op_status := CPA_STATUS_SUCCESS, tk_request_status := HE_QAT_STATUS_READY\<rparr>),
      rt_mem := (rt_mem s)(r \<mapsto> bs @ drop (length bs) old)\<rparr>)"
  using assms
  by (auto simp: HE_QAT_bnModExpCallback_def bindQ_def get_task_def put_task_def mem_read_def mem_write_def
      task_result_def Let_def)

text \<open>A response with an error leaves the request as it was, not ready: whoever waits for it waits on.\<close>

lemma callback_error:
  assumes "rt_tasks s a = Some t" "status \<noteq> CPA_STATUS_SUCCESS"
  shows "HE_QAT_bnModExpCallback (Some a) status op s =
    Some (Inr (), s\<lparr>rt_response_count := ull_inc (rt_response_count s),
      rt_tasks := (rt_tasks s)(a \<mapsto> t\<lparr>tk_op_status := status\<rparr>)\<rparr>)"
  using assms by (simp add: HE_QAT_bnModExpCallback_def bindQ_def get_task_def put_task_def Let_def)

lemma collect_waits:
  "rt_tasks s a = Some t \<Longrightarrow> tk_request_status t \<noteq> HE_QAT_STATUS_READY \<Longrightarrow> collect_task a s = None"
  by (simp add: collect_task_def bindQ_def get_task_def)

definition freed :: "nat \<Rightarrow> task \<Rightarrow> op_data \<Rightarrow> runtime \<Rightarrow> runtime" where
  "freed a t d s = s\<lparr>
    rt_mem := (\<lambda>x. if Some x \<in> {fb_pData (od_base d), fb_pData (od_exponent d), fb_pData (od_modulus d),
      fb_pData (tk_op_result t)} then None else rt_mem s x),
    rt_ops := (\<lambda>x. if Some x = tk_op_data t then None else rt_ops s x),
    rt_tasks := (rt_tasks s)(a := None)\<rparr>"

lemma free_contig_run:
  "HE_QAT_MEM_FREE_CONTIG p s = Some (Inr (), s\<lparr>rt_mem := (\<lambda>x. if Some x = p then None else rt_mem s x)\<rparr>)"
  by (cases p) (auto simp: HE_QAT_MEM_FREE_CONTIG_def fun_eq_iff intro!: arg_cong [where f = "\<lambda>m. s\<lparr>rt_mem := m\<rparr>"])

lemma collect_ok:
  assumes "rt_tasks s a = Some t" "tk_request_status t = HE_QAT_STATUS_READY"
    and "tk_op_data t = Some op" "rt_ops s op = Some d"
  shows "collect_task a s = Some (Inr (), freed a t d s)"
  using assms
  by (simp add: collect_task_def bindQ_def get_task_def free_contig_run freed_def fun_eq_iff)

text \<open>An empty slot holds \<open>release_bnModExp_buffer\<close> up for ever, and so does a failed request.\<close>

lemma release_stuck:
  assumes "rb_data (ob_buffer (rt_outstanding s) i) (rb_next_data_out (ob_buffer (rt_outstanding s) i)) = p"
    and "p = None \<or> (\<exists>a t. p = Some a \<and> rt_tasks s a = Some t \<and> tk_request_status t \<noteq> HE_QAT_STATUS_READY)"
    and "0 < n"
  shows "release_bnModExp_buffer i n s = None"
proof -
  obtain k where k: "n = Suc k" using assms(3) by (cases n) simp_all
  show ?thesis
    using assms(1,2) collect_waits
    by (auto simp: release_bnModExp_buffer_def k bindQ_def release_one_def)
qed

end
