(* ===== verification/QatControl.thy ===== *)
theory QatControl
  imports QatRequests
begin

text \<open>
  The threads of the accelerator's runtime (\<open>heqat/ctrl.c\<close>), in the asynchronous build: the
  scheduler moves requests from the outstanding buffers to the internal buffer, the processing
  thread of \<open>start_instances\<close> (or of the older \<open>start_perform_op\<close>, one for each instance) reads
  them and offers them to the accelerator, and \<open>stop_instances\<close> ends both.

  The accelerator's library is a parameter: its answers to \<open>cpaCyLnModExp\<close> are arguments of the
  steps, those to the calls that start and stop instances are a record of functions.
\<close>

section \<open>Throttling\<close>

definition restart_threshold :: nat where
  "restart_threshold = NUM_PKE_SLICES * HE_QAT_NUM_ACTIVE_INSTANCES"

definition max_pending :: nat where
  "max_pending = 2 * NUM_PKE_SLICES * HE_QAT_NUM_ACTIVE_INSTANCES"

definition ulong_sub :: "nat \<Rightarrow> nat \<Rightarrow> nat" where
  "ulong_sub a b = (a + (2 ^ 64 - b mod 2 ^ 64)) mod 2 ^ 64"

definition pending :: "runtime \<Rightarrow> nat" where
  "pending s = ulong_sub (rt_request_count s) (rt_response_count s)"

definition available :: "runtime \<Rightarrow> nat" where
  "available s = max_pending - (if pending s < max_pending then pending s else max_pending)"

lemma available_bounds: "available s \<le> max_pending"
  by (simp add: available_def)

text \<open>The counters may wrap: only the number of requests in flight matters.\<close>

lemma ulong_sub_wrap:
  assumes "n < 2 ^ 64"
  shows "ulong_sub ((r + n) mod 2 ^ 64) (r mod 2 ^ 64) = n"
proof -
  have "((r + n) mod 2 ^ 64 + (2 ^ 64 - r mod 2 ^ 64)) mod 2 ^ 64 = (r + n + (2 ^ 64 - r mod 2 ^ 64)) mod (2 ^ 64 :: nat)"
    by (rule mod_add_left_eq)
  also have "r + n + (2 ^ 64 - r mod 2 ^ 64) = n + (r div 2 ^ 64 + 1) * 2 ^ 64"
  proof -
    have "r div 2 ^ 64 * 2 ^ 64 + r mod 2 ^ 64 = r" "r mod 2 ^ 64 < (2 ^ 64 :: nat)"
      by (rule div_mult_mod_eq, simp)
    then show ?thesis unfolding add_mult_distrib mult_1 by linarith
  qed
  also have "\<dots> mod 2 ^ 64 = n" unfolding mod_mult_self1 by (rule mod_less [OF assms])
  finally show ?thesis by (simp add: ulong_sub_def)
qed

section \<open>The threads' state\<close>

record inst_config =
  ic_inst_id :: nat
  ic_inst_handle :: ptr
  ic_active :: int
  ic_polling :: int
  ic_running :: int
  ic_status :: CpaStatus

record qat_config =
  cf_inst_config :: "nat \<Rightarrow> inst_config"
  cf_active :: int
  cf_running :: int
  cf_count :: nat

text \<open>
  A request the accelerator has accepted: its address, the operation's data that was passed with
  it, and the instance.
\<close>

type_synonym accepted = "nat \<times> ptr \<times> nat"

record control =
  ct_context :: HE_QAT_STATUS
  ct_config :: "qat_config option"
  ct_rt :: runtime
  ct_scheduler :: tasklist
  ct_runner :: tasklist
  ct_next_instance :: nat
  ct_instance_count :: nat
  ct_per_instance :: "nat \<Rightarrow> nat"
  ct_status :: CpaStatus
  ct_halted :: bool
  ct_device :: "accepted list"

record qat_api =
  qa_start :: "ptr \<Rightarrow> CpaStatus"
  qa_translate :: "ptr \<Rightarrow> CpaStatus"
  qa_create :: "nat \<Rightarrow> bool"
  qa_detach :: "nat \<Rightarrow> bool"

section \<open>The scheduler\<close>

text \<open>One iteration of \<open>schedule_requests\<close>, in the two critical sections it consists of.\<close>

definition schedule_pull :: "control \<Rightarrow> control option" where
  "schedule_pull c =
    (case pull_outstanding_requests (ct_scheduler c) HE_QAT_BUFFER_SIZE (rt_outstanding (ct_rt c)) of
       None \<Rightarrow> None
     | Some (r, ob) \<Rightarrow> Some (c\<lparr>ct_scheduler := r, ct_rt := (ct_rt c)\<lparr>rt_outstanding := ob\<rparr>\<rparr>))"

definition schedule_submit :: "control \<Rightarrow> control option" where
  "schedule_submit c =
    (case submit_request_list (ct_scheduler c) (rt_he_qat_buffer (ct_rt c)) of
       None \<Rightarrow> None
     | Some (r, b) \<Rightarrow> Some (c\<lparr>ct_scheduler := r, ct_rt := (ct_rt c)\<lparr>rt_he_qat_buffer := b\<rparr>\<rparr>))"

definition empty_list :: tasklist where
  "empty_list = \<lparr>tl_request = (\<lambda>_. None), tl_count = 0\<rparr>"

text \<open>The scheduler's start, and one turn of its loop with whether it goes on.\<close>

definition schedule_start :: "control \<Rightarrow> control" where
  "schedule_start c = c\<lparr>ct_scheduler := empty_list, ct_context := HE_QAT_STATUS_RUNNING\<rparr>"

definition schedule_requests :: "control \<Rightarrow> (control \<times> bool) option" where
  "schedule_requests c =
    (if ct_context c = HE_QAT_STATUS_INACTIVE then Some (c, False)
     else map_option (\<lambda>c'. (c', True)) (Option.bind (schedule_pull c) schedule_submit))"

section \<open>Starting the instances\<close>

text \<open>
  \<open>start_inst_polling\<close> marks the instance as polled; the polls themselves deliver responses, the
  callbacks of \<open>heqat/cb.c\<close>.
\<close>

definition start_inst_polling :: "inst_config \<Rightarrow> inst_config" where
  "start_inst_polling ic = (if ic_inst_handle ic = None then ic else ic\<lparr>ic_polling := 1\<rparr>)"

definition set_inst :: "nat \<Rightarrow> (inst_config \<Rightarrow> inst_config) \<Rightarrow> qat_config \<Rightarrow> qat_config" where
  "set_inst j f cf = cf\<lparr>cf_inst_config := (cf_inst_config cf)(j := f (cf_inst_config cf j))\<rparr>"

text \<open>Start one instance: \<open>None\<close> while it is still active, and whether the thread goes on.\<close>

definition start_instance :: "qat_api \<Rightarrow> nat \<Rightarrow> qat_config \<Rightarrow> (qat_config \<times> bool) option" where
  "start_instance api j cf =
    (let ic = cf_inst_config cf j in
     if ic_active ic \<noteq> 0 then None
     else let started = qa_start api (ic_inst_handle ic);
              status = (if started = CPA_STATUS_SUCCESS then qa_translate api (ic_inst_handle ic) else started);
              cf = set_inst j (\<lambda>ic. ic\<lparr>ic_status := started\<rparr>) cf
          in if status \<noteq> CPA_STATUS_SUCCESS then Some (cf, False)
             else if \<not> qa_create api j then Some (cf, False)
             else let cf = set_inst j start_inst_polling cf
                  in if \<not> qa_detach api j then Some (cf, False)
                     else Some (set_inst j (\<lambda>ic. ic\<lparr>ic_active := 1, ic_running := 1\<rparr>) cf, True))"

fun start_loop :: "qat_api \<Rightarrow> nat list \<Rightarrow> qat_config \<Rightarrow> (qat_config \<times> bool) option" where
  "start_loop api [] cf = Some (cf, True)"
| "start_loop api (j # js) cf =
    (case start_instance api j cf of
       None \<Rightarrow> None
     | Some (cf', go) \<Rightarrow> if go then start_loop api js cf' else Some (cf', False))"

text \<open>The part of \<open>start_instances\<close> before its processing loop, with memory for its two arrays.\<close>

definition start_instances :: "qat_api \<Rightarrow> control \<Rightarrow> control option" where
  "start_instances api c =
    (case ct_config c of
       None \<Rightarrow> Some (c\<lparr>ct_halted := True\<rparr>)
     | Some cf \<Rightarrow>
        let c = c\<lparr>ct_instance_count := cf_count cf, ct_per_instance := (\<lambda>_. 0)\<rparr> in
        (case start_loop api [0 ..< cf_count cf] cf of
           None \<Rightarrow> None
         | Some (cf', go) \<Rightarrow>
             if \<not> go then Some (c\<lparr>ct_config := Some cf', ct_halted := True\<rparr>)
             else Some (c\<lparr>ct_config := Some (cf'\<lparr>cf_running := 1, cf_active := 1\<rparr>),
                ct_runner := empty_list,
                ct_status := (if cf_count cf = 0 then CPA_STATUS_FAIL else CPA_STATUS_SUCCESS)\<rparr>)))"

section \<open>Processing requests\<close>

text \<open>Wait until enough requests may be in flight, then read as many as may be sent.\<close>

definition process_read :: "control \<Rightarrow> control option" where
  "process_read c =
    (if available (ct_rt c) < restart_threshold then None
     else case read_request_list (ct_runner c) (available (ct_rt c)) (rt_he_qat_buffer (ct_rt c)) of
       None \<Rightarrow> None
     | Some (r, b) \<Rightarrow> Some (c\<lparr>ct_runner := r, ct_rt := (ct_rt c)\<lparr>rt_he_qat_buffer := b\<rparr>\<rparr>))"

text \<open>
  Offer request \<open>i\<close> of the list to an instance; \<open>answer\<close> is what \<open>cpaCyLnModExp\<close> returns. The
  answer \<open>CPA_STATUS_RETRY\<close> ends the thread.
\<close>

definition offload :: "CpaStatus \<Rightarrow> nat \<Rightarrow> control \<Rightarrow> control result" where
  "offload answer i c =
    (case Option.bind (tl_request (ct_runner c) i) (\<lambda>a. map_option (Pair a) (rt_tasks (ct_rt c) a)) of
       None \<Rightarrow> Inl (Undefined ''request'')
     | Some (a, t) \<Rightarrow>
         let status = (if tk_op_type t = HE_QAT_OP_MODEXP then answer else ct_status c);
             c = c\<lparr>ct_status := status\<rparr>
         in if status = CPA_STATUS_RETRY then Inr (c\<lparr>ct_halted := True\<rparr>)
            else let done = (ct_runner c)\<lparr>tl_request := (tl_request (ct_runner c))(i := None)\<rparr>;
                     inst = ct_next_instance c
                 in if status = CPA_STATUS_SUCCESS then
                      Inr (c\<lparr>ct_runner := done,
                        ct_device := (if tk_op_type t = HE_QAT_OP_MODEXP
                          then ct_device c @ [(a, tk_op_data t, inst)] else ct_device c),
                        ct_rt := (ct_rt c)\<lparr>rt_request_count := ull_inc (rt_request_count (ct_rt c))\<rparr>,
                        ct_per_instance := (ct_per_instance c)(inst := uint_add (ct_per_instance c inst) 1),
                        ct_next_instance := uint_add inst 1 mod ct_instance_count c\<rparr>)
                    else
                      Inr (c\<lparr>ct_runner := done,
                        ct_rt := (ct_rt c)\<lparr>rt_tasks := (rt_tasks (ct_rt c))(a \<mapsto>
                          t\<lparr>tk_op_status := CPA_STATUS_FAIL, tk_request_status := HE_QAT_STATUS_FAIL\<rparr>)\<rparr>\<rparr>))"

text \<open>The loop over the list; it stops early only when the thread ends.\<close>

fun offload_loop :: "(nat \<Rightarrow> CpaStatus) \<Rightarrow> nat list \<Rightarrow> control \<Rightarrow> control result" where
  "offload_loop answers [] c = Inr (c\<lparr>ct_runner := (ct_runner c)\<lparr>tl_count := 0\<rparr>\<rparr>)"
| "offload_loop answers (i # is) c =
    bindR (offload (answers i) i c) (\<lambda>c'. if ct_halted c' then Inr c' else offload_loop answers is c')"

text \<open>One iteration of the processing loop of \<open>start_instances\<close>.\<close>

definition process_requests :: "(nat \<Rightarrow> CpaStatus) \<Rightarrow> control \<Rightarrow> control result option" where
  "process_requests answers c =
    (case ct_config c of
       None \<Rightarrow> Some (Inl (Undefined ''configuration''))
     | Some cf \<Rightarrow>
        if cf_running cf = 0 then Some (Inr (c\<lparr>ct_halted := True\<rparr>))
        else map_option (\<lambda>c'. offload_loop answers [0 ..< tl_count (ct_runner c')] c') (process_read c))"

section \<open>The older processing thread\<close>

text \<open>
  \<open>start_perform_op\<close> serves one instance. It offers a request again while the accelerator asks for
  it, up to \<open>HE_QAT_MAX_RETRY\<close> times; the first argument of \<open>answers\<close> is the request, the second
  the attempt.
\<close>

fun attempts :: "(nat \<Rightarrow> CpaStatus) \<Rightarrow> nat \<Rightarrow> nat \<Rightarrow> CpaStatus" where
  "attempts answers 0 retry = CPA_STATUS_RETRY"
| "attempts answers (Suc n) retry =
    (if answers retry = CPA_STATUS_RETRY \<and> retry + 1 < HE_QAT_MAX_RETRY then attempts answers n (retry + 1)
     else answers retry)"

definition perform_offload :: "(nat \<Rightarrow> CpaStatus) \<Rightarrow> nat \<Rightarrow> control \<Rightarrow> control result" where
  "perform_offload answers i c =
    (case Option.bind (tl_request (ct_runner c) i) (\<lambda>a. map_option (Pair a) (rt_tasks (ct_rt c) a)) of
       None \<Rightarrow> Inl (Undefined ''request'')
     | Some (a, t) \<Rightarrow>
         let status = (if tk_op_type t = HE_QAT_OP_MODEXP then attempts answers HE_QAT_MAX_RETRY 0 else ct_status c);
             c = c\<lparr>ct_status := status,
                   ct_runner := (ct_runner c)\<lparr>tl_request := (tl_request (ct_runner c))(i := None)\<rparr>\<rparr>
         in if status = CPA_STATUS_SUCCESS then
              Inr (c\<lparr>ct_device := (if tk_op_type t = HE_QAT_OP_MODEXP
                       then ct_device c @ [(a, tk_op_data t, 0)] else ct_device c),
                     ct_rt := (ct_rt c)\<lparr>rt_request_count := ull_inc (rt_request_count (ct_rt c))\<rparr>\<rparr>)
            else
              Inr (c\<lparr>ct_rt := (ct_rt c)\<lparr>rt_tasks := (rt_tasks (ct_rt c))(a \<mapsto>
                  t\<lparr>tk_op_status := CPA_STATUS_FAIL, tk_request_status := HE_QAT_STATUS_FAIL\<rparr>)\<rparr>\<rparr>))"

fun perform_loop :: "(nat \<Rightarrow> nat \<Rightarrow> CpaStatus) \<Rightarrow> nat list \<Rightarrow> control \<Rightarrow> control result" where
  "perform_loop answers [] c = Inr (c\<lparr>ct_runner := (ct_runner c)\<lparr>tl_count := 0\<rparr>\<rparr>)"
| "perform_loop answers (i # is) c =
    bindR (perform_offload (answers i) i c) (perform_loop answers is)"

definition perform_requests :: "(nat \<Rightarrow> nat \<Rightarrow> CpaStatus) \<Rightarrow> inst_config \<Rightarrow> control \<Rightarrow> control result option" where
  "perform_requests answers ic c =
    (if ic_running ic = 0 then Some (Inr (c\<lparr>ct_halted := True\<rparr>))
     else map_option (\<lambda>c'. perform_loop answers [0 ..< tl_count (ct_runner c')] c') (process_read c))"

text \<open>The part of \<open>start_perform_op\<close> before its loop.\<close>

definition start_perform_op :: "qat_api \<Rightarrow> inst_config \<Rightarrow> control \<Rightarrow> (inst_config \<times> control) option" where
  "start_perform_op api ic c =
    (if ic_active ic \<noteq> 0 then None
     else let started = qa_start api (ic_inst_handle ic);
              status = (if started = CPA_STATUS_SUCCESS then qa_translate api (ic_inst_handle ic) else started);
              ic = ic\<lparr>ic_status := started\<rparr>; c = c\<lparr>ct_status := status\<rparr>
          in if status \<noteq> CPA_STATUS_SUCCESS then Some (ic, c\<lparr>ct_halted := True\<rparr>)
             else if \<not> qa_create api (ic_inst_id ic) then Some (ic, c\<lparr>ct_halted := True\<rparr>)
             else let ic = start_inst_polling ic
                  in if \<not> qa_detach api (ic_inst_id ic) then Some (ic, c\<lparr>ct_halted := True\<rparr>)
                     else Some (ic\<lparr>ic_running := 1, ic_active := 1\<rparr>, c\<lparr>ct_runner := empty_list\<rparr>))"

section \<open>Stopping the instances\<close>

text \<open>
  \<open>None\<close> while an instance is not active yet. The result of \<open>cpaCyStopInstance\<close> is only printed.
\<close>

definition stop_one :: "inst_config \<Rightarrow> inst_config option" where
  "stop_one ic =
    (if ic_active ic = 0 then None
     else if ic_status ic = CPA_STATUS_SUCCESS then Some (ic\<lparr>ic_polling := 0, ic_running := 0\<rparr>)
     else Some ic)"

fun stop_loop :: "nat list \<Rightarrow> (nat \<Rightarrow> inst_config) \<Rightarrow> (nat \<Rightarrow> inst_config) option" where
  "stop_loop [] ics = Some ics"
| "stop_loop (i # is) ics =
    (case stop_one (ics i) of None \<Rightarrow> None | Some ic \<Rightarrow> stop_loop is (ics(i := ic)))"

definition stop_perform_op :: "(nat \<Rightarrow> inst_config) \<Rightarrow> nat \<Rightarrow> (nat \<Rightarrow> inst_config) option" where
  "stop_perform_op ics num_inst = stop_loop [0 ..< num_inst] ics"

definition stop_instances :: "qat_config option \<Rightarrow> qat_config option option" where
  "stop_instances config =
    (case config of None \<Rightarrow> Some None
     | Some cf \<Rightarrow>
        let cf = (if cf_active cf \<noteq> 0 then cf\<lparr>cf_active := 0\<rparr> else cf);
            cf = (if cf_running cf \<noteq> 0 then cf\<lparr>cf_running := 0\<rparr> else cf)
        in map_option (\<lambda>ics. Some (cf\<lparr>cf_inst_config := ics\<rparr>))
             (stop_perform_op (cf_inst_config cf) (cf_count cf)))"


section \<open>What the threads keep\<close>

text \<open>
  The two counters count the requests accepted and answered, modulo \<open>2\<^sup>6\<^sup>4\<close>, and never more than
  \<open>max_pending\<close> requests are in flight or about to be offered.
\<close>

definition in_flight_ok :: "control \<Rightarrow> nat \<Rightarrow> bool" where
  "in_flight_ok c room \<longleftrightarrow>
    (\<exists>r. rt_response_count (ct_rt c) = r mod 2 ^ 64 \<and>
      rt_request_count (ct_rt c) = (r + length (ct_device c)) mod 2 ^ 64) \<and>
    length (ct_device c) + room \<le> max_pending"

lemma max_pending_64: "n \<le> max_pending \<Longrightarrow> n < 2 ^ 64"
  by (simp add: max_pending_def qat_consts)

lemma in_flight_available:
  assumes "in_flight_ok c n"
  shows "pending (ct_rt c) = length (ct_device c)" "available (ct_rt c) = max_pending - length (ct_device c)"
proof -
  have le: "length (ct_device c) \<le> max_pending" using assms by (simp add: in_flight_ok_def)
  obtain r where r: "rt_response_count (ct_rt c) = r mod 2 ^ 64"
    "rt_request_count (ct_rt c) = (r + length (ct_device c)) mod 2 ^ 64"
    using assms unfolding in_flight_ok_def by blast
  show p: "pending (ct_rt c) = length (ct_device c)"
    unfolding pending_def r by (rule ulong_sub_wrap) (rule max_pending_64 [OF le])
  show "available (ct_rt c) = max_pending - length (ct_device c)"
    using le by (simp add: available_def p)
qed

lemma process_read_ok:
  assumes "in_flight_ok c 0" "rb_inv (rt_he_qat_buffer (ct_rt c))" "process_read c = Some c'"
  shows "in_flight_ok c' (tl_count (ct_runner c')) \<and> rb_inv (rt_he_qat_buffer (ct_rt c')) \<and>
    rb_elems (rt_he_qat_buffer (ct_rt c)) = tl_elems (ct_runner c') @ rb_elems (rt_he_qat_buffer (ct_rt c')) \<and>
    c' = c\<lparr>ct_runner := ct_runner c', ct_rt := (ct_rt c)\<lparr>rt_he_qat_buffer := rt_he_qat_buffer (ct_rt c')\<rparr>\<rparr>"
proof -
  obtain r b where rd: "read_request_list (ct_runner c) (available (ct_rt c)) (rt_he_qat_buffer (ct_rt c)) = Some (r, b)"
    and c': "c' = c\<lparr>ct_runner := r, ct_rt := (ct_rt c)\<lparr>rt_he_qat_buffer := b\<rparr>\<rparr>"
    using assms(3) by (auto simp: process_read_def split: if_splits option.splits)
  note ok = read_request_list_ok [OF assms(2) rd]
  have "tl_count r \<le> max_pending - length (ct_device c)"
    using ok in_flight_available(2) [OF assms(1)] by simp
  then have "in_flight_ok c' (tl_count r)" using assms(1) by (auto simp: in_flight_ok_def c')
  then show ?thesis using ok by (simp add: c')
qed

lemma process_read_waits:
  assumes "in_flight_ok c 0"
  shows "process_read c = None \<longleftrightarrow>
    max_pending - restart_threshold < length (ct_device c) \<or> rb_count (rt_he_qat_buffer (ct_rt c)) = 0"
proof -
  have "process_read c = None \<longleftrightarrow> available (ct_rt c) < restart_threshold \<or>
      read_request_list (ct_runner c) (available (ct_rt c)) (rt_he_qat_buffer (ct_rt c)) = None"
    by (auto simp: process_read_def split: option.splits)
  then show ?thesis
    unfolding read_request_list_None in_flight_available(2) [OF assms]
    by (auto simp: max_pending_def restart_threshold_def qat_consts)
qed

definition modexp_task :: "control \<Rightarrow> ptr \<Rightarrow> bool" where
  "modexp_task c p \<longleftrightarrow> (\<exists>a t. p = Some a \<and> rt_tasks (ct_rt c) a = Some t \<and> tk_op_type t = HE_QAT_OP_MODEXP)"

lemma offload_cases:
  assumes "tl_request (ct_runner c) i = Some a" "rt_tasks (ct_rt c) a = Some t" "tk_op_type t = HE_QAT_OP_MODEXP"
  shows "answer = CPA_STATUS_RETRY \<Longrightarrow>
      offload answer i c = Inr (c\<lparr>ct_status := answer, ct_halted := True\<rparr>)"
    and "answer = CPA_STATUS_SUCCESS \<Longrightarrow> offload answer i c =
      Inr (c\<lparr>ct_status := answer, ct_runner := (ct_runner c)\<lparr>tl_request := (tl_request (ct_runner c))(i := None)\<rparr>,
        ct_device := ct_device c @ [(a, tk_op_data t, ct_next_instance c)],
        ct_rt := (ct_rt c)\<lparr>rt_request_count := ull_inc (rt_request_count (ct_rt c))\<rparr>,
        ct_per_instance := (ct_per_instance c)(ct_next_instance c := uint_add (ct_per_instance c (ct_next_instance c)) 1),
        ct_next_instance := uint_add (ct_next_instance c) 1 mod ct_instance_count c\<rparr>)"
    and "answer \<noteq> CPA_STATUS_RETRY \<Longrightarrow> answer \<noteq> CPA_STATUS_SUCCESS \<Longrightarrow> offload answer i c =
      Inr (c\<lparr>ct_status := answer, ct_runner := (ct_runner c)\<lparr>tl_request := (tl_request (ct_runner c))(i := None)\<rparr>,
        ct_rt := (ct_rt c)\<lparr>rt_tasks := (rt_tasks (ct_rt c))(a \<mapsto>
          t\<lparr>tk_op_status := CPA_STATUS_FAIL, tk_request_status := HE_QAT_STATUS_FAIL\<rparr>)\<rparr>\<rparr>)"
  using assms by (simp_all add: offload_def Let_def)

text \<open>One offer keeps the counters right and uses at most one of the places in flight.\<close>

lemma ull_inc_mod: "ull_inc (n mod 2 ^ 64) = Suc n mod 2 ^ 64"
  by (simp add: ull_inc_def mod_Suc_eq)

lemma offload_in_flight:
  assumes "in_flight_ok c (Suc n)" "modexp_task c (tl_request (ct_runner c) i)"
  shows "\<exists>c'. offload answer i c = Inr c' \<and> in_flight_ok c' n"
proof -
  obtain a t where t: "tl_request (ct_runner c) i = Some a" "rt_tasks (ct_rt c) a = Some t"
    "tk_op_type t = HE_QAT_OP_MODEXP"
    using assms(2) unfolding modexp_task_def by blast
  obtain r where r: "rt_response_count (ct_rt c) = r mod 2 ^ 64"
    "rt_request_count (ct_rt c) = (r + length (ct_device c)) mod 2 ^ 64"
    and le: "Suc (length (ct_device c) + n) \<le> max_pending"
    using assms(1) unfolding in_flight_ok_def by auto
  have inc: "ull_inc (rt_request_count (ct_rt c)) = (r + Suc (length (ct_device c))) mod 2 ^ 64"
    unfolding r ull_inc_mod by simp
  consider "answer = CPA_STATUS_RETRY" | "answer = CPA_STATUS_SUCCESS"
    | "answer \<noteq> CPA_STATUS_RETRY" "answer \<noteq> CPA_STATUS_SUCCESS" by blast
  then show ?thesis
  proof cases
    case 1
    then show ?thesis using offload_cases(1) [OF t 1] r le by (auto simp: in_flight_ok_def)
  next
    case 2
    then show ?thesis using offload_cases(2) [OF t 2] r(1) inc le by (auto simp: in_flight_ok_def)
  next
    case 3
    then show ?thesis using offload_cases(3) [OF t 3] r le by (auto simp: in_flight_ok_def)
  qed
qed

lemma offload_keeps:
  assumes "modexp_task c (tl_request (ct_runner c) i)" "offload answer i c = Inr c'"
  shows "ct_config c' = ct_config c \<and> ct_context c' = ct_context c \<and> ct_scheduler c' = ct_scheduler c \<and>
    ct_instance_count c' = ct_instance_count c \<and>
    rt_he_qat_buffer (ct_rt c') = rt_he_qat_buffer (ct_rt c) \<and> rt_outstanding (ct_rt c') = rt_outstanding (ct_rt c) \<and>
    (\<forall>p. modexp_task c' p = modexp_task c p) \<and> tl_count (ct_runner c') = tl_count (ct_runner c) \<and>
    (\<forall>j. j \<noteq> i \<longrightarrow> tl_request (ct_runner c') j = tl_request (ct_runner c) j)"
proof -
  obtain a t where t: "tl_request (ct_runner c) i = Some a" "rt_tasks (ct_rt c) a = Some t"
    "tk_op_type t = HE_QAT_OP_MODEXP"
    using assms(1) unfolding modexp_task_def by blast
  consider "answer = CPA_STATUS_RETRY" | "answer = CPA_STATUS_SUCCESS"
    | "answer \<noteq> CPA_STATUS_RETRY" "answer \<noteq> CPA_STATUS_SUCCESS" by blast
  then show ?thesis
  proof cases
    case 1
    then show ?thesis using offload_cases(1) [OF t 1] assms(2) by (auto simp: modexp_task_def)
  next
    case 2
    then show ?thesis using offload_cases(2) [OF t 2] assms(2) by (auto simp: modexp_task_def)
  next
    case 3
    then show ?thesis using offload_cases(3) [OF t 3] assms(2) t by (auto simp: modexp_task_def)
  qed
qed

lemma offload_loop_ok:
  assumes "distinct is" "\<forall>i \<in> set is. modexp_task c (tl_request (ct_runner c) i)"
    and "in_flight_ok c (length is)"
  shows "\<exists>c'. offload_loop answers is c = Inr c' \<and> in_flight_ok c' 0 \<and>
    rt_he_qat_buffer (ct_rt c') = rt_he_qat_buffer (ct_rt c) \<and> rt_outstanding (ct_rt c') = rt_outstanding (ct_rt c)"
  using assms
proof (induction "is" arbitrary: c)
  case Nil
  then show ?case by (simp add: in_flight_ok_def)
next
  case (Cons i "is")
  have m: "modexp_task c (tl_request (ct_runner c) i)" using Cons.prems(2) by simp
  obtain c1 where c1: "offload (answers i) i c = Inr c1" "in_flight_ok c1 (length is)"
    using offload_in_flight [OF _ m] Cons.prems(3) by fastforce
  note k = offload_keeps [OF m c1(1)]
  have "\<forall>j \<in> set is. modexp_task c1 (tl_request (ct_runner c1) j)"
    using k Cons.prems(1,2) by (metis distinct.simps(2) list.set_intros(2))
  with Cons.IH [OF _ this c1(2)] Cons.prems(1) c1 k show ?case
    by (auto simp: in_flight_ok_def)
qed

text \<open>
  One turn of the processing loop: it never gets stuck on memory, and afterwards at most
  \<open>max_pending\<close> requests are in flight.
\<close>

lemma process_requests_ok:
  assumes "in_flight_ok c 0" "rb_inv (rt_he_qat_buffer (ct_rt c))"
    and "\<forall>p \<in> set (rb_elems (rt_he_qat_buffer (ct_rt c))). modexp_task c p"
    and "process_requests answers c = Some res"
  shows "res = Inl (Undefined ''configuration'') \<and> ct_config c = None \<or>
    (\<exists>c'. res = Inr c' \<and> in_flight_ok c' 0 \<and> length (ct_device c') \<le> max_pending \<and>
      rb_inv (rt_he_qat_buffer (ct_rt c')))"
proof (cases "ct_config c")
  case None
  then show ?thesis using assms(4) by (simp add: process_requests_def)
next
  case (Some cf)
  show ?thesis
  proof (cases "cf_running cf = 0")
    case True
    then show ?thesis using assms Some by (auto simp: process_requests_def in_flight_ok_def)
  next
    case False
    then obtain c1 where c1: "process_read c = Some c1"
      "res = offload_loop answers [0 ..< tl_count (ct_runner c1)] c1"
      using assms(4) Some by (auto simp: process_requests_def)
    note rd = process_read_ok [OF assms(1,2) c1(1)]
    have t: "modexp_task c1 p = modexp_task c p" for p
      using arg_cong [OF conjunct2 [OF conjunct2 [OF conjunct2 [OF rd]]], of "\<lambda>x. rt_tasks (ct_rt x)"]
      by (simp add: modexp_task_def)
    have "tl_request (ct_runner c1) i \<in> set (rb_elems (rt_he_qat_buffer (ct_rt c)))"
      if "i < tl_count (ct_runner c1)" for i
      using rd that by (simp add: tl_elems_def)
    then have m: "\<forall>i \<in> set [0 ..< tl_count (ct_runner c1)]. modexp_task c1 (tl_request (ct_runner c1) i)"
      using assms(3) by (simp add: t)
    have f: "in_flight_ok c1 (length [0 ..< tl_count (ct_runner c1)])" using rd by simp
    from offload_loop_ok [OF distinct_upt m f, of answers] show ?thesis
      using rd c1(2) by (auto simp: in_flight_ok_def)
  qed
qed

text \<open>The retries of the older thread: the first answer that is not a request to retry counts.\<close>

lemma attempts_spec:
  assumes "retry + n = HE_QAT_MAX_RETRY" "0 < n"
  shows "(\<forall>k. retry \<le> k \<and> k < HE_QAT_MAX_RETRY \<longrightarrow> answers k = CPA_STATUS_RETRY) \<and>
      attempts answers n retry = CPA_STATUS_RETRY \<or>
    (\<exists>k. retry \<le> k \<and> k < HE_QAT_MAX_RETRY \<and> (\<forall>j. retry \<le> j \<and> j < k \<longrightarrow> answers j = CPA_STATUS_RETRY) \<and>
      answers k \<noteq> CPA_STATUS_RETRY \<and> attempts answers n retry = answers k)"
  using assms
proof (induction n arbitrary: retry)
  case (Suc n)
  show ?case
  proof (cases "answers retry = CPA_STATUS_RETRY")
    case False
    then show ?thesis using Suc.prems by (auto intro!: exI [of _ retry])
  next
    case True
    show ?thesis
    proof (cases "n = 0")
      case True
      then have u: "retry \<le> k \<and> k < HE_QAT_MAX_RETRY \<longleftrightarrow> k = retry" for k using Suc.prems(1) by auto
      show ?thesis by (rule disjI1) (use \<open>answers retry = CPA_STATUS_RETRY\<close> True Suc.prems(1) in \<open>simp add: u\<close>)
    next
      case False
      have s: "attempts answers (Suc n) retry = attempts answers n (retry + 1)"
        using True False Suc.prems(1) by simp
      have le: "retry \<le> k \<longleftrightarrow> k = retry \<or> retry + 1 \<le> k" for k by auto
      have IH: "(\<forall>k. retry + 1 \<le> k \<and> k < HE_QAT_MAX_RETRY \<longrightarrow> answers k = CPA_STATUS_RETRY) \<and>
          attempts answers n (retry + 1) = CPA_STATUS_RETRY \<or>
        (\<exists>k. retry + 1 \<le> k \<and> k < HE_QAT_MAX_RETRY \<and> (\<forall>j. retry + 1 \<le> j \<and> j < k \<longrightarrow> answers j = CPA_STATUS_RETRY) \<and>
          answers k \<noteq> CPA_STATUS_RETRY \<and> attempts answers n (retry + 1) = answers k)"
        using Suc.IH [of "retry + 1"] Suc.prems(1) False by simp
      show ?thesis unfolding s using IH True by (metis le)
    qed
  qed
qed simp

section \<open>Starting and stopping\<close>

lemma start_loop_ok:
  assumes "start_loop api js cf = Some (cf', True)" "distinct js"
  shows "(\<forall>j \<in> set js. ic_active (cf_inst_config cf' j) = 1 \<and> ic_running (cf_inst_config cf' j) = 1 \<and>
      ic_status (cf_inst_config cf' j) = CPA_STATUS_SUCCESS) \<and>
    (\<forall>j. j \<notin> set js \<longrightarrow> cf_inst_config cf' j = cf_inst_config cf j) \<and> cf_count cf' = cf_count cf"
  using assms
proof (induction js arbitrary: cf)
  case (Cons j js)
  obtain cf1 where 1: "start_instance api j cf = Some (cf1, True)" "start_loop api js cf1 = Some (cf', True)"
    using Cons.prems(1) by (auto split: option.splits prod.splits if_splits)
  have s: "ic_active (cf_inst_config cf1 j) = 1 \<and> ic_running (cf_inst_config cf1 j) = 1 \<and>
      ic_status (cf_inst_config cf1 j) = CPA_STATUS_SUCCESS \<and>
      (\<forall>k. k \<noteq> j \<longrightarrow> cf_inst_config cf1 k = cf_inst_config cf k) \<and> cf_count cf1 = cf_count cf"
    using 1(1) by (auto simp: start_instance_def set_inst_def start_inst_polling_def Let_def split: if_splits)
  show ?case using Cons.IH [OF 1(2)] Cons.prems(2) s by auto
qed simp

lemma stop_loop_ok:
  assumes "distinct is" "\<forall>i \<in> set is. ic_active (ics i) \<noteq> 0 \<and> ic_status (ics i) = CPA_STATUS_SUCCESS"
  shows "stop_loop is ics = Some (\<lambda>i. if i \<in> set is then (ics i)\<lparr>ic_polling := 0, ic_running := 0\<rparr> else ics i)"
  using assms
  by (induction "is" arbitrary: ics) (auto simp: stop_one_def fun_eq_iff)

text \<open>Every instance that was started is stopped.\<close>

lemma start_stop:
  assumes "start_instances api c = Some c'" "\<not> ct_halted c" "\<not> ct_halted c'"
  shows "\<exists>cf cf'. ct_config c' = Some cf \<and> cf_running cf = 1 \<and> stop_instances (Some cf) = Some (Some cf') \<and>
    cf_running cf' = 0 \<and> cf_active cf' = 0 \<and>
    (\<forall>i < cf_count cf. ic_running (cf_inst_config cf' i) = 0 \<and> ic_polling (cf_inst_config cf' i) = 0)"
proof -
  obtain cf cf1 where cf: "ct_config c = Some cf" "start_loop api [0 ..< cf_count cf] cf = Some (cf1, True)"
    "ct_config c' = Some (cf1\<lparr>cf_running := 1, cf_active := 1\<rparr>)"
    using assms by (auto simp: start_instances_def Let_def split: option.splits prod.splits if_splits)
  note ok = start_loop_ok [OF cf(2) distinct_upt]
  have "stop_loop [0 ..< cf_count cf1] (cf_inst_config cf1) =
      Some (\<lambda>i. if i \<in> set [0 ..< cf_count cf1] then (cf_inst_config cf1 i)\<lparr>ic_polling := 0, ic_running := 0\<rparr>
        else cf_inst_config cf1 i)"
    by (rule stop_loop_ok) (use ok in auto)
  then show ?thesis by (simp add: cf(3) stop_instances_def stop_perform_op_def)
qed

end
