(* ===== verification/QatContext.thy ===== *)
theory QatContext
  imports QatControl
begin

text \<open>
  The life cycle of the accelerator's context (\<open>heqat/context.c\<close>, built with \<open>USER_SPACE\<close>), and
  the library's interface to it (\<open>ipcl/utils/context.cpp\<close>).

  The driver is a parameter: the answers of the calls that initialise memory, start the service,
  enumerate the instances and create the two threads. The context counts the threads it starts.
  A function returns \<open>None\<close> where it waits for an instance to become active.
\<close>

section \<open>The accelerator's context\<close>

definition MAX_INSTANCES :: nat where "MAX_INSTANCES = 1024"

record qat_driver =
  qd_mem_init :: CpaStatus
  qd_sal_start :: CpaStatus
  qd_num_instances :: "CpaStatus \<times> nat"
  qd_get_instances :: "nat \<Rightarrow> nat \<Rightarrow> ptr"
  qd_info :: "ptr \<Rightarrow> CpaStatus"
  qd_create_manager :: bool
  qd_detach_manager :: bool

record qat_context =
  cx_control :: control
  cx_numInstances :: nat
  cx_nextInstance :: nat
  cx_handles :: "nat \<Rightarrow> ptr"
  cx_memory :: bool
  cx_service :: bool
  cx_runners :: nat
  cx_managers :: nat

definition used_instances :: "nat \<Rightarrow> nat" where
  "used_instances n =
    (let n = (if n \<ge> MAX_INSTANCES then MAX_INSTANCES else n)
     in if n \<ge> HE_QAT_NUM_ACTIVE_INSTANCES then HE_QAT_NUM_ACTIVE_INSTANCES else n)"

definition get_qat_instance :: "qat_driver \<Rightarrow> qat_context \<Rightarrow> ptr \<times> qat_context" where
  "get_qat_instance d x =
    (if cx_numInstances x = 0 then
       let (status, n) = qd_num_instances d;
           n = used_instances n;
           x = x\<lparr>cx_numInstances := n\<rparr>
       in if status \<noteq> CPA_STATUS_SUCCESS then (None, x)
          else if n > 0 then
            let x = x\<lparr>cx_handles := (\<lambda>i. if i < n then qd_get_instances d n i else cx_handles x i)\<rparr>
            in if list_all (\<lambda>i. qd_info d (cx_handles x i) = CPA_STATUS_SUCCESS) [0 ..< n]
               then (cx_handles x (cx_nextInstance x), x)
               else (None, x)
          else (None, x)
     else let x = x\<lparr>cx_nextInstance := (cx_nextInstance x + 1) mod cx_numInstances x\<rparr>
          in (cx_handles x (cx_nextInstance x), x))"

text \<open>The handles of \<open>n\<close> instances; the search ends at the first \<open>NULL\<close>.\<close>

fun get_instances :: "qat_driver \<Rightarrow> nat \<Rightarrow> qat_context \<Rightarrow> ptr list option \<times> qat_context" where
  "get_instances d 0 x = (Some [], x)"
| "get_instances d (Suc n) x =
    (case get_qat_instance d x of
       (None, x1) \<Rightarrow> (None, x1)
     | (Some h, x1) \<Rightarrow>
        (case get_instances d n x1 of (hs, x2) \<Rightarrow> (map_option (\<lambda>hs. Some h # hs) hs, x2)))"

definition init_internal :: "reqbuf \<Rightarrow> reqbuf" where
  "init_internal b = b\<lparr>rb_count := 0, rb_next_free_slot := 0, rb_next_data_slot := 0,
    rb_data := (\<lambda>i. if i < HE_QAT_BUFFER_SIZE then None else rb_data b i)\<rparr>"

definition init_outstanding :: "outbuf \<Rightarrow> outbuf" where
  "init_outstanding ob = ob\<lparr>ob_busy_count := 0, ob_next_free_buffer := 0, ob_next_ready_buffer := 0,
    ob_free_buffer := (\<lambda>i. if i < HE_QAT_BUFFER_COUNT then 1 else ob_free_buffer ob i),
    ob_ready_buffer := (\<lambda>i. if i < HE_QAT_BUFFER_COUNT then 0 else ob_ready_buffer ob i),
    ob_buffer := (\<lambda>i. if i < HE_QAT_BUFFER_COUNT
      then (init_internal (ob_buffer ob i))\<lparr>rb_next_data_out := 0\<rparr> else ob_buffer ob i)\<rparr>"

definition init_config :: "ptr list \<Rightarrow> (nat \<Rightarrow> inst_config) \<Rightarrow> qat_config" where
  "init_config handles old = \<lparr>cf_inst_config = (\<lambda>i. if i < HE_QAT_NUM_ACTIVE_INSTANCES
      then (old i)\<lparr>ic_active := 0, ic_polling := 0, ic_running := 0, ic_status := CPA_STATUS_FAIL,
        ic_inst_handle := handles ! i, ic_inst_id := i\<rparr> else old i),
    cf_active = 0, cf_running = 0, cf_count = HE_QAT_NUM_ACTIVE_INSTANCES\<rparr>"

definition release_qat_devices :: "qat_context \<Rightarrow> (HE_QAT_STATUS \<times> qat_context) option" where
  "release_qat_devices x =
    (let c = cx_control x in
     if ct_context c = HE_QAT_STATUS_INACTIVE then Some (HE_QAT_STATUS_SUCCESS, x)
     else case stop_instances (ct_config c) of
       None \<Rightarrow> None
     | Some config \<Rightarrow> Some (HE_QAT_STATUS_SUCCESS,
         x\<lparr>cx_control := c\<lparr>ct_config := config, ct_context := HE_QAT_STATUS_INACTIVE\<rparr>,
           cx_service := False, cx_memory := False, cx_numInstances := 0, cx_nextInstance := 0\<rparr>))"

text \<open>
  The configurations of the instances are a static array, so the old ones are those of the last
  configuration, if there was one.
\<close>

definition old_instances :: "control \<Rightarrow> nat \<Rightarrow> inst_config" where
  "old_instances c = (case ct_config c of Some cf \<Rightarrow> cf_inst_config cf
     | None \<Rightarrow> (\<lambda>_. \<lparr>ic_inst_id = 0, ic_inst_handle = None, ic_active = 0, ic_polling = 0, ic_running = 0,
         ic_status = CPA_STATUS_SUCCESS\<rparr>))"

definition acquire_qat_devices :: "qat_driver \<Rightarrow> qat_context \<Rightarrow> (HE_QAT_STATUS \<times> qat_context) option" where
  "acquire_qat_devices d x =
    (if ct_context (cx_control x) = HE_QAT_STATUS_ACTIVE then Some (HE_QAT_STATUS_SUCCESS, x)
     else if qd_mem_init d \<noteq> CPA_STATUS_SUCCESS then Some (HE_QAT_STATUS_FAIL, x)
     else let x = x\<lparr>cx_memory := True\<rparr> in
     if qd_sal_start d \<noteq> CPA_STATUS_SUCCESS then Some (HE_QAT_STATUS_FAIL, x\<lparr>cx_memory := False\<rparr>)
     else let x = x\<lparr>cx_service := True\<rparr> in
     (case get_instances d HE_QAT_NUM_ACTIVE_INSTANCES x of
        (None, x) \<Rightarrow> Some (HE_QAT_STATUS_FAIL, x)
      | (Some handles, x) \<Rightarrow>
          let c = cx_control x; rt = ct_rt c;
              rt = rt\<lparr>rt_he_qat_buffer := init_internal (rt_he_qat_buffer rt),
                      rt_outstanding := init_outstanding (rt_outstanding rt)\<rparr>;
              c = c\<lparr>ct_rt := rt, ct_config := Some (init_config handles (old_instances c)),
                    ct_context := HE_QAT_STATUS_ACTIVE\<rparr>;
              x = x\<lparr>cx_control := c, cx_runners := cx_runners x + 1\<rparr>
          in if \<not> qd_create_manager d then map_option (\<lambda>(_, x). (HE_QAT_STATUS_FAIL, x)) (release_qat_devices x)
             else let x = x\<lparr>cx_managers := cx_managers x + 1\<rparr>
                  in if \<not> qd_detach_manager d
                     then map_option (\<lambda>(_, x). (HE_QAT_STATUS_FAIL, x)) (release_qat_devices x)
                     else Some (HE_QAT_STATUS_SUCCESS, x)))"

definition get_qat_context_state :: "qat_context \<Rightarrow> HE_QAT_STATUS" where
  "get_qat_context_state x = ct_context (cx_control x)"

section \<open>The library's context\<close>

datatype RuntimeValue = RV_DEFAULT | RV_CPU | RV_QAT | RV_HYBRID

datatype FeatureValue = FV_AVX512IFMA | FV_QAT4XXX

definition runtimeMap :: "string \<rightharpoonup> RuntimeValue" where
  "runtimeMap = map_of [(''DEFAULT'', RV_DEFAULT), (''default'', RV_DEFAULT), (''CPU'', RV_CPU), (''cpu'', RV_CPU),
    (''QAT'', RV_QAT), (''qat'', RV_QAT), (''HYBRID'', RV_HYBRID), (''hybrid'', RV_HYBRID)]"

definition hasFeatureMap :: "string \<rightharpoonup> FeatureValue" where
  "hasFeatureMap = map_of [(''avx512'', FV_AVX512IFMA), (''avx512ifma'', FV_AVX512IFMA),
    (''4xxx'', FV_QAT4XXX), (''qat_4xxx'', FV_QAT4XXX)]"

record ipcl_context =
  ix_hasQAT :: bool
  ix_isUsingQAT :: bool
  ix_qat :: qat_context

definition initializeQATContext :: "qat_driver \<Rightarrow> ipcl_context \<Rightarrow> (bool \<times> ipcl_context) option" where
  "initializeQATContext d x =
    (if ix_isUsingQAT x then Some (False, x)
     else map_option (\<lambda>(status, q). let x = x\<lparr>ix_qat := q\<rparr> in
         if status = HE_QAT_STATUS_SUCCESS then (True, x\<lparr>ix_isUsingQAT := True\<rparr>) else (False, x))
       (acquire_qat_devices d (ix_qat x)))"

text \<open>The first argument is whether the library is built with \<open>IPCL_USE_QAT\<close>.\<close>

definition initializeContext :: "bool \<Rightarrow> qat_driver \<Rightarrow> string \<Rightarrow> ipcl_context \<Rightarrow> (bool result \<times> ipcl_context) option" where
  "initializeContext qat d runtime_choice x =
    (if \<not> qat then Some (Inr True, x)
     else let x = x\<lparr>ix_hasQAT := True\<rparr> in
       (case runtimeMap runtime_choice of
          None \<Rightarrow> Some (Inl OutOfRange, x)
        | Some RV_QAT \<Rightarrow> map_option (\<lambda>(b, x). (Inr b, x)) (initializeQATContext d x)
        | Some _ \<Rightarrow> Some (Inr True, x)))"

definition terminateContext :: "bool \<Rightarrow> ipcl_context \<Rightarrow> (bool \<times> ipcl_context) option" where
  "terminateContext qat x =
    (if \<not> qat \<or> \<not> ix_isUsingQAT x then Some (True, x)
     else map_option (\<lambda>(status, q). let x = x\<lparr>ix_qat := q\<rparr> in
         if status = HE_QAT_STATUS_SUCCESS then (True, x\<lparr>ix_isUsingQAT := False\<rparr>) else (False, x))
       (release_qat_devices (ix_qat x)))"

definition isQATRunning :: "bool \<Rightarrow> ipcl_context \<Rightarrow> bool" where
  "isQATRunning qat x \<longleftrightarrow> qat \<and> get_qat_context_state (ix_qat x) = HE_QAT_STATUS_RUNNING"

definition isQATActive :: "bool \<Rightarrow> ipcl_context \<Rightarrow> bool" where
  "isQATActive qat x \<longleftrightarrow> qat \<and> get_qat_context_state (ix_qat x) = HE_QAT_STATUS_ACTIVE"

section \<open>Instances\<close>

text \<open>A driver that finds \<open>n\<close> instances and reports no error.\<close>

definition driver_ok :: "qat_driver \<Rightarrow> nat \<Rightarrow> bool" where
  "driver_ok d n \<longleftrightarrow> qd_mem_init d = CPA_STATUS_SUCCESS \<and> qd_sal_start d = CPA_STATUS_SUCCESS \<and>
    qd_num_instances d = (CPA_STATUS_SUCCESS, n) \<and> 0 < n \<and>
    (\<forall>m i. i < m \<and> m \<le> n \<longrightarrow> qd_get_instances d m i \<noteq> None \<and> qd_info d (qd_get_instances d m i) = CPA_STATUS_SUCCESS)"

lemma used_instances_min: "used_instances n = min n HE_QAT_NUM_ACTIVE_INSTANCES"
  by (auto simp: used_instances_def Let_def MAX_INSTANCES_def qat_consts)

lemma used_instances_pos [simp]: "0 < used_instances n \<longleftrightarrow> 0 < n"
  by (simp add: used_instances_min qat_consts)

lemma used_instances_le: "used_instances n \<le> n"
  by (simp add: used_instances_min)

lemma driver_handle:
  "driver_ok d n \<Longrightarrow> i < used_instances n \<Longrightarrow> qd_get_instances d (used_instances n) i \<noteq> None \<and>
    qd_info d (qd_get_instances d (used_instances n) i) = CPA_STATUS_SUCCESS"
  unfolding driver_ok_def using used_instances_le [of n] by blast

lemma first_instance:
  assumes "driver_ok d n" "cx_numInstances x = 0" "cx_nextInstance x = 0"
  shows "\<exists>x'. get_qat_instance d x = (qd_get_instances d (used_instances n) 0, x') \<and>
    cx_numInstances x' = used_instances n \<and> cx_nextInstance x' = 0 \<and>
    (\<forall>i < used_instances n. cx_handles x' i = qd_get_instances d (used_instances n) i) \<and>
    x' = x\<lparr>cx_numInstances := used_instances n, cx_handles := cx_handles x'\<rparr>"
proof -
  have n: "0 < used_instances n" using assms(1) by (simp add: driver_ok_def)
  have "list_all (\<lambda>i. qd_info d (qd_get_instances d (used_instances n) i) = CPA_STATUS_SUCCESS) [0 ..< used_instances n]"
    using driver_handle [OF assms(1)] by (simp add: list_all_iff)
  then have "list_all (\<lambda>i. (i < used_instances n \<longrightarrow>
        qd_info d (qd_get_instances d (used_instances n) i) = CPA_STATUS_SUCCESS) \<and>
      (\<not> i < used_instances n \<longrightarrow> qd_info d (cx_handles x i) = CPA_STATUS_SUCCESS)) [0 ..< used_instances n]"
    by (simp add: list_all_iff)
  then show ?thesis
    using assms n by (simp add: get_qat_instance_def driver_ok_def Let_def)
qed

lemma next_instances:
  assumes "cx_numInstances x = m" "0 < m" "cx_nextInstance x = j mod m" "\<forall>i < m. cx_handles x i \<noteq> None"
  shows "\<exists>hs. get_instances d k x = (Some hs, x\<lparr>cx_nextInstance := (j + k) mod m\<rparr>) \<and>
    hs = map (\<lambda>i. cx_handles x ((j + 1 + i) mod m)) [0 ..< k]"
  using assms
proof (induction k arbitrary: x j)
  case 0
  then show ?case by (simp flip: 0(3))
next
  case (Suc k)
  let ?x = "x\<lparr>cx_nextInstance := (j + 1) mod m\<rparr>"
  have g: "get_qat_instance d x = (cx_handles x ((j + 1) mod m), ?x)"
    using Suc.prems by (simp add: get_qat_instance_def mod_simps)
  obtain h where h: "cx_handles x ((j + 1) mod m) = Some h" using Suc.prems(2,4) by fastforce
  obtain hs where hs: "get_instances d k ?x = (Some hs, ?x\<lparr>cx_nextInstance := (j + 1 + k) mod m\<rparr>)"
    "hs = map (\<lambda>i. cx_handles ?x ((j + 1 + 1 + i) mod m)) [0 ..< k]"
    using Suc.IH [of ?x "j + 1"] Suc.prems by auto
  have u: "[0 ..< Suc k] = 0 # map Suc [0 ..< k]" by (simp add: map_Suc_upt upt_conv_Cons)
  show ?case unfolding u using g h hs by simp
qed

text \<open>The instances are handed out round-robin, starting with the first.\<close>

lemma get_instances_ok:
  assumes "driver_ok d n" "cx_numInstances x = 0" "cx_nextInstance x = 0"
  shows "\<exists>x'. get_instances d (Suc k) x =
      (Some (map (\<lambda>i. qd_get_instances d (used_instances n) (i mod used_instances n)) [0 ..< Suc k]), x') \<and>
    cx_control x' = cx_control x \<and> cx_runners x' = cx_runners x \<and> cx_managers x' = cx_managers x \<and>
    cx_memory x' = cx_memory x \<and> cx_service x' = cx_service x"
proof -
  let ?m = "used_instances n"
  obtain x1 where x1: "get_qat_instance d x = (qd_get_instances d ?m 0, x1)" "cx_numInstances x1 = ?m"
    "cx_nextInstance x1 = 0" "\<forall>i < ?m. cx_handles x1 i = qd_get_instances d ?m i"
    "x1 = x\<lparr>cx_numInstances := used_instances n, cx_handles := cx_handles x1\<rparr>"
    using first_instance [OF assms] by blast
  have m: "0 < ?m" using assms(1) by (simp add: driver_ok_def)
  have nn: "\<forall>i < ?m. qd_get_instances d ?m i \<noteq> None"
    using driver_handle [OF assms(1)] by simp
  then obtain h where h: "qd_get_instances d ?m 0 = Some h" using m by blast
  obtain hs where hs: "get_instances d k x1 = (Some hs, x1\<lparr>cx_nextInstance := (0 + k) mod ?m\<rparr>)"
    "hs = map (\<lambda>i. cx_handles x1 ((0 + 1 + i) mod ?m)) [0 ..< k]"
    using next_instances [of x1 ?m 0 d k] x1(2,3,4) m nn by auto
  have eq: "cx_handles x1 (Suc i mod ?m) = qd_get_instances d ?m (Suc i mod ?m)" for i
    using x1(4) m by simp
  have u: "[0 ..< Suc k] = 0 # map Suc [0 ..< k]" by (simp add: map_Suc_upt upt_conv_Cons)
  have fr: "cx_control x1 = cx_control x" "cx_runners x1 = cx_runners x" "cx_managers x1 = cx_managers x"
    "cx_memory x1 = cx_memory x" "cx_service x1 = cx_service x"
    by (subst x1(5), simp)+
  show ?thesis unfolding u using x1(1) h hs by (simp add: eq fr)
qed

section \<open>Acquiring and releasing\<close>

lemma init_internal_ok: "rb_inv (init_internal b) \<and> rb_elems (init_internal b) = []"
  by (simp add: init_internal_def rb_inv_def qat_consts)

lemma init_outstanding_ok:
  "out_inv (init_outstanding ob) \<and> taken (init_outstanding ob) = {} \<and>
    (\<forall>i < HE_QAT_BUFFER_COUNT. rb_elems (ob_buffer (init_outstanding ob) i) = [])"
proof -
  have t: "taken (init_outstanding ob) = {}" by (auto simp: taken_def init_outstanding_def)
  have "rb_inv ((init_internal b)\<lparr>rb_next_data_out := 0\<rparr>) \<and> rb_count ((init_internal b)\<lparr>rb_next_data_out := 0\<rparr>) = 0" for b
    by (simp add: init_internal_def rb_inv_def qat_consts)
  then show ?thesis
    unfolding out_inv_def t by (simp add: init_outstanding_def) (simp add: qat_consts)
qed

definition devices_ready :: "qat_context \<Rightarrow> bool" where
  "devices_ready x \<longleftrightarrow> (let c = cx_control x in
    out_inv (rt_outstanding (ct_rt c)) \<and> taken (rt_outstanding (ct_rt c)) = {} \<and>
    rb_inv (rt_he_qat_buffer (ct_rt c)) \<and> rb_elems (rt_he_qat_buffer (ct_rt c)) = [] \<and>
    (\<exists>cf. ct_config c = Some cf \<and> cf_count cf = HE_QAT_NUM_ACTIVE_INSTANCES \<and> cf_running cf = 0 \<and>
      (\<forall>i < cf_count cf. ic_active (cf_inst_config cf i) = 0 \<and> ic_inst_handle (cf_inst_config cf i) \<noteq> None)))"

lemma acquire_devices:
  assumes "driver_ok d n" "qd_create_manager d" "qd_detach_manager d"
    and "ct_context (cx_control x) \<noteq> HE_QAT_STATUS_ACTIVE" "cx_numInstances x = 0" "cx_nextInstance x = 0"
  shows "\<exists>x'. acquire_qat_devices d x = Some (HE_QAT_STATUS_SUCCESS, x') \<and>
    get_qat_context_state x' = HE_QAT_STATUS_ACTIVE \<and> devices_ready x' \<and>
    ct_halted (cx_control x') = ct_halted (cx_control x) \<and>
    cx_runners x' = cx_runners x + 1 \<and> cx_managers x' = cx_managers x + 1 \<and>
    (\<exists>cf. ct_config (cx_control x') = Some cf \<and> (\<forall>i < HE_QAT_NUM_ACTIVE_INSTANCES.
      ic_inst_handle (cf_inst_config cf i) = qd_get_instances d (used_instances n) (i mod used_instances n)))"
proof -
  let ?x = "x\<lparr>cx_memory := True, cx_service := True\<rparr>" and ?m = "used_instances n"
  have e: "HE_QAT_NUM_ACTIVE_INSTANCES = Suc 7" by (simp add: qat_consts)
  define hs where "hs = map (\<lambda>i. qd_get_instances d ?m (i mod ?m)) [0 ..< HE_QAT_NUM_ACTIVE_INSTANCES]"
  obtain x1 where x1: "get_instances d HE_QAT_NUM_ACTIVE_INSTANCES ?x = (Some hs, x1)"
    "cx_control x1 = cx_control x" "cx_runners x1 = cx_runners x" "cx_managers x1 = cx_managers x"
    using get_instances_ok [OF assms(1), of ?x 7] assms(5,6) unfolding hs_def e by auto
  have m: "0 < ?m" using assms(1) by (simp add: driver_ok_def)
  have nn: "hs ! i = qd_get_instances d ?m (i mod ?m)" "hs ! i \<noteq> None" if "i < HE_QAT_NUM_ACTIVE_INSTANCES" for i
  proof -
    show h: "hs ! i = qd_get_instances d ?m (i mod ?m)" using that by (simp add: hs_def)
    show "hs ! i \<noteq> None" unfolding h using driver_handle [OF assms(1), of "i mod ?m"] m by simp
  qed
  have s: "qd_mem_init d = CPA_STATUS_SUCCESS" "qd_sal_start d = CPA_STATUS_SUCCESS"
    using assms(1) by (simp_all add: driver_ok_def)
  show ?thesis
    using assms(2-4) s x1 nn init_internal_ok init_outstanding_ok
    by (simp add: acquire_qat_devices_def Let_def get_qat_context_state_def devices_ready_def init_config_def)
qed

lemma acquire_active:
  "get_qat_context_state x = HE_QAT_STATUS_ACTIVE \<Longrightarrow> acquire_qat_devices d x = Some (HE_QAT_STATUS_SUCCESS, x)"
  by (simp add: acquire_qat_devices_def get_qat_context_state_def)

lemma release_devices:
  assumes "release_qat_devices x = Some (status, x')"
  shows "status = HE_QAT_STATUS_SUCCESS \<and> get_qat_context_state x' = HE_QAT_STATUS_INACTIVE \<and>
    (get_qat_context_state x \<noteq> HE_QAT_STATUS_INACTIVE \<longrightarrow>
      cx_numInstances x' = 0 \<and> cx_nextInstance x' = 0 \<and> \<not> cx_memory x' \<and> \<not> cx_service x')"
  using assms by (auto simp: release_qat_devices_def get_qat_context_state_def Let_def split: if_splits option.splits)

lemma initializeContext_choices:
  "initializeContext False d choice x = Some (Inr True, x)"
  "choice \<in> {''CPU'', ''cpu'', ''HYBRID'', ''hybrid'', ''DEFAULT'', ''default''} \<Longrightarrow>
    initializeContext True d choice x = Some (Inr True, x\<lparr>ix_hasQAT := True\<rparr>)"
  "choice \<in> {''QAT'', ''qat''} \<Longrightarrow> initializeContext True d choice x =
    map_option (\<lambda>(b, x). (Inr b, x)) (initializeQATContext d (x\<lparr>ix_hasQAT := True\<rparr>))"
  by (auto simp: initializeContext_def runtimeMap_def Let_def)

lemma initializeContext_unknown:
  "choice \<notin> {''CPU'', ''cpu'', ''HYBRID'', ''hybrid'', ''DEFAULT'', ''default'', ''QAT'', ''qat''} \<Longrightarrow>
    initializeContext True d choice x = Some (Inl OutOfRange, x\<lparr>ix_hasQAT := True\<rparr>)"
  by (auto simp: initializeContext_def runtimeMap_def Let_def)

text \<open>Between the two, the threads may change the accelerator's context in any way.\<close>

lemma initialize_terminate:
  assumes "initializeContext True d ''QAT'' x = Some (Inr True, x1)"
  shows "ix_isUsingQAT x1" "initializeContext True d' ''QAT'' x1 = Some (Inr False, x1\<lparr>ix_hasQAT := True\<rparr>)"
    and "terminateContext True (x1\<lparr>ix_qat := q\<rparr>) = Some (b, x2) \<Longrightarrow>
      b \<and> \<not> ix_isUsingQAT x2 \<and> \<not> isQATActive True x2 \<and> \<not> isQATRunning True x2"
proof -
  show u: "ix_isUsingQAT x1"
    using assms unfolding initializeContext_choices(3) [of "''QAT''", simplified]
    by (auto simp: initializeQATContext_def Let_def split: if_splits)
  show "initializeContext True d' ''QAT'' x1 = Some (Inr False, x1\<lparr>ix_hasQAT := True\<rparr>)"
    unfolding initializeContext_choices(3) [of "''QAT''", simplified] using u by (simp add: initializeQATContext_def)
  assume t: "terminateContext True (x1\<lparr>ix_qat := q\<rparr>) = Some (b, x2)"
  then obtain st q' where r: "release_qat_devices q = Some (st, q')"
    "(b, x2) = (let x = x1\<lparr>ix_qat := q'\<rparr> in if st = HE_QAT_STATUS_SUCCESS then (True, x\<lparr>ix_isUsingQAT := False\<rparr>) else (False, x))"
    using u by (auto simp: terminateContext_def)
  show "b \<and> \<not> ix_isUsingQAT x2 \<and> \<not> isQATActive True x2 \<and> \<not> isQATRunning True x2"
    using release_devices [OF r(1)] r(2) by (auto simp: isQATActive_def isQATRunning_def)
qed

end
