(* ===== verification/QatSystem.thy ===== *)
theory QatSystem
  imports QatContext "HOL-Library.Multiset"
begin

text \<open>
  The accelerator's runtime as a whole: the clients, the scheduler's thread, the processing thread
  and the accelerator's callbacks, interleaved. An action is a critical section of the code of one
  of them; \<open>exec\<close> runs it on the state, \<open>None\<close> while its condition does not hold. The state has,
  beside the code's, the loop variables that live across critical sections, and what the clients
  know of their requests: the addresses in each batch and the operands.
\<close>

section \<open>The accelerator\<close>

text \<open>The accelerator computes a result from the bytes of the base, the exponent and the modulus.\<close>

type_synonym device = "u8 list \<Rightarrow> u8 list \<Rightarrow> u8 list \<Rightarrow> u8 list"

definition device_ok :: "device \<Rightarrow> bool" where
  "device_ok dev \<longleftrightarrow> (\<forall>bs es ms. length (dev bs es ms) = length ms)"

definition flat_bytes :: "flat_buffer \<Rightarrow> u8 list qprog" where
  "flat_bytes fb = mem_read (fb_pData fb) (fb_dataLenInBytes fb)"

text \<open>It reads the operands of the request, and writes the result to the place it was given.\<close>

definition device_result :: "device \<Rightarrow> nat \<Rightarrow> ptr \<Rightarrow> unit qprog" where
  "device_result dev a op =
    bindQ (get_task a) (\<lambda>t s.
      case Option.bind op (rt_ops s) of
        None \<Rightarrow> undefQ ''freed operation data'' s
      | Some d \<Rightarrow>
          bindQ (flat_bytes (od_base d)) (\<lambda>bs. bindQ (flat_bytes (od_exponent d)) (\<lambda>es.
          bindQ (flat_bytes (od_modulus d)) (\<lambda>ms. mem_write (fb_pData (tk_op_result t)) (dev bs es ms)))) s)"

definition respond :: "device \<Rightarrow> CpaStatus \<Rightarrow> nat \<Rightarrow> control \<Rightarrow> control result option" where
  "respond dev status k c =
    (case ct_device c ! k of (a, op, _) \<Rightarrow>
       (case bindQ (if status = CPA_STATUS_SUCCESS then device_result dev a op else retQ ())
              (\<lambda>_. HE_QAT_bnModExpCallback (Some a) status op) (ct_rt c) of
          None \<Rightarrow> None
        | Some (Inl e, _) \<Rightarrow> Some (Inl e)
        | Some (Inr _, rt) \<Rightarrow>
            Some (Inr (c\<lparr>ct_device := take k (ct_device c) @ drop (Suc k) (ct_device c), ct_rt := rt\<rparr>))))"

section \<open>The state and the actions\<close>

text \<open>
  \<open>sy_index\<close> is the loop variable of the processing thread, \<open>sy_done\<close> that of the release of each
  buffer; \<open>sy_batch\<close> holds the requests submitted since the buffer was acquired, \<open>sy_args\<close> the
  operands and the place for the output of each request.
\<close>

record sys =
  sy_control :: control
  sy_index :: nat
  sy_batch :: "nat \<Rightarrow> nat list"
  sy_done :: "nat \<Rightarrow> nat"
  sy_args :: "nat \<Rightarrow> u8 list \<times> u8 list \<times> u8 list \<times> nat"

datatype action = Acquire nat | Submit nat ptr ptr ptr ptr nat | Collect nat | Finish nat
  | Pull | Forward | Read | Offload CpaStatus | Respond nat CpaStatus

abbreviation sy_rt :: "sys \<Rightarrow> runtime" where
  "sy_rt s \<equiv> ct_rt (sy_control s)"

abbreviation sy_out :: "sys \<Rightarrow> outbuf" where
  "sy_out s \<equiv> rt_outstanding (ct_rt (sy_control s))"

definition with_rt :: "runtime \<Rightarrow> sys \<Rightarrow> sys" where
  "with_rt rt s = s\<lparr>sy_control := (sy_control s)\<lparr>ct_rt := rt\<rparr>\<rparr>"

definition bytes_at :: "runtime \<Rightarrow> ptr \<Rightarrow> nat \<Rightarrow> u8 list" where
  "bytes_at rt p len = take len (case Option.bind p (rt_mem rt) of Some bs \<Rightarrow> bs | None \<Rightarrow> [])"

definition exec_acquire :: "nat \<Rightarrow> sys \<Rightarrow> sys result option" where
  "exec_acquire x s =
    map_option (\<lambda>(_, ob). Inr (with_rt ((sy_rt s)\<lparr>rt_outstanding := ob\<rparr>) s)) (acquire_bnModExp_buffer (Some x) (sy_out s))"

text \<open>A client whose call fails prints a message and goes on (\<open>heQatBnModExp_MT\<close> in \<open>ipcl/mod_exp.cpp\<close>).\<close>

definition exec_submit :: "qat_env \<Rightarrow> nat \<Rightarrow> ptr \<Rightarrow> ptr \<Rightarrow> ptr \<Rightarrow> ptr \<Rightarrow> nat \<Rightarrow> sys \<Rightarrow> sys result option" where
  "exec_submit E i r b e m nbits s =
    (case HE_QAT_bnModExp_MT E i r b e m nbits (sy_rt s) of
       None \<Rightarrow> None
     | Some (Inl err, _) \<Rightarrow> Some (Inl err)
     | Some (Inr status, rt) \<Rightarrow>
         if status \<noteq> HE_QAT_STATUS_SUCCESS then Some (Inr (with_rt rt s))
         else let a = rt_allocs (sy_rt s) + 3; len = (nbits + 7) div 2 ^ 3; old = sy_rt s
              in Some (Inr ((with_rt rt s)\<lparr>sy_batch := (sy_batch s)(i := sy_batch s i @ [a]),
                   sy_args := (sy_args s)(a := (bytes_at old b len, bytes_at old e len, bytes_at old m len, the r))\<rparr>)))"

text \<open>The two parts of \<open>release_bnModExp_buffer\<close>: one iteration of its loop, and its end.\<close>

definition out_slot :: "nat \<Rightarrow> nat \<Rightarrow> sys \<Rightarrow> nat" where
  "out_slot i j s = (rb_next_data_out (ob_buffer (sy_out s) i) + j) mod HE_QAT_BUFFER_SIZE"

definition exec_collect :: "nat \<Rightarrow> sys \<Rightarrow> sys result option" where
  "exec_collect i s =
    (if sy_done s i \<ge> length (sy_batch s i) then None
     else case release_one i (out_slot i (sy_done s i) s) (sy_rt s) of
       None \<Rightarrow> None
     | Some (Inl e, _) \<Rightarrow> Some (Inl e)
     | Some (Inr _, rt) \<Rightarrow> Some (Inr ((with_rt rt s)\<lparr>sy_done := (sy_done s)(i := Suc (sy_done s i))\<rparr>)))"

definition exec_finish :: "nat \<Rightarrow> sys \<Rightarrow> sys result option" where
  "exec_finish i s =
    (if sy_done s i < length (sy_batch s i) then None
     else Some (Inr ((with_rt ((sy_rt s)\<lparr>rt_outstanding := release_buffer i
            (on_buffer i (\<lambda>b. b\<lparr>rb_next_data_out := out_slot i (sy_done s i) s\<rparr>) (sy_out s))\<rparr>) s)
          \<lparr>sy_batch := (sy_batch s)(i := []), sy_done := (sy_done s)(i := 0)\<rparr>)))"

text \<open>The scheduler's loop: a pull follows when the list pulled before has been forwarded.\<close>

definition exec_pull :: "sys \<Rightarrow> sys result option" where
  "exec_pull s =
    (if ct_context (sy_control s) = HE_QAT_STATUS_INACTIVE \<or> tl_count (ct_scheduler (sy_control s)) \<noteq> 0 then None
     else map_option (\<lambda>c. Inr (s\<lparr>sy_control := c\<rparr>)) (schedule_pull (sy_control s)))"

definition exec_forward :: "sys \<Rightarrow> sys result option" where
  "exec_forward s =
    (if tl_count (ct_scheduler (sy_control s)) = 0 then None
     else map_option (\<lambda>c. Inr (s\<lparr>sy_control := c\<rparr>)) (schedule_submit (sy_control s)))"

text \<open>The processing thread's loop.\<close>

definition exec_read :: "sys \<Rightarrow> sys result option" where
  "exec_read s =
    (let c = sy_control s in
     if ct_halted c \<or> tl_count (ct_runner c) \<noteq> 0 then None
     else case ct_config c of
       None \<Rightarrow> Some (Inl (Undefined ''configuration''))
     | Some cf \<Rightarrow>
         if cf_running cf = 0 then Some (Inr (s\<lparr>sy_control := c\<lparr>ct_halted := True\<rparr>\<rparr>))
         else map_option (\<lambda>c. Inr (s\<lparr>sy_control := c, sy_index := 0\<rparr>)) (process_read c))"

text \<open>The end of an iteration of the loop, for a thread that has not been halted.\<close>

definition next_request :: "sys \<Rightarrow> control \<Rightarrow> sys" where
  "next_request s c' =
    (if Suc (sy_index s) = tl_count (ct_runner c')
     then s\<lparr>sy_control := c'\<lparr>ct_runner := (ct_runner c')\<lparr>tl_count := 0\<rparr>\<rparr>, sy_index := 0\<rparr>
     else s\<lparr>sy_control := c', sy_index := Suc (sy_index s)\<rparr>)"

definition exec_offload :: "CpaStatus \<Rightarrow> sys \<Rightarrow> sys result option" where
  "exec_offload status s =
    (let c = sy_control s; i = sy_index s in
     if ct_halted c \<or> i \<ge> tl_count (ct_runner c) then None
     else Some (bindR (offload status i c) (\<lambda>c'.
       Inr (if ct_halted c' then s\<lparr>sy_control := c'\<rparr> else next_request s c'))))"

definition exec_respond :: "device \<Rightarrow> nat \<Rightarrow> CpaStatus \<Rightarrow> sys \<Rightarrow> sys result option" where
  "exec_respond dev k status s =
    (if k \<ge> length (ct_device (sy_control s)) then None
     else map_option (\<lambda>r. bindR r (\<lambda>c. Inr (s\<lparr>sy_control := c\<rparr>))) (respond dev status k (sy_control s)))"

fun exec :: "device \<Rightarrow> qat_env \<Rightarrow> action \<Rightarrow> sys \<Rightarrow> sys result option" where
  "exec dev E (Acquire x) s = exec_acquire x s"
| "exec dev E (Submit i r b e m nbits) s = exec_submit E i r b e m nbits s"
| "exec dev E (Collect i) s = exec_collect i s"
| "exec dev E (Finish i) s = exec_finish i s"
| "exec dev E Pull s = exec_pull s"
| "exec dev E Forward s = exec_forward s"
| "exec dev E Read s = exec_read s"
| "exec dev E (Offload status) s = exec_offload status s"
| "exec dev E (Respond k status) s = exec_respond dev k status s"

section \<open>What the clients may do\<close>

text \<open>A request of a client that it has not collected.\<close>

definition entry :: "sys \<Rightarrow> nat \<Rightarrow> nat \<Rightarrow> bool" where
  "entry s b j \<longleftrightarrow> b < HE_QAT_BUFFER_COUNT \<and> sy_done s b \<le> j \<and> j < length (sy_batch s b)"

definition output_of :: "sys \<Rightarrow> nat \<Rightarrow> nat" where
  "output_of s a = (case sy_args s a of (_, _, _, q) \<Rightarrow> q)"

text \<open>
  The memory below \<open>n0\<close> belongs to the clients. A client submits at most as many requests as a
  buffer has slots, to a buffer it holds, before it releases the buffer; it passes memory that is
  large enough, and its own place for every output. The allocations of the library succeed: after a
  failed one the client would wait for ever for a request that was not queued.
\<close>

fun allowed :: "qat_env \<Rightarrow> nat \<Rightarrow> action \<Rightarrow> sys \<Rightarrow> bool" where
  "allowed E n0 (Submit i r b e m nbits) s \<longleftrightarrow> (let len = (nbits + 7) div 2 ^ 3; rt = sy_rt s in
    i \<in> taken (sy_out s) \<and> sy_done s i = 0 \<and> length (sy_batch s i) < HE_QAT_BUFFER_SIZE \<and> allocs_ok E rt 6 \<and>
    operand rt b len (bytes_at rt b len) \<and> operand rt e len (bytes_at rt e len) \<and> operand rt m len (bytes_at rt m len) \<and>
    (\<exists>q old. r = Some q \<and> q < n0 \<and> rt_mem rt q = Some old \<and> len \<le> length old \<and>
      (\<forall>b j. entry s b j \<longrightarrow> output_of s (sy_batch s b ! j) \<noteq> q)))"
| "allowed E n0 (Collect i) s \<longleftrightarrow> i \<in> taken (sy_out s)"
| "allowed E n0 (Finish i) s \<longleftrightarrow> i \<in> taken (sy_out s)"
| "allowed E n0 act s \<longleftrightarrow> True"


section \<open>Runs\<close>

text \<open>
  The state after the devices were acquired and the threads have started: everything is empty and
  as many answers have come as requests were sent.
\<close>

definition sys_init :: "nat \<Rightarrow> sys \<Rightarrow> bool" where
  "sys_init n0 s \<longleftrightarrow> (let c = sy_control s; rt = ct_rt c in
    n0 \<le> rt_allocs rt \<and> out_inv (rt_outstanding rt) \<and> taken (rt_outstanding rt) = {} \<and>
    (\<forall>b < HE_QAT_BUFFER_COUNT. rb_count (ob_buffer (rt_outstanding rt) b) = 0 \<and>
      rb_next_data_out (ob_buffer (rt_outstanding rt) b) = rb_next_free_slot (ob_buffer (rt_outstanding rt) b)) \<and>
    rb_inv (rt_he_qat_buffer rt) \<and> rb_count (rt_he_qat_buffer rt) = 0 \<and>
    tl_count (ct_scheduler c) = 0 \<and> tl_count (ct_runner c) = 0 \<and> sy_index s = 0 \<and> ct_device c = [] \<and>
    rt_request_count rt = rt_response_count rt \<and> rt_response_count rt < 2 ^ 64 \<and> ct_config c \<noteq> None \<and>
    sy_batch s = (\<lambda>_. []) \<and> sy_done s = (\<lambda>_. 0))"

inductive reach :: "device \<Rightarrow> qat_env \<Rightarrow> nat \<Rightarrow> sys \<Rightarrow> bool" for dev E n0 where
  start: "sys_init n0 s \<Longrightarrow> reach dev E n0 s"
| act: "reach dev E n0 s \<Longrightarrow> allowed E n0 a s \<Longrightarrow> exec dev E a s = Some (Inr s') \<Longrightarrow> reach dev E n0 s'"

text \<open>A given sequence of actions.\<close>

fun run :: "device \<Rightarrow> qat_env \<Rightarrow> action list \<Rightarrow> sys \<Rightarrow> sys result option" where
  "run dev E [] s = Some (Inr s)"
| "run dev E (a # as) s =
    (case exec dev E a s of None \<Rightarrow> None | Some (Inl e) \<Rightarrow> Some (Inl e) | Some (Inr s') \<Rightarrow> run dev E as s')"

end
