(* ===== verification/QatInvariant.thy ===== *)
theory QatInvariant
  imports QatSystem
begin

text \<open>
  What every reachable state of the accelerator's runtime satisfies, whatever the interleaving of
  clients, threads and callbacks and whatever the accelerator answers: the buffers and counters are
  consistent, the slots of a client's buffer hold its requests until they are collected, requests
  own their memory exclusively, and every request that waits for an answer is in exactly one place.
  Each action keeps the invariant and never meets behaviour that C leaves undefined.
\<close>

section \<open>The invariant\<close>

subsection \<open>Its parts\<close>

text \<open>Buffers and counters.\<close>

definition buffers_ok :: "sys \<Rightarrow> bool" where
  "buffers_ok s \<longleftrightarrow> (let c = sy_control s in
    out_inv (sy_out s) \<and> rb_inv (rt_he_qat_buffer (ct_rt c)) \<and> tl_count (ct_scheduler c) \<le> HE_QAT_BUFFER_SIZE \<and>
    sy_index s \<le> tl_count (ct_runner c) \<and> (tl_count (ct_runner c) = sy_index s \<longrightarrow> tl_count (ct_runner c) = 0) \<and>
    in_flight_ok c (tl_count (ct_runner c) - sy_index s))"

text \<open>The slots of a client's buffer hold its requests until they are collected.\<close>

definition slots_ok :: "sys \<Rightarrow> bool" where
  "slots_ok s \<longleftrightarrow> (\<forall>b < HE_QAT_BUFFER_COUNT.
    rb_next_data_out (ob_buffer (sy_out s) b) < HE_QAT_BUFFER_SIZE \<and>
    sy_done s b \<le> length (sy_batch s b) \<and> length (sy_batch s b) \<le> HE_QAT_BUFFER_SIZE \<and>
    rb_next_free_slot (ob_buffer (sy_out s) b) = out_slot b (length (sy_batch s b)) s \<and>
    (b \<notin> taken (sy_out s) \<longrightarrow> sy_batch s b = [] \<and> sy_done s b = 0)) \<and>
   (\<forall>b j. entry s b j \<longrightarrow> rb_data (ob_buffer (sy_out s) b) (out_slot b j s) = Some (sy_batch s b ! j)) \<and>
   (\<forall>b p. b < HE_QAT_BUFFER_COUNT \<and> p \<in> set (rb_elems (ob_buffer (sy_out s) b)) \<longrightarrow>
      (\<exists>j. entry s b j \<and> p = Some (sy_batch s b ! j)))"

text \<open>The memory of a request, as the call built it, and what was done to it since.\<close>

definition request_ok :: "device \<Rightarrow> nat \<Rightarrow> runtime \<Rightarrow> u8 list \<times> u8 list \<times> u8 list \<times> nat \<Rightarrow> nat \<Rightarrow> bool" where
  "request_ok dev n0 rt args a \<longleftrightarrow> (case args of (bs, es, ms, q) \<Rightarrow>
    \<exists>k ident st rs old res. a = k + 3 \<and> n0 \<le> k \<and> k + 6 \<le> rt_allocs rt \<and> q < n0 \<and>
      length bs = length ms \<and> length es = length ms \<and>
      rt_tasks rt a = Some ((queued_task k (length ms) (Some q) ident)\<lparr>tk_op_status := st, tk_request_status := rs\<rparr>) \<and>
      rt_ops rt (k + 4) = Some (queued_op k (length ms)) \<and>
      rt_mem rt k = Some bs \<and> rt_mem rt (k + 1) = Some es \<and> rt_mem rt (k + 2) = Some ms \<and>
      rt_mem rt (k + 5) = Some res \<and> length res = length ms \<and>
      rt_mem rt q = Some old \<and> length ms \<le> length old \<and>
      (rs = HE_QAT_STATUS_READY \<longrightarrow> take (length ms) old = dev bs es ms))"

definition requests_ok :: "device \<Rightarrow> nat \<Rightarrow> sys \<Rightarrow> bool" where
  "requests_ok dev n0 s \<longleftrightarrow> (\<forall>b j. entry s b j \<longrightarrow>
    request_ok dev n0 (sy_rt s) (sy_args s (sy_batch s b ! j)) (sy_batch s b ! j))"

text \<open>Requests do not share memory.\<close>

definition apart :: "sys \<Rightarrow> bool" where
  "apart s \<longleftrightarrow> (\<forall>b j b' j'. entry s b j \<and> entry s b' j' \<and> (b, j) \<noteq> (b', j') \<longrightarrow>
    (let a = sy_batch s b ! j; a' = sy_batch s b' ! j' in
      (a + 6 \<le> a' \<or> a' + 6 \<le> a) \<and> output_of s a \<noteq> output_of s a'))"

text \<open>Every request that waits for an answer is in exactly one place, once, and nothing else is.\<close>

definition live :: "sys \<Rightarrow> nat set" where
  "live s = {sy_batch s b ! j | b j. entry s b j}"

definition waits :: "runtime \<Rightarrow> nat \<Rightarrow> bool" where
  "waits rt a \<longleftrightarrow> (case rt_tasks rt a of None \<Rightarrow> False
    | Some t \<Rightarrow> tk_op_status t = CPA_STATUS_SUCCESS \<and> tk_request_status t = HE_QAT_STATUS_SUCCESS)"

definition remaining :: "sys \<Rightarrow> ptr list" where
  "remaining s = drop (sy_index s) (tl_elems (ct_runner (sy_control s)))"

definition client_elems :: "outbuf \<Rightarrow> ptr multiset" where
  "client_elems ob = (\<Sum>b < HE_QAT_BUFFER_COUNT. mset (rb_elems (ob_buffer ob b)))"

definition places :: "sys \<Rightarrow> ptr multiset" where
  "places s = client_elems (sy_out s) +
    mset (tl_elems (ct_scheduler (sy_control s))) + mset (rb_elems (rt_he_qat_buffer (sy_rt s))) +
    mset (remaining s) + mset (map (\<lambda>(a, _, _). Some a) (ct_device (sy_control s)))"

definition conserved :: "sys \<Rightarrow> bool" where
  "conserved s \<longleftrightarrow> (\<forall>p. count (places s) p =
      (case p of None \<Rightarrow> 0 | Some a \<Rightarrow> if a \<in> live s \<and> waits (sy_rt s) a then 1 else 0)) \<and>
    (\<forall>(a, op, i) \<in> set (ct_device (sy_control s)). op = Some (Suc a))"

definition sys_inv :: "device \<Rightarrow> nat \<Rightarrow> sys \<Rightarrow> bool" where
  "sys_inv dev n0 s \<longleftrightarrow> n0 \<le> rt_allocs (sy_rt s) \<and> buffers_ok s \<and> slots_ok s \<and> requests_ok dev n0 s \<and> apart s \<and> conserved s"

subsection \<open>Facts that the actions share\<close>

lemma with_rt_sel [simp]:
  "sy_rt (with_rt rt s) = rt" "sy_index (with_rt rt s) = sy_index s" "sy_batch (with_rt rt s) = sy_batch s"
  "sy_done (with_rt rt s) = sy_done s" "sy_args (with_rt rt s) = sy_args s"
  "sy_control (with_rt rt s) = (sy_control s)\<lparr>ct_rt := rt\<rparr>"
  by (simp_all add: with_rt_def)

lemma waiting_place:
  assumes "conserved s" "p \<in># places s"
  shows "\<exists>b j. entry s b j \<and> p = Some (sy_batch s b ! j) \<and> waits (sy_rt s) (sy_batch s b ! j)"
proof -
  have "count (places s) p = (case p of None \<Rightarrow> 0 | Some a \<Rightarrow> if a \<in> live s \<and> waits (sy_rt s) a then 1 else 0)"
    using assms(1) unfolding conserved_def by blast
  moreover have "count (places s) p \<noteq> 0" using assms(2) by simp
  ultimately obtain a where "p = Some a" "a \<in> live s" "waits (sy_rt s) a" by (cases p) (auto split: if_splits)
  then show ?thesis unfolding live_def by blast
qed

lemma in_places:
  "b < HE_QAT_BUFFER_COUNT \<Longrightarrow> p \<in> set (rb_elems (ob_buffer (sy_out s) b)) \<Longrightarrow> p \<in># places s"
  "p \<in> set (tl_elems (ct_scheduler (sy_control s))) \<Longrightarrow> p \<in># places s"
  "p \<in> set (rb_elems (rt_he_qat_buffer (sy_rt s))) \<Longrightarrow> p \<in># places s"
  "p \<in> set (remaining s) \<Longrightarrow> p \<in># places s"
  "(a, op, i) \<in> set (ct_device (sy_control s)) \<Longrightarrow> Some a \<in># places s"
  by (force simp: places_def client_elems_def set_mset_sum)+

text \<open>An action that moves requests from place to place and does nothing else.\<close>

definition same_clients :: "sys \<Rightarrow> sys \<Rightarrow> bool" where
  "same_clients s s' \<longleftrightarrow> sy_batch s' = sy_batch s \<and> sy_done s' = sy_done s \<and> sy_args s' = sy_args s"

lemma same_clientsD:
  assumes "same_clients s s'"
  shows "entry s' = entry s" "live s' = live s" "output_of s' = output_of s" "apart s' = apart s"
    "sy_batch s' = sy_batch s" "sy_done s' = sy_done s" "sy_args s' = sy_args s"
  using assms by (simp_all add: same_clients_def entry_def live_def output_of_def apart_def fun_eq_iff)

lemma request_ok_frame:
  assumes "request_ok dev n0 rt args a" "rt_allocs rt \<le> rt_allocs rt'"
    and "\<And>y. y < a + 3 \<Longrightarrow> a \<le> y + 3 \<or> y = (case args of (_, _, _, q) \<Rightarrow> q) \<Longrightarrow> rt_mem rt' y = rt_mem rt y"
    and "rt_tasks rt' a = rt_tasks rt a" "rt_ops rt' (Suc a) = rt_ops rt (Suc a)"
  shows "request_ok dev n0 rt' args a"
proof -
  obtain bs es ms q where args: "args = (bs, es, ms, q)" by (cases args)
  obtain k ident st rs old res where r: "a = k + 3" "n0 \<le> k" "k + 6 \<le> rt_allocs rt" "q < n0"
      "length bs = length ms" "length es = length ms"
      "rt_tasks rt a = Some ((queued_task k (length ms) (Some q) ident)\<lparr>tk_op_status := st, tk_request_status := rs\<rparr>)"
      "rt_ops rt (k + 4) = Some (queued_op k (length ms))"
      "rt_mem rt k = Some bs" "rt_mem rt (k + 1) = Some es" "rt_mem rt (k + 2) = Some ms"
      "rt_mem rt (k + 5) = Some res" "length res = length ms"
      "rt_mem rt q = Some old" "length ms \<le> length old" "rs = HE_QAT_STATUS_READY \<longrightarrow> take (length ms) old = dev bs es ms"
    using assms(1) unfolding request_ok_def args by auto
  have m: "rt_mem rt' k = rt_mem rt k" "rt_mem rt' (k + 1) = rt_mem rt (k + 1)" "rt_mem rt' (k + 2) = rt_mem rt (k + 2)"
    "rt_mem rt' (k + 5) = rt_mem rt (k + 5)" "rt_mem rt' q = rt_mem rt q"
    by (rule assms(3); simp add: r(1) args; use r(2,4) in linarith)+
  have "Suc a = k + 4" using r(1) by simp
  then have o: "rt_ops rt' (k + 4) = Some (queued_op k (length ms))" using assms(5) r(8) by (simp only:)
  show ?thesis
    unfolding request_ok_def args prod.case
    by (rule exI [of _ k], rule exI [of _ ident], rule exI [of _ st], rule exI [of _ rs], rule exI [of _ old], rule exI [of _ res])
      (use r m o assms(2,4) in simp)
qed


lemma client_elems_on_buffer:
  assumes "i < HE_QAT_BUFFER_COUNT"
  shows "client_elems (on_buffer i f ob) + mset (rb_elems (ob_buffer ob i)) =
    client_elems ob + mset (rb_elems (f (ob_buffer ob i)))"
proof -
  let ?B = "{..< HE_QAT_BUFFER_COUNT}"
  have i: "finite ?B" "i \<in> ?B" using assms by simp_all
  have "(\<Sum>b \<in> ?B - {i}. mset (rb_elems (ob_buffer (on_buffer i f ob) b))) =
      (\<Sum>b \<in> ?B - {i}. mset (rb_elems (ob_buffer ob b)))"
    by (rule sum.cong) (simp_all add: on_buffer_def)
  then show ?thesis
    unfolding client_elems_def sum.remove [OF i] by (simp add: on_buffer_def)
qed

lemma client_elems_cong:
  "(\<And>b. b < HE_QAT_BUFFER_COUNT \<Longrightarrow> rb_elems (ob_buffer ob' b) = rb_elems (ob_buffer ob b)) \<Longrightarrow>
    client_elems ob' = client_elems ob"
  unfolding client_elems_def by (rule sum.cong) simp_all

lemma conserved_same:
  assumes "conserved s" "places s' = places s" "live s' = live s"
    and "\<And>a. a \<in> live s \<Longrightarrow> waits (sy_rt s') a = waits (sy_rt s) a"
    and "\<forall>(a, op, i) \<in> set (ct_device (sy_control s')). op = Some (Suc a)"
  shows "conserved s'"
  using assms unfolding conserved_def by (auto split: option.splits)

definition slots_kept :: "outbuf \<Rightarrow> outbuf \<Rightarrow> bool" where
  "slots_kept ob ob' \<longleftrightarrow> taken ob' = taken ob \<and> (\<forall>b. rb_data (ob_buffer ob' b) = rb_data (ob_buffer ob b) \<and>
    rb_next_data_out (ob_buffer ob' b) = rb_next_data_out (ob_buffer ob b) \<and>
    rb_next_free_slot (ob_buffer ob' b) = rb_next_free_slot (ob_buffer ob b) \<and>
    set (rb_elems (ob_buffer ob' b)) \<subseteq> set (rb_elems (ob_buffer ob b)))"

lemma slots_ok_frame:
  assumes "slots_ok s" "same_clients s s'" "slots_kept (sy_out s) (sy_out s')"
  shows "slots_ok s'"
proof -
  have k: "taken (sy_out s') = taken (sy_out s)" "rb_data (ob_buffer (sy_out s') b) = rb_data (ob_buffer (sy_out s) b)"
    "rb_next_data_out (ob_buffer (sy_out s') b) = rb_next_data_out (ob_buffer (sy_out s) b)"
    "rb_next_free_slot (ob_buffer (sy_out s') b) = rb_next_free_slot (ob_buffer (sy_out s) b)" for b
    using assms(3) by (simp_all add: slots_kept_def)
  have e: "p \<in> set (rb_elems (ob_buffer (sy_out s) b))" if "p \<in> set (rb_elems (ob_buffer (sy_out s') b))" for p b
    using assms(3) that unfolding slots_kept_def by blast
  have o: "out_slot b j s' = out_slot b j s" for b j by (simp add: out_slot_def k)
  show ?thesis
    using assms(1) unfolding slots_ok_def o k same_clientsD [OF assms(2)] by (blast dest: e)
qed

lemma slots_okD:
  assumes "slots_ok s"
  shows "b < HE_QAT_BUFFER_COUNT \<Longrightarrow> rb_next_data_out (ob_buffer (sy_out s) b) < HE_QAT_BUFFER_SIZE \<and>
      sy_done s b \<le> length (sy_batch s b) \<and> length (sy_batch s b) \<le> HE_QAT_BUFFER_SIZE \<and>
      rb_next_free_slot (ob_buffer (sy_out s) b) = out_slot b (length (sy_batch s b)) s"
    and "b < HE_QAT_BUFFER_COUNT \<Longrightarrow> b \<notin> taken (sy_out s) \<Longrightarrow> sy_batch s b = [] \<and> sy_done s b = 0"
    and "entry s b j \<Longrightarrow> rb_data (ob_buffer (sy_out s) b) (out_slot b j s) = Some (sy_batch s b ! j)"
    and "b < HE_QAT_BUFFER_COUNT \<Longrightarrow> p \<in> set (rb_elems (ob_buffer (sy_out s) b)) \<Longrightarrow>
      \<exists>j. entry s b j \<and> p = Some (sy_batch s b ! j)"
  using assms unfolding slots_ok_def by blast+

lemma requests_ok_frame:
  assumes "requests_ok dev n0 s" "same_clients s s'" "rt_allocs (sy_rt s') = rt_allocs (sy_rt s)"
    and "rt_mem (sy_rt s') = rt_mem (sy_rt s)" "rt_tasks (sy_rt s') = rt_tasks (sy_rt s)" "rt_ops (sy_rt s') = rt_ops (sy_rt s)"
  shows "requests_ok dev n0 s'"
  using assms(1,3-6) unfolding requests_ok_def same_clientsD [OF assms(2)] request_ok_def by simp

lemma read_keeps:
  assumes "read_request_list r m b = Some (r', b')"
  shows "rb_data b' = rb_data b \<and> rb_next_data_out b' = rb_next_data_out b \<and> rb_next_free_slot b' = rb_next_free_slot b"
proof -
  have "rb_data b1 = rb_data b \<and> rb_next_data_out b1 = rb_next_data_out b \<and> rb_next_free_slot b1 = rb_next_free_slot b"
    if "fold fetch_request is (r, b) = (r1, b1)" for "is" r b r1 b1
    using that by (induction "is" arbitrary: r b) (fastforce simp: fetch_request_def)+
  then show ?thesis using assms by (fastforce simp: read_request_list_def Let_def split: if_splits prod.splits)
qed

lemma in_flight_frame:
  "in_flight_ok c n \<Longrightarrow> rt_response_count (ct_rt c') = rt_response_count (ct_rt c) \<Longrightarrow>
    rt_request_count (ct_rt c') = rt_request_count (ct_rt c) \<Longrightarrow> ct_device c' = ct_device c \<Longrightarrow> in_flight_ok c' n"
  by (simp add: in_flight_ok_def)

text \<open>Moving requests between places touches neither their memory nor the clients.\<close>

lemma moved_inv:
  assumes "sys_inv dev n0 s" "same_clients s s'" "places s' = places s" "slots_kept (sy_out s) (sy_out s')" "buffers_ok s'"
    and "rt_allocs (sy_rt s') = rt_allocs (sy_rt s)" "rt_mem (sy_rt s') = rt_mem (sy_rt s)"
    and "rt_tasks (sy_rt s') = rt_tasks (sy_rt s)" "rt_ops (sy_rt s') = rt_ops (sy_rt s)"
    and "\<forall>(a, op, i) \<in> set (ct_device (sy_control s')). op = Some (Suc a)"
  shows "sys_inv dev n0 s'"
proof -
  have "conserved s'"
    using assms(1) conserved_same [OF _ assms(3) same_clientsD(2) [OF assms(2)] _ assms(10)]
    by (simp add: sys_inv_def waits_def assms(8))
  moreover have "slots_ok s'" using assms(1) slots_ok_frame [OF _ assms(2,4)] by (simp add: sys_inv_def)
  moreover have "requests_ok dev n0 s'" using assms(1) requests_ok_frame [OF _ assms(2,6-9)] by (simp add: sys_inv_def)
  ultimately show ?thesis using assms(1,5) same_clientsD(4) [OF assms(2)] by (simp add: sys_inv_def assms(6))
qed

lemma sys_invD:
  assumes "sys_inv dev n0 s"
  shows "out_inv (sy_out s)" "rb_inv (rt_he_qat_buffer (sy_rt s))"
    "tl_count (ct_scheduler (sy_control s)) \<le> HE_QAT_BUFFER_SIZE" "sy_index s \<le> tl_count (ct_runner (sy_control s))"
    "tl_count (ct_runner (sy_control s)) = sy_index s \<Longrightarrow> sy_index s = 0"
    "in_flight_ok (sy_control s) (tl_count (ct_runner (sy_control s)) - sy_index s)"
    "\<forall>(a, op, i) \<in> set (ct_device (sy_control s)). op = Some (Suc a)"
    "slots_ok s" "requests_ok dev n0 s" "apart s" "conserved s" "n0 \<le> rt_allocs (sy_rt s)"
  using assms by (auto simp: sys_inv_def buffers_ok_def Let_def conserved_def)

text \<open>Answering a request touches its own memory and its output only.\<close>

lemma request_of:
  assumes "requests_ok dev n0 s" "entry s b j" "a = sy_batch s b ! j"
  obtains bs es ms k ident st rs old res where "sy_args s a = (bs, es, ms, output_of s a)"
    "a = k + 3" "n0 \<le> k" "k + 6 \<le> rt_allocs (sy_rt s)" "output_of s a < n0" "length bs = length ms" "length es = length ms"
    "rt_tasks (sy_rt s) a = Some ((queued_task k (length ms) (Some (output_of s a)) ident)\<lparr>tk_op_status := st, tk_request_status := rs\<rparr>)"
    "rt_ops (sy_rt s) (k + 4) = Some (queued_op k (length ms))"
    "rt_mem (sy_rt s) k = Some bs" "rt_mem (sy_rt s) (k + 1) = Some es" "rt_mem (sy_rt s) (k + 2) = Some ms"
    "rt_mem (sy_rt s) (k + 5) = Some res" "length res = length ms"
    "rt_mem (sy_rt s) (output_of s a) = Some old" "length ms \<le> length old"
    "rs = HE_QAT_STATUS_READY \<longrightarrow> take (length ms) old = dev bs es ms"
proof -
  obtain bs es ms q where g: "sy_args s a = (bs, es, ms, q)" by (cases "sy_args s a")
  then have q: "output_of s a = q" by (simp add: output_of_def)
  have "request_ok dev n0 (sy_rt s) (bs, es, ms, q) a" using assms g unfolding requests_ok_def by metis
  then show ?thesis unfolding request_ok_def prod.case by (elim exE conjE) (rule that [unfolded q], rule g)
qed

lemma other_request:
  assumes "sys_inv dev n0 s" "entry s b j" "a = sy_batch s b ! j" "entry s b' j'" "(b', j') \<noteq> (b, j)" "a' = sy_batch s b' ! j'"
  shows "a' \<noteq> a" "Suc a' \<noteq> Suc a" "y < a' + 3 \<Longrightarrow> a' \<le> y + 3 \<or> y = output_of s a' \<Longrightarrow> y \<noteq> a + 2 \<and> y \<noteq> output_of s a"
    "y < a' + 3 \<Longrightarrow> a' \<le> y + 3 \<or> y = output_of s a' \<Longrightarrow> y + 3 < a \<or> a + 3 \<le> y"
proof -
  have ap: "a + 6 \<le> a' \<or> a' + 6 \<le> a" "output_of s a' \<noteq> output_of s a"
    using sys_invD(10) [OF assms(1)] assms(2-6) unfolding apart_def Let_def by metis+
  show "a' \<noteq> a" "Suc a' \<noteq> Suc a" using ap(1) by auto
  have 1: "n0 + 3 \<le> a" "output_of s a < n0"
    by (rule request_of [OF sys_invD(9) [OF assms(1)] assms(2,3)], simp)+
  have 2: "n0 + 3 \<le> a'" "output_of s a' < n0"
    by (rule request_of [OF sys_invD(9) [OF assms(1)] assms(4,6)], simp)+
  show "y < a' + 3 \<Longrightarrow> a' \<le> y + 3 \<or> y = output_of s a' \<Longrightarrow> y \<noteq> a + 2 \<and> y \<noteq> output_of s a"
    "y < a' + 3 \<Longrightarrow> a' \<le> y + 3 \<or> y = output_of s a' \<Longrightarrow> y + 3 < a \<or> a + 3 \<le> y"
    using ap 1 2 by auto
qed

lemma answered_inv:
  assumes inv: "sys_inv dev n0 s" and e: "entry s b j" "a = sy_batch s b ! j" and same: "same_clients s s'"
    and pl: "places s = add_mset (Some a) (places s')" and "slots_kept (sy_out s) (sy_out s')" "buffers_ok s'"
    and al: "rt_allocs (sy_rt s') = rt_allocs (sy_rt s)"
    and mem: "\<And>y. y \<noteq> a + 2 \<Longrightarrow> y \<noteq> output_of s a \<Longrightarrow> rt_mem (sy_rt s') y = rt_mem (sy_rt s) y"
    and tk: "\<And>x. x \<noteq> a \<Longrightarrow> rt_tasks (sy_rt s') x = rt_tasks (sy_rt s) x" and ops: "rt_ops (sy_rt s') = rt_ops (sy_rt s)"
    and dv: "\<forall>(a, op, i) \<in> set (ct_device (sy_control s')). op = Some (Suc a)"
    and nw: "\<not> waits (sy_rt s') a" and rq: "request_ok dev n0 (sy_rt s') (sy_args s a) a"
  shows "sys_inv dev n0 s'"
proof -
  have "a \<in> live s" "waits (sy_rt s) a"
    using waiting_place [OF sys_invD(11) [OF inv], of "Some a"] unfolding pl live_def by auto
  have w: "waits (sy_rt s') x = waits (sy_rt s) x" if "x \<noteq> a" for x using tk [OF that] by (simp add: waits_def)
  have "conserved s'"
    unfolding conserved_def
  proof (intro conjI allI)
    fix p
    have c: "count (places s) p = (case p of None \<Rightarrow> 0 | Some a \<Rightarrow> if a \<in> live s \<and> waits (sy_rt s) a then 1 else 0)"
      using sys_invD(11) [OF inv] unfolding conserved_def by blast
    show "count (places s') p = (case p of None \<Rightarrow> 0 | Some a \<Rightarrow> if a \<in> live s' \<and> waits (sy_rt s') a then 1 else 0)"
    proof (cases "p = Some a")
      case True
      then show ?thesis using c nw unfolding pl by (auto split: if_splits)
    next
      case False
      then have "(case p of None \<Rightarrow> 0 | Some x \<Rightarrow> if x \<in> live s' \<and> waits (sy_rt s') x then 1 else (0 :: nat)) =
          (case p of None \<Rightarrow> 0 | Some x \<Rightarrow> if x \<in> live s \<and> waits (sy_rt s) x then 1 else 0)"
        using w by (cases p) (auto simp: same_clientsD(2) [OF same])
      then show ?thesis using c False unfolding pl by simp
    qed
  qed (rule dv)
  moreover have "requests_ok dev n0 s'"
    unfolding requests_ok_def same_clientsD [OF same]
  proof (intro allI impI)
    fix b' j' assume e': "entry s b' j'"
    show "request_ok dev n0 (sy_rt s') (sy_args s (sy_batch s b' ! j')) (sy_batch s b' ! j')"
    proof (cases "(b', j') = (b, j)")
      case False
      note o = other_request [OF inv e e' False refl]
      have "request_ok dev n0 (sy_rt s) (sy_args s (sy_batch s b' ! j')) (sy_batch s b' ! j')"
        using sys_invD(9) [OF inv] e' by (simp add: requests_ok_def)
      then show ?thesis
      proof (rule request_ok_frame)
        show "rt_mem (sy_rt s') y = rt_mem (sy_rt s) y"
          if "y < sy_batch s b' ! j' + 3"
            "sy_batch s b' ! j' \<le> y + 3 \<or> y = (case sy_args s (sy_batch s b' ! j') of (_, _, _, q) \<Rightarrow> q)" for y
          using o(3) [of y] that mem [of y] by (simp add: output_of_def)
      qed (use o(1) in \<open>simp_all add: al tk ops\<close>)
    qed (use rq e(2) in simp)
  qed
  moreover have "slots_ok s'" by (rule slots_ok_frame [OF sys_invD(8) [OF inv] same assms(6)])
  ultimately show ?thesis
    using sys_invD(10,12) [OF inv] assms(7) same_clientsD(4) [OF same] by (simp add: sys_inv_def al)
qed

section \<open>The actions keep the invariant\<close>

subsection \<open>The scheduler\<close>

lemma pull_moves:
  assumes o: "out_inv ob" and p: "pull_outstanding_requests r HE_QAT_BUFFER_SIZE ob = Some (r', ob')"
  shows "slots_kept ob ob' \<and> client_elems ob' + mset (tl_elems r') = client_elems ob \<and>
    tl_count r' \<le> HE_QAT_BUFFER_SIZE \<and> out_inv ob'"
proof -
  note pk = pull_ok [OF o p]
  have busy: "ob_busy_count ob \<noteq> 0"
  proof
    assume "ob_busy_count ob = 0"
    then have "pull_outstanding_requests r HE_QAT_BUFFER_SIZE ob = None" by (simp add: pull_outstanding_requests_def)
    then show False using p by simp
  qed
  from pk have "ready_index ob = None \<and> tl_count r' = 0 \<and> ob' = ob \<or>
     (\<exists>i b'. ready_index ob = Some i \<and> ob' = on_buffer i (\<lambda>_. b') ob \<and> rb_inv b' \<and>
        rb_elems (ob_buffer ob i) = tl_elems r' @ rb_elems b' \<and>
        tl_count r' = min (rb_count (ob_buffer ob i)) HE_QAT_BUFFER_SIZE)" by (elim conjE)
  then show ?thesis
  proof (elim disjE conjE exE)
    assume "tl_count r' = 0" "ob' = ob"
    then show ?thesis using o by (simp add: tl_elems_def slots_kept_def)
  next
    fix i b'
    assume 2: "ready_index ob = Some i" "ob' = on_buffer i (\<lambda>_. b') ob"
      "rb_elems (ob_buffer ob i) = tl_elems r' @ rb_elems b'" "tl_count r' = min (rb_count (ob_buffer ob i)) HE_QAT_BUFFER_SIZE"
    obtain b'' where rd: "read_request_list (r\<lparr>tl_count := 0\<rparr>) HE_QAT_BUFFER_SIZE (ob_buffer ob i) = Some (r', b'')"
      "ob' = on_buffer i (\<lambda>_. b'') ob"
      using p unfolding pull_reads [OF o busy 2(1)] by auto
    have "ob_buffer ob' i = b''" unfolding rd(2) by (simp add: on_buffer_def)
    moreover have "ob_buffer ob' i = b'" unfolding 2(2) by (simp add: on_buffer_def)
    ultimately have rk: "rb_data b' = rb_data (ob_buffer ob i)" "rb_next_data_out b' = rb_next_data_out (ob_buffer ob i)"
      "rb_next_free_slot b' = rb_next_free_slot (ob_buffer ob i)"
      using read_keeps [OF rd(1)] by simp_all
    have i: "i < HE_QAT_BUFFER_COUNT" using ready_index_Some [OF 2(1)] by blast
    have "set (rb_elems b') \<subseteq> set (rb_elems (ob_buffer ob i))" unfolding 2(3) by simp
    then have "slots_kept ob ob'" using pk rk unfolding slots_kept_def 2(2) by (simp add: on_buffer_def)
    moreover have "client_elems ob' + mset (tl_elems r') = client_elems ob"
      using client_elems_on_buffer [OF i, of "\<lambda>_. b'" ob] unfolding 2(2) 2(3) by (simp add: ac_simps)
    moreover have "tl_count r' \<le> HE_QAT_BUFFER_SIZE" unfolding 2(4) by simp
    ultimately show ?thesis using pk by (intro conjI) simp_all
  qed
qed

lemma pull_inv:
  assumes "sys_inv dev n0 s" "exec_pull s = Some r"
  shows "\<exists>s'. r = Inr s' \<and> sys_inv dev n0 s' \<and> same_clients s s'"
proof -
  let ?c = "sy_control s" and ?ob = "sy_out s"
  obtain r' ob' where p: "pull_outstanding_requests (ct_scheduler ?c) HE_QAT_BUFFER_SIZE ?ob = Some (r', ob')"
    "r = Inr (s\<lparr>sy_control := ?c\<lparr>ct_scheduler := r', ct_rt := (ct_rt ?c)\<lparr>rt_outstanding := ob'\<rparr>\<rparr>\<rparr>)"
    and z: "tl_count (ct_scheduler ?c) = 0"
    using assms(2) by (auto simp: exec_pull_def schedule_pull_def split: if_splits option.splits)
  define s' where "s' = s\<lparr>sy_control := ?c\<lparr>ct_scheduler := r', ct_rt := (ct_rt ?c)\<lparr>rt_outstanding := ob'\<rparr>\<rparr>\<rparr>"
  have same: "same_clients s s'" by (simp add: same_clients_def s'_def)
  have o: "out_inv ?ob" using assms(1) by (simp add: sys_inv_def buffers_ok_def Let_def)
  have pk: "slots_kept ?ob ob'" "client_elems ob' + mset (tl_elems r') = client_elems ?ob"
    "tl_count r' \<le> HE_QAT_BUFFER_SIZE" "out_inv ob'"
    using pull_moves [OF o p(1)] by blast+
  have rt: "sy_rt s' = (ct_rt ?c)\<lparr>rt_outstanding := ob'\<rparr>" "ct_scheduler (sy_control s') = r'" "sy_index s' = sy_index s"
    "ct_runner (sy_control s') = ct_runner ?c" "ct_device (sy_control s') = ct_device ?c" by (simp_all add: s'_def)
  have "tl_elems (ct_scheduler ?c) = []" using z by (simp add: tl_elems_def)
  then have pl: "places s' = places s" unfolding places_def remaining_def by (simp add: rt pk(2) [symmetric] ac_simps)
  have "buffers_ok s'"
    using sys_invD [OF assms(1)] pk(3,4) in_flight_frame [of ?c _ "sy_control s'"] by (simp add: rt buffers_ok_def Let_def)
  with pk(1) have "sys_inv dev n0 s'"
    by (intro moved_inv [OF assms(1) same pl]) (simp_all add: rt sys_invD(7) [OF assms(1)])
  then show ?thesis using same p(2) by (simp add: s'_def)
qed


lemma forward_inv:
  assumes "sys_inv dev n0 s" "exec_forward s = Some r"
  shows "\<exists>s'. r = Inr s' \<and> sys_inv dev n0 s' \<and> same_clients s s'"
proof -
  let ?c = "sy_control s"
  obtain r' b' where p: "submit_request_list (ct_scheduler ?c) (rt_he_qat_buffer (ct_rt ?c)) = Some (r', b')"
    "r = Inr (s\<lparr>sy_control := ?c\<lparr>ct_scheduler := r', ct_rt := (ct_rt ?c)\<lparr>rt_he_qat_buffer := b'\<rparr>\<rparr>\<rparr>)"
    using assms(2) by (auto simp: exec_forward_def schedule_submit_def split: if_splits option.splits)
  define s' where "s' = s\<lparr>sy_control := ?c\<lparr>ct_scheduler := r', ct_rt := (ct_rt ?c)\<lparr>rt_he_qat_buffer := b'\<rparr>\<rparr>\<rparr>"
  have same: "same_clients s s'" by (simp add: same_clients_def s'_def)
  note ok = submit_request_list_ok [OF sys_invD(2) [OF assms(1)] p(1)]
  have rt: "sy_rt s' = (ct_rt ?c)\<lparr>rt_he_qat_buffer := b'\<rparr>" "ct_scheduler (sy_control s') = r'" "sy_index s' = sy_index s"
    "ct_runner (sy_control s') = ct_runner ?c" "ct_device (sy_control s') = ct_device ?c" by (simp_all add: s'_def)
  have "tl_elems r' = []" using ok by (simp add: tl_elems_def)
  then have pl: "places s' = places s" unfolding places_def remaining_def using ok by (simp add: rt ac_simps)
  have "buffers_ok s'"
    using sys_invD [OF assms(1)] ok in_flight_frame [of ?c _ "sy_control s'"] by (simp add: rt buffers_ok_def Let_def)
  then have "sys_inv dev n0 s'"
    by (intro moved_inv [OF assms(1) same pl]) (simp_all add: rt sys_invD(7) [OF assms(1)] slots_kept_def)
  then show ?thesis using same p(2) by (simp add: s'_def)
qed

subsection \<open>The processing thread\<close>

text \<open>A thread that stops keeps the invariant.\<close>

lemma halted_inv:
  assumes "sys_inv dev n0 s" "s' = s\<lparr>sy_control := (sy_control s)\<lparr>ct_status := status, ct_halted := True\<rparr>\<rparr>"
  shows "sys_inv dev n0 s' \<and> same_clients s s'"
proof -
  have same: "same_clients s s'" and pl: "places s' = places s"
    by (simp_all add: same_clients_def assms(2) places_def remaining_def)
  have "buffers_ok s'"
    using sys_invD [OF assms(1)] in_flight_frame [of "sy_control s" _ "sy_control s'"] by (simp add: assms(2) buffers_ok_def Let_def)
  then have "sys_inv dev n0 s'"
    by (intro moved_inv [OF assms(1) same pl]) (simp_all add: assms(2) sys_invD(7) [OF assms(1)] slots_kept_def)
  then show ?thesis using same by simp
qed

lemma read_inv:
  assumes "sys_inv dev n0 s" "exec_read s = Some r" "ct_config (sy_control s) \<noteq> None"
  shows "\<exists>s'. r = Inr s' \<and> sys_inv dev n0 s' \<and> same_clients s s'"
proof -
  let ?c = "sy_control s"
  note inv = sys_invD [OF assms(1)]
  have z: "tl_count (ct_runner ?c) = 0" using assms(2) by (auto simp: exec_read_def Let_def split: if_splits)
  consider "r = Inr (s\<lparr>sy_control := ?c\<lparr>ct_halted := True\<rparr>\<rparr>)"
    | c' where "process_read ?c = Some c'" "r = Inr (s\<lparr>sy_control := c', sy_index := 0\<rparr>)"
    using assms(2,3) by (auto simp: exec_read_def Let_def split: if_splits option.splits)
  then show ?thesis
  proof cases
    case 1
    then show ?thesis using halted_inv [OF assms(1), of _ "ct_status ?c"] by simp
  next
    case (2 c')
    define s' where "s' = s\<lparr>sy_control := c', sy_index := 0\<rparr>"
    have fl: "in_flight_ok ?c 0" using inv(6) z by simp
    note ok = process_read_ok [OF fl inv(2) 2(1)]
    have c': "c' = ?c\<lparr>ct_runner := ct_runner c', ct_rt := (ct_rt ?c)\<lparr>rt_he_qat_buffer := rt_he_qat_buffer (ct_rt c')\<rparr>\<rparr>"
      using ok by blast
    have eq: "ct_scheduler c' = ct_scheduler ?c" "ct_device c' = ct_device ?c"
      "rt_outstanding (ct_rt c') = sy_out s" "rt_mem (ct_rt c') = rt_mem (ct_rt ?c)" "rt_tasks (ct_rt c') = rt_tasks (ct_rt ?c)"
      "rt_ops (ct_rt c') = rt_ops (ct_rt ?c)" "rt_allocs (ct_rt c') = rt_allocs (ct_rt ?c)"
      by (subst c', simp)+
    have same: "same_clients s s'" by (simp add: same_clients_def s'_def)
    have "tl_elems (ct_runner ?c) = []" using z by (simp add: tl_elems_def)
    then have pl: "places s' = places s" unfolding places_def remaining_def using ok by (simp add: s'_def eq ac_simps)
    have "buffers_ok s'" using inv ok by (simp add: s'_def buffers_ok_def Let_def eq)
    then have "sys_inv dev n0 s'"
      by (intro moved_inv [OF assms(1) same pl]) (simp_all add: s'_def eq inv(7) slots_kept_def)
    then show ?thesis using same 2(2) by (simp add: s'_def)
  qed
qed


text \<open>The requests that the processing thread holds are exponentiations.\<close>

lemma waiting_request:
  assumes "sys_inv dev n0 s" "p \<in># places s"
  obtains b j a t where "entry s b j" "a = sy_batch s b ! j" "p = Some a" "waits (sy_rt s) a"
    "rt_tasks (sy_rt s) a = Some t" "tk_op_type t = HE_QAT_OP_MODEXP" "tk_op_data t = Some (Suc a)"
proof -
  obtain b j where bj: "entry s b j" "p = Some (sy_batch s b ! j)" "waits (sy_rt s) (sy_batch s b ! j)"
    using waiting_place [OF sys_invD(11) [OF assms(1)] assms(2)] by blast
  show ?thesis
    by (rule request_of [OF sys_invD(9) [OF assms(1)] bj(1) refl], rule that [OF bj(1) refl bj(2,3)])
      (assumption, simp_all add: queued_task_def)
qed

lemma remaining_Cons:
  assumes "sy_index s < tl_count (ct_runner (sy_control s))"
  shows "remaining s = tl_request (ct_runner (sy_control s)) (sy_index s) #
    drop (Suc (sy_index s)) (tl_elems (ct_runner (sy_control s)))"
  using assms unfolding remaining_def by (simp add: Cons_nth_drop_Suc tl_elems_def flip: Cons_nth_drop_Suc)

lemma next_request_ok:
  assumes "sy_index s < tl_count (ct_runner (sy_control s))"
    and "ct_runner c' = (ct_runner (sy_control s))\<lparr>tl_request := (tl_request (ct_runner (sy_control s)))(sy_index s := None)\<rparr>"
  shows "remaining (next_request s c') = drop (Suc (sy_index s)) (tl_elems (ct_runner (sy_control s)))"
    and "sy_index (next_request s c') \<le> tl_count (ct_runner (sy_control (next_request s c')))"
    and "tl_count (ct_runner (sy_control (next_request s c'))) = sy_index (next_request s c') \<Longrightarrow> sy_index (next_request s c') = 0"
    and "tl_count (ct_runner (sy_control (next_request s c'))) - sy_index (next_request s c') =
      tl_count (ct_runner (sy_control s)) - Suc (sy_index s)"
    and "same_clients s (next_request s c')" "sy_rt (next_request s c') = ct_rt c'"
    and "ct_device (sy_control (next_request s c')) = ct_device c'" "ct_scheduler (sy_control (next_request s c')) = ct_scheduler c'"
proof -
  show "remaining (next_request s c') = drop (Suc (sy_index s)) (tl_elems (ct_runner (sy_control s)))"
    using assms by (auto simp: next_request_def remaining_def tl_elems_def drop_map intro!: map_cong)
qed (use assms in \<open>auto simp: next_request_def same_clients_def split: if_splits\<close>)


text \<open>What an action that offers the next request to the accelerator works on.\<close>

lemma offload_next:
  assumes "sys_inv dev n0 s" "sy_index s < tl_count (ct_runner (sy_control s))"
  obtains b j a t c' where "entry s b j" "a = sy_batch s b ! j" "tl_request (ct_runner (sy_control s)) (sy_index s) = Some a"
    "rt_tasks (sy_rt s) a = Some t" "tk_op_type t = HE_QAT_OP_MODEXP" "tk_op_data t = Some (Suc a)"
    "offload status (sy_index s) (sy_control s) = Inr c'"
    "in_flight_ok c' (tl_count (ct_runner (sy_control s)) - Suc (sy_index s))"
proof -
  let ?c = "sy_control s" and ?i = "sy_index s"
  have "tl_request (ct_runner ?c) ?i \<in># places s" using in_places(4) [of _ s] remaining_Cons [OF assms(2)] by simp
  from waiting_request [OF assms(1) this] obtain b j a t where
    e: "entry s b j" "a = sy_batch s b ! j" and a: "tl_request (ct_runner ?c) ?i = Some a"
    and t: "rt_tasks (sy_rt s) a = Some t" "tk_op_type t = HE_QAT_OP_MODEXP" "tk_op_data t = Some (Suc a)" by metis
  have fl: "in_flight_ok ?c (Suc (tl_count (ct_runner ?c) - Suc ?i))" using sys_invD(6) [OF assms(1)] assms(2) by (simp add: Suc_diff_Suc)
  have me: "modexp_task ?c (tl_request (ct_runner ?c) ?i)" using a t by (simp add: modexp_task_def)
  show ?thesis using offload_in_flight [OF fl me, of status] that [OF e a t] by blast
qed

lemma next_request_buffers:
  assumes "sys_inv dev n0 s" "sy_index s < tl_count (ct_runner (sy_control s))"
    and "ct_runner c' = (ct_runner (sy_control s))\<lparr>tl_request := (tl_request (ct_runner (sy_control s)))(sy_index s := None)\<rparr>"
    and "ct_scheduler c' = ct_scheduler (sy_control s)" "rt_outstanding (ct_rt c') = sy_out s"
    and "rt_he_qat_buffer (ct_rt c') = rt_he_qat_buffer (sy_rt s)"
    and "in_flight_ok c' (tl_count (ct_runner (sy_control s)) - Suc (sy_index s))"
  shows "buffers_ok (next_request s c')"
proof -
  note n = next_request_ok [OF assms(2,3)]
  have "in_flight_ok (sy_control (next_request s c')) (tl_count (ct_runner (sy_control s)) - Suc (sy_index s))"
    using assms(7) by (rule in_flight_frame) (simp_all add: n)
  then show ?thesis
    unfolding buffers_ok_def Let_def using sys_invD(1-3) [OF assms(1)] n(2,3) by (simp add: n(4,6,8) assms(4-6))
qed

lemma offload_inv:
  assumes "sys_inv dev n0 s" "exec_offload status s = Some r"
  shows "\<exists>s'. r = Inr s' \<and> sys_inv dev n0 s' \<and> same_clients s s'"
proof -
  let ?c = "sy_control s" and ?i = "sy_index s"
  note inv = sys_invD [OF assms(1)]
  have i: "?i < tl_count (ct_runner ?c)" and nh: "\<not> ct_halted ?c"
    and r: "r = bindR (offload status ?i ?c) (\<lambda>c'. Inr (if ct_halted c' then s\<lparr>sy_control := c'\<rparr> else next_request s c'))"
    using assms(2) by (auto simp: exec_offload_def Let_def split: if_splits)
  obtain b j a t c' where e: "entry s b j" "a = sy_batch s b ! j" and a: "tl_request (ct_runner ?c) ?i = Some a"
    and t: "rt_tasks (sy_rt s) a = Some t" "tk_op_type t = HE_QAT_OP_MODEXP" "tk_op_data t = Some (Suc a)"
    and c': "offload status ?i ?c = Inr c'" "in_flight_ok c' (tl_count (ct_runner ?c) - Suc ?i)"
    by (rule offload_next [where status = status, OF assms(1) i])
  note oc = offload_cases [OF a t(1,2)] and rem = remaining_Cons [OF i]
  define s' where "s' = (if ct_halted c' then s\<lparr>sy_control := c'\<rparr> else next_request s c')"
  have r': "r = Inr s'" using r by (simp add: c'(1) s'_def)
  consider "status = CPA_STATUS_RETRY" | "status = CPA_STATUS_SUCCESS"
    | "status \<noteq> CPA_STATUS_RETRY" "status \<noteq> CPA_STATUS_SUCCESS" by blast
  then have "sys_inv dev n0 s' \<and> same_clients s s'"
  proof cases
    case 1
    then have "c' = ?c\<lparr>ct_status := status, ct_halted := True\<rparr>" using oc(1) c'(1) by simp
    then show ?thesis by (intro halted_inv [OF assms(1)]) (simp add: s'_def)
  next
    case 2
    then have c: "ct_runner c' = (ct_runner ?c)\<lparr>tl_request := (tl_request (ct_runner ?c))(?i := None)\<rparr>"
      "ct_device c' = ct_device ?c @ [(a, tk_op_data t, ct_next_instance ?c)]"
      "ct_rt c' = (ct_rt ?c)\<lparr>rt_request_count := ull_inc (rt_request_count (ct_rt ?c))\<rparr>" "ct_halted c' = ct_halted ?c"
      "ct_scheduler c' = ct_scheduler ?c"
      using oc(2) c'(1) by auto
    have s': "s' = next_request s c'" using nh by (simp add: s'_def c)
    note n = next_request_ok [OF i c(1), folded s']
    have pl: "places s' = places s" unfolding places_def n by (simp add: c rem a)
    have "buffers_ok s'" unfolding s' by (rule next_request_buffers [OF assms(1) i c(1,5) _ _ c'(2)]) (simp_all add: c(3))
    then have "sys_inv dev n0 s'"
      by (intro moved_inv [OF assms(1) n(5) pl]) (use inv(7) t(3) in \<open>simp_all add: n c slots_kept_def\<close>)
    then show ?thesis using n(5) by simp
  next
    case 3
    let ?t = "t\<lparr>tk_op_status := CPA_STATUS_FAIL, tk_request_status := HE_QAT_STATUS_FAIL\<rparr>"
    have c: "ct_runner c' = (ct_runner ?c)\<lparr>tl_request := (tl_request (ct_runner ?c))(?i := None)\<rparr>"
      "ct_device c' = ct_device ?c" "ct_scheduler c' = ct_scheduler ?c"
      "ct_rt c' = (ct_rt ?c)\<lparr>rt_tasks := (rt_tasks (ct_rt ?c))(a \<mapsto> ?t)\<rparr>" "ct_halted c' = ct_halted ?c"
      using oc(3) [OF 3] c'(1) by auto
    have s': "s' = next_request s c'" using nh by (simp add: s'_def c)
    note n = next_request_ok [OF i c(1), folded s']
    have pl: "places s = add_mset (Some a) (places s')" unfolding places_def n by (simp add: c rem a)
    have b: "buffers_ok s'" unfolding s' by (rule next_request_buffers [OF assms(1) i c(1,3) _ _ c'(2)]) (simp_all add: c(4))
    have "request_ok dev n0 (sy_rt s') (sy_args s a) a"
      by (rule request_of [OF inv(9) e]) (use t(1) in \<open>force simp: request_ok_def n c\<close>)
    then have "sys_inv dev n0 s'"
      by (intro answered_inv [OF assms(1) e n(5) pl _ b]) (use inv(7) in \<open>simp_all add: n c slots_kept_def waits_def\<close>)
    then show ?thesis using n(5) by simp
  qed
  then show ?thesis using r' by blast
qed


subsection \<open>The accelerator\<close>

lemma device_result_ok:
  assumes "device_ok dev" "rt_tasks rt a = Some t" "fb_pData (tk_op_result t) = Some p" "rt_mem rt p = Some res" "length res = length ms"
    and "rt_ops rt (Suc a) = Some (queued_op k (length ms))" "rt_mem rt k = Some bs" "rt_mem rt (k + 1) = Some es"
    and "rt_mem rt (k + 2) = Some ms" "length bs = length ms" "length es = length ms"
  shows "device_result dev a (Some (Suc a)) rt = Some (Inr (), rt\<lparr>rt_mem := (rt_mem rt)(p \<mapsto> dev bs es ms)\<rparr>)"
proof -
  have "length (dev bs es ms) = length ms" using assms(1) by (simp add: device_ok_def)
  then show ?thesis
    using assms(2-)
    by (simp add: device_result_def bindQ_def get_task_def flat_bytes_def mem_read_def mem_write_def queued_op_def)
qed

lemma respond_ok:
  assumes dev: "device_ok dev" and inv: "requests_ok dev n0 s" and e: "entry s b j" "a = sy_batch s b ! j"
    and w: "waits (sy_rt s) a"
  shows "\<exists>rt. bindQ (if status = CPA_STATUS_SUCCESS then device_result dev a (Some (Suc a)) else retQ ())
      (\<lambda>_. HE_QAT_bnModExpCallback (Some a) status (Some (Suc a))) (sy_rt s) = Some (Inr (), rt) \<and>
    rt_response_count rt = ull_inc (rt_response_count (sy_rt s)) \<and> rt_request_count rt = rt_request_count (sy_rt s) \<and>
    rt_outstanding rt = sy_out s \<and> rt_he_qat_buffer rt = rt_he_qat_buffer (sy_rt s) \<and>
    rt_allocs rt = rt_allocs (sy_rt s) \<and> rt_ops rt = rt_ops (sy_rt s) \<and>
    (\<forall>y. y \<noteq> a + 2 \<and> y \<noteq> output_of s a \<longrightarrow> rt_mem rt y = rt_mem (sy_rt s) y) \<and>
    (\<forall>x. x \<noteq> a \<longrightarrow> rt_tasks rt x = rt_tasks (sy_rt s) x) \<and> \<not> waits rt a \<and>
    request_ok dev n0 rt (sy_args s a) a \<and>
    (status = CPA_STATUS_SUCCESS \<longrightarrow> (\<exists>t. rt_tasks rt a = Some t \<and> tk_request_status t = HE_QAT_STATUS_READY))"
proof (rule request_of [OF inv e])
  fix bs es ms old res :: "u8 list" and k ident st rs
  let ?t = "(queued_task k (length ms) (Some (output_of s a)) ident)\<lparr>tk_op_status := st, tk_request_status := rs\<rparr>"
  let ?q = "output_of s a" and ?rt = "sy_rt s"
  assume r: "sy_args s a = (bs, es, ms, ?q)" "a = k + 3" "n0 \<le> k" "k + 6 \<le> rt_allocs ?rt" "?q < n0"
    "length bs = length ms" "length es = length ms" "rt_tasks ?rt a = Some ?t"
    "rt_ops ?rt (k + 4) = Some (queued_op k (length ms))"
    "rt_mem ?rt k = Some bs" "rt_mem ?rt (k + 1) = Some es" "rt_mem ?rt (k + 2) = Some ms"
    "rt_mem ?rt (k + 5) = Some res" "length res = length ms"
    "rt_mem ?rt ?q = Some old" "length ms \<le> length old"
  have ls: "length (dev bs es ms) = length ms" using dev by (simp add: device_ok_def)
  have ak: "Suc a = k + 4" using r(2) by simp
  have tr: "fb_pData (tk_op_result ?t) = Some (k + 5)" by (simp add: queued_task_def)
  have st: "rs = HE_QAT_STATUS_SUCCESS" using w r(8) by (simp add: waits_def)
  show ?thesis
  proof (cases "status = CPA_STATUS_SUCCESS")
    case True
    let ?rt1 = "?rt\<lparr>rt_mem := (rt_mem ?rt)(k + 5 \<mapsto> dev bs es ms)\<rparr>"
    let ?rt2 = "?rt1\<lparr>rt_response_count := ull_inc (rt_response_count ?rt1),
      rt_tasks := (rt_tasks ?rt1)(a \<mapsto> ?t\<lparr>tk_op_status := CPA_STATUS_SUCCESS, tk_request_status := HE_QAT_STATUS_READY\<rparr>),
      rt_mem := (rt_mem ?rt1)(?q \<mapsto> dev bs es ms @ drop (length (dev bs es ms)) old)\<rparr>"
    have 1: "device_result dev a (Some (Suc a)) ?rt = Some (Inr (), ?rt1)"
      by (rule device_result_ok [OF dev r(8) tr r(13,14) _ r(10-12,6,7)]) (simp add: ak r(9) del: add_2_eq_Suc')
    have 2: "HE_QAT_bnModExpCallback (Some a) CPA_STATUS_SUCCESS (tk_op_data ?t) ?rt1 = Some (Inr (), ?rt2)"
      by (rule callback_ready) (use r ls in \<open>auto simp: task_result_def queued_task_def\<close>)
    have "tk_op_data ?t = Some (Suc a)" using ak by (simp add: queued_task_def)
    then have "bindQ (if status = CPA_STATUS_SUCCESS then device_result dev a (Some (Suc a)) else retQ ())
      (\<lambda>_. HE_QAT_bnModExpCallback (Some a) status (Some (Suc a))) ?rt = Some (Inr (), ?rt2)"
      using 1 2 True by (simp add: bindQ_def)
    moreover have "request_ok dev n0 ?rt2 (sy_args s a) a"
      unfolding request_ok_def r(1) prod.case
      by (rule exI [of _ k], rule exI [of _ ident], rule exI [of _ CPA_STATUS_SUCCESS], rule exI [of _ HE_QAT_STATUS_READY],
          rule exI [of _ "dev bs es ms @ drop (length (dev bs es ms)) old"], rule exI [of _ "dev bs es ms"])
        (use r ls in auto)
    ultimately show ?thesis using r(2) ls by (intro exI [of _ ?rt2]) (auto simp: waits_def)
  next
    case False
    let ?rt2 = "?rt\<lparr>rt_response_count := ull_inc (rt_response_count ?rt),
      rt_tasks := (rt_tasks ?rt)(a \<mapsto> ?t\<lparr>tk_op_status := status\<rparr>)\<rparr>"
    have "bindQ (if status = CPA_STATUS_SUCCESS then device_result dev a (Some (Suc a)) else retQ ())
      (\<lambda>_. HE_QAT_bnModExpCallback (Some a) status (Some (Suc a))) ?rt = Some (Inr (), ?rt2)"
      using False callback_error [OF r(8) False, of "Some (Suc a)"] by simp
    moreover have "request_ok dev n0 ?rt2 (sy_args s a) a"
      unfolding request_ok_def r(1) prod.case
      by (rule exI [of _ k], rule exI [of _ ident], rule exI [of _ status], rule exI [of _ rs],
          rule exI [of _ old], rule exI [of _ res]) (use r st in auto)
    ultimately show ?thesis using False by (intro exI [of _ ?rt2]) (auto simp: waits_def)
  qed
qed


lemma in_flight_response:
  assumes "in_flight_ok c n" "length (ct_device c) = Suc (length (ct_device c'))"
    and "rt_response_count (ct_rt c') = ull_inc (rt_response_count (ct_rt c))"
    and "rt_request_count (ct_rt c') = rt_request_count (ct_rt c)"
  shows "in_flight_ok c' n"
proof -
  obtain r where r: "rt_response_count (ct_rt c) = r mod 2 ^ 64"
    "rt_request_count (ct_rt c) = (r + length (ct_device c)) mod 2 ^ 64" "length (ct_device c) + n \<le> max_pending"
    using assms(1) unfolding in_flight_ok_def by blast
  have "rt_response_count (ct_rt c') = Suc r mod 2 ^ 64" unfolding assms(3) r(1) by (rule ull_inc_mod)
  moreover have "rt_request_count (ct_rt c') = (Suc r + length (ct_device c')) mod 2 ^ 64"
    unfolding assms(4) r(2) assms(2) by simp
  moreover have "length (ct_device c') + n \<le> max_pending" using r(3) assms(2) by simp
  ultimately show ?thesis unfolding in_flight_ok_def by blast
qed

lemma respond_inv:
  assumes "device_ok dev" "sys_inv dev n0 s" "exec_respond dev k status s = Some r"
  shows "\<exists>s'. r = Inr s' \<and> sys_inv dev n0 s' \<and> same_clients s s'"
proof -
  let ?c = "sy_control s" and ?D = "ct_device (sy_control s)"
  note inv = sys_invD [OF assms(2)]
  have k: "k < length ?D" using assms(3) by (auto simp: exec_respond_def split: if_splits)
  obtain a op i where d: "?D ! k = (a, op, i)" by (metis prod_cases3)
  then have in_d: "(a, op, i) \<in> set ?D" using k nth_mem by fastforce
  then have op: "op = Some (Suc a)" using inv(7) by auto
  from waiting_request [OF assms(2) in_places(5) [OF in_d]] obtain b j
    where e: "entry s b j" "a = sy_batch s b ! j" and w: "waits (sy_rt s) a" by (metis option.inject)
  from respond_ok [OF assms(1) inv(9) e w, of status] obtain rt where rt:
    "bindQ (if status = CPA_STATUS_SUCCESS then device_result dev a (Some (Suc a)) else retQ ())
      (\<lambda>_. HE_QAT_bnModExpCallback (Some a) status (Some (Suc a))) (sy_rt s) = Some (Inr (), rt)"
    "rt_response_count rt = ull_inc (rt_response_count (sy_rt s))" "rt_request_count rt = rt_request_count (sy_rt s)"
    "rt_outstanding rt = sy_out s" "rt_he_qat_buffer rt = rt_he_qat_buffer (sy_rt s)"
    "rt_allocs rt = rt_allocs (sy_rt s)" "rt_ops rt = rt_ops (sy_rt s)"
    "\<forall>y. y \<noteq> a + 2 \<and> y \<noteq> output_of s a \<longrightarrow> rt_mem rt y = rt_mem (sy_rt s) y"
    "\<forall>x. x \<noteq> a \<longrightarrow> rt_tasks rt x = rt_tasks (sy_rt s) x" "\<not> waits rt a"
    "request_ok dev n0 rt (sy_args s a) a" by blast
  let ?D' = "take k ?D @ drop (Suc k) ?D"
  define s' where "s' = s\<lparr>sy_control := ?c\<lparr>ct_device := ?D', ct_rt := rt\<rparr>\<rparr>"
  have r: "r = Inr s'" using assms(3) k by (simp add: exec_respond_def respond_def d op rt(1) s'_def)
  have sel: "sy_rt s' = rt" "ct_device (sy_control s') = ?D'" "ct_runner (sy_control s') = ct_runner ?c"
    "ct_scheduler (sy_control s') = ct_scheduler ?c" "sy_index s' = sy_index s" by (simp_all add: s'_def)
  have same: "same_clients s s'" by (simp add: same_clients_def s'_def)
  have D: "?D = take k ?D @ (a, op, i) # drop (Suc k) ?D" using id_take_nth_drop [OF k] d by simp
  have "mset (map (\<lambda>(a, _, _). Some a) ?D) = add_mset (Some a) (mset (map (\<lambda>(a, _, _). Some a) ?D'))"
    by (subst D) simp
  then have pl: "places s = add_mset (Some a) (places s')"
    unfolding places_def remaining_def sel by (simp add: rt(4,5))
  have "length ?D = Suc (length ?D')" using k by simp
  then have fl: "in_flight_ok (sy_control s') n" if "in_flight_ok ?c n" for n
    using in_flight_response [OF that, of "sy_control s'"] by (simp add: sel rt(2,3))
  have b: "buffers_ok s'"
    unfolding buffers_ok_def Let_def sel using inv(1-6) fl by (simp add: rt(4,5))
  have "set ?D' \<subseteq> set ?D" using set_take_subset [of k ?D] set_drop_subset [of "Suc k" ?D] by auto
  then have dv: "\<forall>(a, op, i) \<in> set (ct_device (sy_control s')). op = Some (Suc a)" using inv(7) unfolding sel by blast
  have "sys_inv dev n0 s'"
    by (rule answered_inv [OF assms(2) e same pl _ b _ _ _ _ dv])
      (use rt in \<open>simp_all add: sel slots_kept_def\<close>)
  then show ?thesis using r same by blast
qed

subsection \<open>The clients\<close>

lemma acquire_inv:
  assumes "sys_inv dev n0 s" "exec_acquire x s = Some r"
  shows "\<exists>s'. r = Inr s' \<and> sys_inv dev n0 s'"
proof -
  let ?ob = "sy_out s"
  note inv = sys_invD [OF assms(1)]
  obtain v ob' where a: "acquire_bnModExp_buffer (Some x) ?ob = Some (v, ob')"
    and r: "r = Inr (with_rt ((sy_rt s)\<lparr>rt_outstanding := ob'\<rparr>) s)"
    using assms(2) by (auto simp: exec_acquire_def)
  from acquire_ok [OF inv(1) a] obtain i where i: "i \<notin> taken ?ob" "taken ob' = insert i (taken ?ob)"
    "ob_buffer ob' = ob_buffer ?ob" "out_inv ob'" by blast
  define s' where "s' = with_rt ((sy_rt s)\<lparr>rt_outstanding := ob'\<rparr>) s"
  have same: "same_clients s s'" by (simp add: same_clients_def s'_def)
  have sel: "sy_rt s' = (sy_rt s)\<lparr>rt_outstanding := ob'\<rparr>" "ct_device (sy_control s') = ct_device (sy_control s)"
    "ct_runner (sy_control s') = ct_runner (sy_control s)" "ct_scheduler (sy_control s') = ct_scheduler (sy_control s)"
    "sy_index s' = sy_index s" by (simp_all add: s'_def)
  have pl: "places s' = places s" by (simp add: places_def remaining_def sel client_elems_def i(3))
  have "buffers_ok s'"
    using inv(1-6) i(4) in_flight_frame [of "sy_control s" _ "sy_control s'"] by (simp add: buffers_ok_def sel Let_def)
  moreover have "conserved s'"
    using conserved_same [OF inv(11) pl same_clientsD(2) [OF same]] inv(7) by (simp add: sel waits_def)
  moreover have "slots_ok s'"
    using inv(8) unfolding slots_ok_def out_slot_def same_clientsD [OF same] by (simp add: sel i(2,3))
  moreover have "requests_ok dev n0 s'" using requests_ok_frame [OF inv(9) same] by (simp add: sel)
  ultimately have "sys_inv dev n0 s'" using inv(10,12) same_clientsD(4) [OF same] by (simp add: sys_inv_def sel)
  then show ?thesis using r by (simp add: s'_def)
qed

text \<open>The end of a release frees a buffer whose requests are all collected.\<close>

lemma finish_entry:
  assumes "length (sy_batch s i) \<le> sy_done s i" "sy_batch s' = (sy_batch s)(i := [])" "sy_done s' = (sy_done s)(i := 0)"
  shows "entry s' b j \<longleftrightarrow> entry s b j" "entry s b j \<Longrightarrow> b \<noteq> i" "entry s b j \<Longrightarrow> sy_batch s' b ! j = sy_batch s b ! j"
  using assms by (auto simp: entry_def)

lemma finish_slots:
  assumes "slots_ok s" "i < HE_QAT_BUFFER_COUNT" "length (sy_batch s i) \<le> sy_done s i"
    and ob: "ob_buffer (sy_out s') = (ob_buffer (sy_out s))
      (i := (ob_buffer (sy_out s) i)\<lparr>rb_next_data_out := out_slot i (sy_done s i) s\<rparr>)"
    and tk: "taken (sy_out s') = taken (sy_out s) - {i}"
    and bd: "sy_batch s' = (sy_batch s)(i := [])" "sy_done s' = (sy_done s)(i := 0)"
  shows "slots_ok s'"
proof -
  note S = slots_okD [OF assms(1)] and en = finish_entry [OF assms(3) bd]
  have dn: "sy_done s i = length (sy_batch s i)" using S(1) [OF assms(2)] assms(3) by simp
  have os: "out_slot b j s' = out_slot b j s" if "b \<noteq> i" for b j using that by (simp add: out_slot_def ob)
  have oi: "out_slot i 0 s' = out_slot i (length (sy_batch s i)) s" by (simp add: out_slot_def ob dn)
  have lt: "out_slot i j s < HE_QAT_BUFFER_SIZE" for j by (simp add: out_slot_def qat_consts)
  show ?thesis
    unfolding slots_ok_def
  proof (intro conjI allI impI)
    fix b assume b: "b < HE_QAT_BUFFER_COUNT"
    show "rb_next_data_out (ob_buffer (sy_out s') b) < HE_QAT_BUFFER_SIZE" "sy_done s' b \<le> length (sy_batch s' b)"
      "length (sy_batch s' b) \<le> HE_QAT_BUFFER_SIZE"
      using S(1) [OF b] lt by (simp_all add: ob bd)
    show "rb_next_free_slot (ob_buffer (sy_out s') b) = out_slot b (length (sy_batch s' b)) s'"
      using S(1) [OF b] oi os [of b] by (cases "b = i") (simp_all add: ob bd)
    show "sy_batch s' b = []" "sy_done s' b = 0" if "b \<notin> taken (sy_out s')"
      using S(2) [OF b] that by (auto simp: tk bd)
  next
    fix b j assume "entry s' b j"
    then have e: "entry s b j" by (simp add: en(1))
    show "rb_data (ob_buffer (sy_out s') b) (out_slot b j s') = Some (sy_batch s' b ! j)"
      using S(3) [OF e] en(2) [OF e] os [of b] unfolding en(3) [OF e] by (simp add: ob)
  next
    fix b p assume bp: "b < HE_QAT_BUFFER_COUNT \<and> p \<in> set (rb_elems (ob_buffer (sy_out s') b))"
    have "rb_elems (ob_buffer (sy_out s') b) = rb_elems (ob_buffer (sy_out s) b)" by (simp add: ob rb_elems_def)
    then obtain j where "entry s b j" "p = Some (sy_batch s b ! j)" using S(4) [of b p] bp by auto
    then show "\<exists>j. entry s' b j \<and> p = Some (sy_batch s' b ! j)" unfolding en(1) by (metis en(3))
  qed
qed

lemma finish_inv:
  assumes "sys_inv dev n0 s" "exec_finish i s = Some r" "i \<in> taken (sy_out s)"
  shows "\<exists>s'. r = Inr s' \<and> sys_inv dev n0 s'"
proof -
  let ?ob = "sy_out s"
  let ?f = "\<lambda>b. b\<lparr>rb_next_data_out := out_slot i (sy_done s i) s\<rparr>"
  let ?ob' = "release_buffer i (on_buffer i ?f ?ob)"
  note inv = sys_invD [OF assms(1)]
  define s' where "s' = (with_rt ((sy_rt s)\<lparr>rt_outstanding := ?ob'\<rparr>) s)
    \<lparr>sy_batch := (sy_batch s)(i := []), sy_done := (sy_done s)(i := 0)\<rparr>"
  have r: "r = Inr s'" and ge: "length (sy_batch s i) \<le> sy_done s i"
    using assms(2) by (auto simp: exec_finish_def s'_def split: if_splits)
  have i: "i < HE_QAT_BUFFER_COUNT" by (rule taken_lt [OF assms(3)])
  have "rb_inv (?f (ob_buffer ?ob i))" using inv(1) i by (simp add: out_inv_def rb_inv_def)
  then have ob: "out_inv (on_buffer i ?f ?ob) \<and> taken (on_buffer i ?f ?ob) = taken ?ob"
    by (rule on_buffer_inv [OF inv(1), where f = ?f and i = i])
  have ob': "out_inv ?ob'" "taken ?ob' = taken ?ob - {i}" "ob_buffer ?ob' = (ob_buffer ?ob)(i := ?f (ob_buffer ?ob i))"
    using release_ok [of "on_buffer i ?f ?ob" i] ob assms(3) by (simp_all add: on_buffer_def)
  have sel: "sy_rt s' = (sy_rt s)\<lparr>rt_outstanding := ?ob'\<rparr>" "ct_device (sy_control s') = ct_device (sy_control s)"
    "ct_runner (sy_control s') = ct_runner (sy_control s)" "ct_scheduler (sy_control s') = ct_scheduler (sy_control s)"
    "sy_index s' = sy_index s" "sy_args s' = sy_args s"
    and bd: "sy_batch s' = (sy_batch s)(i := [])" "sy_done s' = (sy_done s)(i := 0)"
    by (simp_all add: s'_def)
  note en = finish_entry [OF ge bd]
  have lv: "live s' = live s" unfolding live_def en(1) by (intro Collect_cong) (metis en(3))
  have pl: "places s' = places s"
    by (simp add: places_def remaining_def sel) (rule client_elems_cong, simp add: ob'(3) rb_elems_def)
  have "buffers_ok s'"
    using inv(1-6) ob'(1) in_flight_frame [of "sy_control s" _ "sy_control s'"] by (simp add: buffers_ok_def sel Let_def)
  moreover have "conserved s'" using conserved_same [OF inv(11) pl lv] inv(7) by (simp add: sel waits_def)
  moreover have "requests_ok dev n0 s'"
    using inv(9) unfolding requests_ok_def en(1) by (simp add: sel en(3) request_ok_def)
  moreover have "apart s'"
    unfolding apart_def en(1) output_of_def sel(6) using inv(10) [unfolded apart_def output_of_def] by (simp add: en(3))
  moreover have "slots_ok s'" by (rule finish_slots [OF inv(8) i ge _ _ bd]) (simp_all add: sel ob')
  ultimately have "sys_inv dev n0 s'" using inv(12) by (simp add: sys_inv_def sel)
  then show ?thesis using r by blast
qed


text \<open>Collecting a request: it is \<open>READY\<close>, its slot is cleared, and what it owned is freed.\<close>

lemma collect_entry:
  assumes "sy_batch s' = sy_batch s" "sy_done s' = (sy_done s)(i := Suc (sy_done s i))"
  shows "entry s' b j \<longleftrightarrow> entry s b j \<and> (b, j) \<noteq> (i, sy_done s i)"
  using assms by (auto simp: entry_def)

lemma clear_slot_elems:
  assumes "rb_data b i \<notin> set (rb_elems b)"
  shows "rb_elems (clear_slot i b) = rb_elems b"
proof -
  have "(rb_next_data_slot b + k) mod HE_QAT_BUFFER_SIZE \<noteq> i" if "k < rb_count b" for k
    using assms that unfolding rb_elems_def by auto
  then show ?thesis by (simp add: rb_elems_def clear_slot_def)
qed

lemma collect_runs:
  assumes "sys_inv dev n0 s" "entry s i (sy_done s i)" "a = sy_batch s i ! sy_done s i" "exec_collect i s = Some r"
  obtains k len q ident st s' where "r = Inr s'" "a = k + 3" "n0 \<le> k"
    "rt_tasks (sy_rt s) a = Some ((queued_task k len q ident)\<lparr>tk_op_status := st, tk_request_status := HE_QAT_STATUS_READY\<rparr>)"
    "s' = (with_rt ((freed a ((queued_task k len q ident)\<lparr>tk_op_status := st, tk_request_status := HE_QAT_STATUS_READY\<rparr>)
        (queued_op k len) (sy_rt s))
      \<lparr>rt_outstanding := on_buffer i (clear_slot (out_slot i (sy_done s i) s)) (sy_out s)\<rparr>) s)
      \<lparr>sy_done := (sy_done s)(i := Suc (sy_done s i))\<rparr>"
proof (rule request_of [OF sys_invD(9) [OF assms(1)] assms(2,3)])
  fix bs es ms old res :: "u8 list" and k ident st rs
  let ?t = "(queued_task k (length ms) (Some (output_of s a)) ident)\<lparr>tk_op_status := st, tk_request_status := rs\<rparr>"
  assume r: "a = k + 3" "n0 \<le> k" "rt_tasks (sy_rt s) a = Some ?t" "rt_ops (sy_rt s) (k + 4) = Some (queued_op k (length ms))"
  have d: "rb_data (ob_buffer (sy_out s) i) (out_slot i (sy_done s i) s) = Some a"
    using slots_okD(3) [OF sys_invD(8) [OF assms(1)] assms(2)] assms(3) by simp
  have lt: "sy_done s i < length (sy_batch s i)" using assms(2) by (simp add: entry_def)
  have ready: "rs = HE_QAT_STATUS_READY"
  proof (rule ccontr)
    assume "rs \<noteq> HE_QAT_STATUS_READY"
    then have "collect_task a (sy_rt s) = None" using collect_waits [OF r(3)] by simp
    then show False using assms(4) d lt by (simp add: exec_collect_def release_one_def bindQ_def)
  qed
  have "tk_op_data ?t = Some (k + 4)" by (simp add: queued_task_def)
  from collect_ok [OF r(3) _ this r(4)] ready
  have c: "collect_task a (sy_rt s) = Some (Inr (), freed a ?t (queued_op k (length ms)) (sy_rt s))" by simp
  have o: "rt_outstanding (freed a ?t (queued_op k (length ms)) (sy_rt s)) = sy_out s" by (simp add: freed_def)
  show thesis
    by (rule that [OF _ r(1,2) r(3) [unfolded ready] refl])
      (use assms(4) d lt c o ready in \<open>simp add: exec_collect_def release_one_def bindQ_def\<close>)
qed


lemma collect_slots:
  assumes "slots_ok s" "i < HE_QAT_BUFFER_COUNT" "sy_done s i < length (sy_batch s i)"
    and ob: "ob_buffer (sy_out s') = (ob_buffer (sy_out s))
      (i := clear_slot (out_slot i (sy_done s i) s) (ob_buffer (sy_out s) i))"
    and el: "rb_elems (ob_buffer (sy_out s') i) = rb_elems (ob_buffer (sy_out s) i)"
    and nq: "Some (sy_batch s i ! sy_done s i) \<notin> set (rb_elems (ob_buffer (sy_out s) i))"
    and tk: "taken (sy_out s') = taken (sy_out s)" "i \<in> taken (sy_out s)"
    and bd: "sy_batch s' = sy_batch s" "sy_done s' = (sy_done s)(i := Suc (sy_done s i))"
  shows "slots_ok s'"
proof -
  note S = slots_okD [OF assms(1)] and en = collect_entry [OF bd]
  have os: "out_slot b j s' = out_slot b j s" for b j by (simp add: out_slot_def ob clear_slot_def)
  have elb: "rb_elems (ob_buffer (sy_out s') b) = rb_elems (ob_buffer (sy_out s) b)" for b
    using el by (cases "b = i") (simp_all add: ob)
  have ne: "out_slot i j s \<noteq> out_slot i (sy_done s i) s" if "entry s i j" "j \<noteq> sy_done s i" for j
    using ring_distinct [of "rb_next_data_out (ob_buffer (sy_out s) i)" j HE_QAT_BUFFER_SIZE "sy_done s i"] that assms(3)
      S(1) [OF assms(2)] by (auto simp: out_slot_def entry_def)
  show ?thesis
    unfolding slots_ok_def os
  proof (intro conjI allI impI)
    fix b assume b: "b < HE_QAT_BUFFER_COUNT"
    show "rb_next_data_out (ob_buffer (sy_out s') b) < HE_QAT_BUFFER_SIZE" "sy_done s' b \<le> length (sy_batch s' b)"
      "length (sy_batch s' b) \<le> HE_QAT_BUFFER_SIZE"
      "rb_next_free_slot (ob_buffer (sy_out s') b) = out_slot b (length (sy_batch s' b)) s"
      using S(1) [OF b] assms(3) by (auto simp: ob bd clear_slot_def)
    show "sy_batch s' b = []" "sy_done s' b = 0" if "b \<notin> taken (sy_out s')"
      using S(2) [OF b] that tk by (auto simp: bd)
  next
    fix b j assume "entry s' b j"
    then have e: "entry s b j" "(b, j) \<noteq> (i, sy_done s i)" by (simp_all add: en)
    show "rb_data (ob_buffer (sy_out s') b) (out_slot b j s) = Some (sy_batch s' b ! j)"
      using S(3) [OF e(1)] e ne [of j] by (cases "b = i") (simp_all add: ob bd clear_slot_def)
  next
    fix b p assume bp: "b < HE_QAT_BUFFER_COUNT \<and> p \<in> set (rb_elems (ob_buffer (sy_out s') b))"
    then obtain j where j: "entry s b j" "p = Some (sy_batch s b ! j)" using S(4) [of b p] elb by auto
    moreover have "(b, j) \<noteq> (i, sy_done s i)" using nq bp elb j(2) by auto
    ultimately show "\<exists>j. entry s' b j \<and> p = Some (sy_batch s' b ! j)" unfolding en bd(1) by blast
  qed
qed

text \<open>What a collection changes, for the proofs about its result.\<close>

definition collected :: "nat \<Rightarrow> sys \<Rightarrow> sys \<Rightarrow> bool" where
  "collected i s s' \<longleftrightarrow> (let a = sy_batch s i ! sy_done s i; rt = sy_rt s; rt' = sy_rt s' in
    sy_batch s' = sy_batch s \<and> sy_done s' = (sy_done s)(i := Suc (sy_done s i)) \<and> sy_args s' = sy_args s \<and>
    sy_out s' = on_buffer i (clear_slot (out_slot i (sy_done s i) s)) (sy_out s) \<and>
    sy_control s' = (sy_control s)\<lparr>ct_rt := rt'\<rparr> \<and> sy_index s' = sy_index s \<and> rt_he_qat_buffer rt' = rt_he_qat_buffer rt \<and>
    rt_response_count rt' = rt_response_count rt \<and> rt_request_count rt' = rt_request_count rt \<and>
    rt_allocs rt' = rt_allocs rt \<and> rt_tasks rt' = (rt_tasks rt)(a := None) \<and>
    (\<forall>y. y + 3 < a \<or> a + 3 \<le> y \<longrightarrow> rt_mem rt' y = rt_mem rt y) \<and> (\<forall>y. y \<noteq> Suc a \<longrightarrow> rt_ops rt' y = rt_ops rt y) \<and>
    \<not> waits rt a)"

lemma collectedD:
  assumes "collected i s s'"
  shows "sy_batch s' = sy_batch s" "sy_done s' = (sy_done s)(i := Suc (sy_done s i))" "sy_args s' = sy_args s"
    "sy_out s' = on_buffer i (clear_slot (out_slot i (sy_done s i) s)) (sy_out s)"
    "sy_control s' = (sy_control s)\<lparr>ct_rt := sy_rt s'\<rparr>" "sy_index s' = sy_index s"
    "rt_he_qat_buffer (sy_rt s') = rt_he_qat_buffer (sy_rt s)"
    "rt_response_count (sy_rt s') = rt_response_count (sy_rt s)" "rt_request_count (sy_rt s') = rt_request_count (sy_rt s)"
    "rt_allocs (sy_rt s') = rt_allocs (sy_rt s)"
    "rt_tasks (sy_rt s') = (rt_tasks (sy_rt s))(sy_batch s i ! sy_done s i := None)"
    and "y + 3 < sy_batch s i ! sy_done s i \<or> sy_batch s i ! sy_done s i + 3 \<le> y \<Longrightarrow> rt_mem (sy_rt s') y = rt_mem (sy_rt s) y"
    and "y \<noteq> Suc (sy_batch s i ! sy_done s i) \<Longrightarrow> rt_ops (sy_rt s') y = rt_ops (sy_rt s) y"
    and "\<not> waits (sy_rt s) (sy_batch s i ! sy_done s i)"
  using assms unfolding collected_def Let_def by blast+

lemma collect_effect:
  assumes "sys_inv dev n0 s" "exec_collect i s = Some r" "i \<in> taken (sy_out s)"
  shows "entry s i (sy_done s i) \<and> (\<exists>s'. r = Inr s' \<and> collected i s s')"
proof -
  have lt: "sy_done s i < length (sy_batch s i)" using assms(2) by (auto simp: exec_collect_def split: if_splits)
  then have e: "entry s i (sy_done s i)" using taken_lt [OF assms(3)] by (simp add: entry_def)
  show ?thesis
  proof (rule collect_runs [OF assms(1) e refl assms(2)])
    fix k len q ident st s'
    assume "r = Inr s'" "sy_batch s i ! sy_done s i = k + 3"
      "rt_tasks (sy_rt s) (sy_batch s i ! sy_done s i) =
        Some ((queued_task k len q ident)\<lparr>tk_op_status := st, tk_request_status := HE_QAT_STATUS_READY\<rparr>)"
      "s' = (with_rt ((freed (sy_batch s i ! sy_done s i)
          ((queued_task k len q ident)\<lparr>tk_op_status := st, tk_request_status := HE_QAT_STATUS_READY\<rparr>) (queued_op k len) (sy_rt s))
        \<lparr>rt_outstanding := on_buffer i (clear_slot (out_slot i (sy_done s i) s)) (sy_out s)\<rparr>) s)
        \<lparr>sy_done := (sy_done s)(i := Suc (sy_done s i))\<rparr>"
    then show ?thesis using e by (auto simp: collected_def Let_def freed_def queued_op_def queued_task_def with_rt_def waits_def)
  qed
qed

lemma collected_elems:
  assumes "sys_inv dev n0 s" "collected i s s'" "entry s i (sy_done s i)"
  shows "Some (sy_batch s i ! sy_done s i) \<notin> set (rb_elems (ob_buffer (sy_out s) i))"
    and "rb_elems (ob_buffer (sy_out s') b) = rb_elems (ob_buffer (sy_out s) b)"
proof -
  have i: "i < HE_QAT_BUFFER_COUNT" using assms(3) by (simp add: entry_def)
  have "Some (sy_batch s i ! sy_done s i) \<notin># places s"
    using waiting_place [OF sys_invD(11) [OF assms(1)], of "Some (sy_batch s i ! sy_done s i)"] collectedD(14) [OF assms(2)] by auto
  then show n: "Some (sy_batch s i ! sy_done s i) \<notin> set (rb_elems (ob_buffer (sy_out s) i))" using in_places(1) [OF i] by blast
  have "rb_elems (clear_slot (out_slot i (sy_done s i) s) (ob_buffer (sy_out s) i)) = rb_elems (ob_buffer (sy_out s) i)"
    by (rule clear_slot_elems) (use slots_okD(3) [OF sys_invD(8) [OF assms(1)] assms(3)] n in simp)
  then show "rb_elems (ob_buffer (sy_out s') b) = rb_elems (ob_buffer (sy_out s) b)"
    by (simp add: collectedD(4) [OF assms(2)] on_buffer_def)
qed

lemma collected_buffers:
  assumes "sys_inv dev n0 s" "collected i s s'" "entry s i (sy_done s i)"
  shows "buffers_ok s'" "taken (sy_out s') = taken (sy_out s)" "places s' = places s"
proof -
  note inv = sys_invD [OF assms(1)] and sel = collectedD [OF assms(2)]
  have i: "i < HE_QAT_BUFFER_COUNT" using assms(3) by (simp add: entry_def)
  have c: "ct_device (sy_control s') = ct_device (sy_control s)" "ct_runner (sy_control s') = ct_runner (sy_control s)"
    "ct_scheduler (sy_control s') = ct_scheduler (sy_control s)" by (subst sel(5), simp)+
  let ?f = "clear_slot (out_slot i (sy_done s i) s)"
  have "rb_inv (?f (ob_buffer (sy_out s) i))" using inv(1) i by (simp add: out_inv_def rb_inv_def clear_slot_def)
  then have ob: "out_inv (sy_out s') \<and> taken (sy_out s') = taken (sy_out s)"
    unfolding sel(4) by (rule on_buffer_inv [OF inv(1), where f = ?f and i = i])
  then show "taken (sy_out s') = taken (sy_out s)" by simp
  show "buffers_ok s'"
    using inv(1-6) ob in_flight_frame [of "sy_control s" _ "sy_control s'"] by (simp add: buffers_ok_def sel(6-9) c Let_def)
  show "places s' = places s"
    using client_elems_cong [OF collected_elems(2) [OF assms]] by (simp add: places_def remaining_def sel(6,7) c)
qed

lemma collected_conserved:
  assumes "sys_inv dev n0 s" "collected i s s'" "entry s i (sy_done s i)"
  shows "conserved s'"
  unfolding conserved_def collected_buffers(3) [OF assms]
proof (intro conjI allI)
  note sel = collectedD [OF assms(2)]
  have w: "x \<in> live s' \<and> waits (sy_rt s') x \<longleftrightarrow> x \<in> live s \<and> waits (sy_rt s) x" for x
    using sel(14) by (cases "x = sy_batch s i ! sy_done s i")
      (auto simp: waits_def sel(1,11) live_def collect_entry [OF sel(1,2)])
  show "count (places s) p = (case p of None \<Rightarrow> 0 | Some a \<Rightarrow> if a \<in> live s' \<and> waits (sy_rt s') a then 1 else 0)" for p
    unfolding w using sys_invD(11) [OF assms(1)] by (simp add: conserved_def)
  have "ct_device (sy_control s') = ct_device (sy_control s)" by (subst sel(5)) simp
  then show "\<forall>(a, op, i) \<in> set (ct_device (sy_control s')). op = Some (Suc a)" using sys_invD(7) [OF assms(1)] by simp
qed

lemma collected_requests:
  assumes "sys_inv dev n0 s" "collected i s s'" "entry s i (sy_done s i)"
  shows "requests_ok dev n0 s'"
proof -
  note sel = collectedD [OF assms(2)]
  show ?thesis
    unfolding requests_ok_def collect_entry [OF sel(1,2)] sel(1,3)
  proof (intro allI impI, elim conjE)
    fix b j assume e': "entry s b j" "(b, j) \<noteq> (i, sy_done s i)"
    note o = other_request [OF assms(1,3) refl e' refl]
    have "request_ok dev n0 (sy_rt s) (sy_args s (sy_batch s b ! j)) (sy_batch s b ! j)"
      using sys_invD(9) [OF assms(1)] e'(1) by (simp add: requests_ok_def)
    then show "request_ok dev n0 (sy_rt s') (sy_args s (sy_batch s b ! j)) (sy_batch s b ! j)"
    proof (rule request_ok_frame)
      show "rt_mem (sy_rt s') y = rt_mem (sy_rt s) y" if "y < sy_batch s b ! j + 3"
        "sy_batch s b ! j \<le> y + 3 \<or> y = (case sy_args s (sy_batch s b ! j) of (_, _, _, q) \<Rightarrow> q)" for y
        using o(4) [of y] that by (intro sel(12)) (simp add: output_of_def)
    qed (use o(1,2) in \<open>simp_all add: sel(10,11,13)\<close>)
  qed
qed

lemma collect_inv:
  assumes "sys_inv dev n0 s" "exec_collect i s = Some r" "i \<in> taken (sy_out s)"
  shows "\<exists>s'. r = Inr s' \<and> sys_inv dev n0 s'"
proof -
  note inv = sys_invD [OF assms(1)]
  obtain s' where r: "r = Inr s'" and c: "collected i s s'" and e: "entry s i (sy_done s i)" using collect_effect [OF assms] by blast
  note sel = collectedD [OF c]
  have "slots_ok s'"
    by (rule collect_slots [OF inv(8) taken_lt [OF assms(3)] _ _ collected_elems(2) [OF assms(1) c e]
        collected_elems(1) [OF assms(1) c e] collected_buffers(2) [OF assms(1) c e] assms(3) sel(1,2)])
      (use e in \<open>simp_all add: sel(4) on_buffer_def entry_def\<close>)
  moreover have "apart s'"
    using inv(10) unfolding apart_def collect_entry [OF sel(1,2)] sel(1) output_of_def sel(3) by blast
  ultimately have "sys_inv dev n0 s'"
    using inv(12) collected_buffers(1) [OF assms(1) c e] collected_conserved [OF assms(1) c e] collected_requests [OF assms(1) c e]
    by (simp add: sys_inv_def sel(10))
  then show ?thesis using r by blast
qed


text \<open>Submitting a request: the buffer has room, since its queue holds requests of the batch only.\<close>

lemma places_once:
  assumes "conserved s"
  shows "count (places s) p \<le> 1"
  using assms by (auto simp: conserved_def split: option.splits)

lemma room_left:
  assumes "sys_inv dev n0 s" "i < HE_QAT_BUFFER_COUNT"
  shows "rb_count (ob_buffer (sy_out s) i) \<le> length (sy_batch s i)"
proof -
  let ?b = "ob_buffer (sy_out s) i"
  have "mset (rb_elems ?b) \<subseteq># client_elems (sy_out s)"
    unfolding client_elems_def using assms(2) by (simp add: sum.remove [of "{..< HE_QAT_BUFFER_COUNT}" i])
  then have "mset (rb_elems ?b) \<subseteq># places s" by (simp add: places_def subset_mset.add_increasing2 add.assoc)
  then have "count (mset (rb_elems ?b)) p \<le> 1" for p
    using places_once [OF sys_invD(11) [OF assms(1)], of p] by (meson le_trans mset_subset_eq_count)
  then have d: "distinct (rb_elems ?b)" unfolding distinct_count_atmost_1 by (metis count_mset_0_iff le_antisym less_one linorder_not_less not_in_iff set_mset_mset)
  have "set (rb_elems ?b) \<subseteq> Some ` set (sy_batch s i)"
    using slots_okD(4) [OF sys_invD(8) [OF assms(1)] assms(2)] by (fastforce simp: entry_def)
  then have "card (set (rb_elems ?b)) \<le> length (sy_batch s i)"
    by (metis card_image_le card_length card_mono finite_imageI finite_set le_trans)
  then show ?thesis using distinct_card [OF d] by simp
qed

lemma submit_keeps:
  assumes "submit_request x b = Some b'"
  shows "b' = b\<lparr>rb_data := (rb_data b)(rb_next_free_slot b := x), rb_next_free_slot := ring_next (rb_next_free_slot b),
    rb_count := rb_count b'\<rparr>"
  using assms by (auto simp: submit_request_def split: if_splits)

text \<open>The ring of the client's buffer: one more slot is in use, the next one.\<close>

lemma submit_ring:
  assumes "slots_ok s" "i < HE_QAT_BUFFER_COUNT" "submit_request (Some a) (ob_buffer (sy_out s) i) = Some b'"
    and "ob_buffer (sy_out s') = (ob_buffer (sy_out s))(i := b')"
  shows "out_slot b j s' = out_slot b j s"
    and "rb_next_data_out (ob_buffer (sy_out s') b) = rb_next_data_out (ob_buffer (sy_out s) b)"
    and "rb_next_free_slot b' = out_slot i (Suc (length (sy_batch s i))) s"
    and "rb_data b' = (rb_data (ob_buffer (sy_out s) i))(out_slot i (length (sy_batch s i)) s := Some a)"
proof -
  note k = submit_keeps [OF assms(3)]
  have fr: "rb_next_free_slot (ob_buffer (sy_out s) i) = out_slot i (length (sy_batch s i)) s" using slots_okD(1) [OF assms(1,2)] by simp
  have o: "rb_next_data_out b' = rb_next_data_out (ob_buffer (sy_out s) i)" by (subst k, simp)
  show "out_slot b j s' = out_slot b j s" by (simp add: out_slot_def assms(4) o)
  show "rb_next_data_out (ob_buffer (sy_out s') b) = rb_next_data_out (ob_buffer (sy_out s) b)" by (simp add: assms(4) o)
  have "rb_next_free_slot b' = ring_next (rb_next_free_slot (ob_buffer (sy_out s) i))" by (subst k, simp)
  then show "rb_next_free_slot b' = out_slot i (Suc (length (sy_batch s i))) s" unfolding fr by (simp add: out_slot_def ring_next_mod)
  show "rb_data b' = (rb_data (ob_buffer (sy_out s) i))(out_slot i (length (sy_batch s i)) s := Some a)"
    unfolding fr [symmetric] by (subst k, simp)
qed

lemma submit_slots:
  assumes "slots_ok s" "i \<in> taken (sy_out s)" "sy_done s i = 0" "length (sy_batch s i) < HE_QAT_BUFFER_SIZE"
    and b': "rb_inv (ob_buffer (sy_out s) i)" "submit_request (Some a) (ob_buffer (sy_out s) i) = Some b'"
    and ob: "ob_buffer (sy_out s') = (ob_buffer (sy_out s))(i := b')" and tk: "taken (sy_out s') = taken (sy_out s)"
    and bd: "sy_batch s' = (sy_batch s)(i := sy_batch s i @ [a])" "sy_done s' = sy_done s"
  shows "slots_ok s'"
proof -
  note S = slots_okD [OF assms(1)]
  have i: "i < HE_QAT_BUFFER_COUNT" by (rule taken_lt [OF assms(2)])
  note el = submit_request_ok [OF b'] and R = submit_ring [OF assms(1) i b'(2) ob]
  let ?n = "length (sy_batch s i)"
  have en: "entry s' b j \<longleftrightarrow> entry s b j \<or> b = i \<and> j = ?n" for b j
    using i assms(3) by (auto simp: entry_def bd)
  have ne: "out_slot i j s \<noteq> out_slot i ?n s" if "j < ?n" for j
    using ring_distinct [of "rb_next_data_out (ob_buffer (sy_out s) i)" j HE_QAT_BUFFER_SIZE ?n] that assms(4)
    by (auto simp: out_slot_def)
  have bt: "sy_batch s' b ! j = sy_batch s b ! j" if "entry s b j" for b j
    using that by (auto simp: entry_def bd nth_append)
  show ?thesis
    unfolding slots_ok_def R(1,2)
  proof (intro conjI allI impI)
    fix b assume b: "b < HE_QAT_BUFFER_COUNT"
    show "rb_next_data_out (ob_buffer (sy_out s) b) < HE_QAT_BUFFER_SIZE" "sy_done s' b \<le> length (sy_batch s' b)"
      "length (sy_batch s' b) \<le> HE_QAT_BUFFER_SIZE"
      "rb_next_free_slot (ob_buffer (sy_out s') b) = out_slot b (length (sy_batch s' b)) s"
      using S(1) [OF b] assms(3,4) R(3) by (auto simp: ob bd)
    show "sy_batch s' b = []" "sy_done s' b = 0" if "b \<notin> taken (sy_out s')"
      using S(2) [OF b] that assms(2) tk by (auto simp: bd)
  next
    fix b j assume "entry s' b j"
    then consider "b = i" "j = ?n" | "entry s b j" "b = i \<Longrightarrow> j < ?n" using en by (auto simp: entry_def)
    then show "rb_data (ob_buffer (sy_out s') b) (out_slot b j s) = Some (sy_batch s' b ! j)"
    proof cases
      case 2
      then show ?thesis using S(3) [OF 2(1)] ne [of j] unfolding bt [OF 2(1)] by (cases "b = i") (simp_all add: ob R(4))
    qed (simp add: ob bd R(4))
  next
    fix b p assume bp: "b < HE_QAT_BUFFER_COUNT \<and> p \<in> set (rb_elems (ob_buffer (sy_out s') b))"
    then consider "p \<in> set (rb_elems (ob_buffer (sy_out s) b))" | "b = i" "p = Some a" using el by (auto simp: ob split: if_splits)
    then show "\<exists>j. entry s' b j \<and> p = Some (sy_batch s' b ! j)"
    proof cases
      case 1
      then obtain j where "entry s b j" "p = Some (sy_batch s b ! j)" using S(4) [of b p] bp by blast
      then show ?thesis using en bt by metis
    qed (intro exI [of _ ?n], simp add: en bd)
  qed
qed


lemma submit_returns:
  assumes "sys_inv dev n0 s" "allowed E n0 (Submit i r b e m nbits) s"
  obtains b' where "submit_request (Some (rt_allocs (sy_rt s) + 3)) (ob_buffer (sy_out s) i) = Some b'"
    "let len = (nbits + 7) div 2 ^ 3; old = sy_rt s in HE_QAT_bnModExp_MT E i r b e m nbits old =
      Some (Inr HE_QAT_STATUS_SUCCESS,
        (with_request E len r (rt_mt_ids old) (bytes_at old b len) (bytes_at old e len) (bytes_at old m len) old)
          \<lparr>rt_mt_ids := ull_inc (rt_mt_ids old), rt_outstanding := on_buffer i (\<lambda>_. b') (sy_out s)\<rparr>)"
proof -
  let ?rt = "sy_rt s" and ?len = "(nbits + 7) div 2 ^ 3"
  have al: "i \<in> taken (sy_out s)" "length (sy_batch s i) < HE_QAT_BUFFER_SIZE" "allocs_ok E ?rt 6" "r \<noteq> None"
    "operand ?rt b ?len (bytes_at ?rt b ?len)" "operand ?rt e ?len (bytes_at ?rt e ?len)" "operand ?rt m ?len (bytes_at ?rt m ?len)"
    using assms(2) by (auto simp: Let_def)
  have i: "i < HE_QAT_BUFFER_COUNT" by (rule taken_lt [OF al(1)])
  have "rb_count (ob_buffer (sy_out s) i) < HE_QAT_BUFFER_SIZE" using room_left [OF assms(1) i] al(2) by simp
  then have "submit_request (Some (rt_allocs ?rt + 3)) (ob_buffer (sy_out s) i) \<noteq> None" by (simp add: submit_request_None)
  then obtain b' where b': "submit_request (Some (rt_allocs ?rt + 3)) (ob_buffer (sy_out s) i) = Some b'" by blast
  show thesis by (rule that [OF b']) (use bnModExp_MT_ok [OF al(3) i al(4-7) refl b'] in \<open>simp add: Let_def\<close>)
qed

lemma submit_enabled:
  assumes "sys_inv dev n0 s" "allowed E n0 (Submit i r b e m nbits) s"
  shows "exec d E (Submit i r b e m nbits) s \<noteq> None"
  by (rule submit_returns [OF assms]) (simp add: exec_submit_def Let_def)

text \<open>What a submission changes: the new request is the address \<open>a\<close>.\<close>

definition submitted :: "device \<Rightarrow> nat \<Rightarrow> nat \<Rightarrow> u8 list \<times> u8 list \<times> u8 list \<times> nat \<Rightarrow> sys \<Rightarrow> sys \<Rightarrow> bool" where
  "submitted dev n0 i args s s' \<longleftrightarrow> (let a = rt_allocs (sy_rt s) + 3; c = sy_control s; c' = sy_control s' in
    sy_batch s' = (sy_batch s)(i := sy_batch s i @ [a]) \<and> sy_done s' = sy_done s \<and> sy_args s' = (sy_args s)(a := args) \<and>
    rt_allocs (ct_rt c') = rt_allocs (ct_rt c) + 6 \<and> (\<forall>x. x \<noteq> a \<longrightarrow> rt_tasks (ct_rt c') x = rt_tasks (ct_rt c) x) \<and>
    (\<forall>x < rt_allocs (ct_rt c). rt_mem (ct_rt c') x = rt_mem (ct_rt c) x \<and> rt_ops (ct_rt c') x = rt_ops (ct_rt c) x) \<and>
    (\<exists>b'. submit_request (Some a) (ob_buffer (sy_out s) i) = Some b' \<and> sy_out s' = on_buffer i (\<lambda>_. b') (sy_out s)) \<and>
    c' = c\<lparr>ct_rt := ct_rt c'\<rparr> \<and> sy_index s' = sy_index s \<and> rt_he_qat_buffer (ct_rt c') = rt_he_qat_buffer (ct_rt c) \<and>
    rt_response_count (ct_rt c') = rt_response_count (ct_rt c) \<and> rt_request_count (ct_rt c') = rt_request_count (ct_rt c) \<and>
    request_ok dev n0 (ct_rt c') args a \<and> waits (ct_rt c') a)"

lemma submittedD:
  assumes "submitted dev n0 i args s s'"
  shows "sy_batch s' = (sy_batch s)(i := sy_batch s i @ [rt_allocs (sy_rt s) + 3])" "sy_done s' = sy_done s"
    "sy_args s' = (sy_args s)(rt_allocs (sy_rt s) + 3 := args)" "rt_allocs (sy_rt s') = rt_allocs (sy_rt s) + 6"
    "x \<noteq> rt_allocs (sy_rt s) + 3 \<Longrightarrow> rt_tasks (sy_rt s') x = rt_tasks (sy_rt s) x"
    "x < rt_allocs (sy_rt s) \<Longrightarrow> rt_mem (sy_rt s') x = rt_mem (sy_rt s) x"
    "x < rt_allocs (sy_rt s) \<Longrightarrow> rt_ops (sy_rt s') x = rt_ops (sy_rt s) x"
    "sy_control s' = (sy_control s)\<lparr>ct_rt := sy_rt s'\<rparr>" "sy_index s' = sy_index s"
    "rt_he_qat_buffer (sy_rt s') = rt_he_qat_buffer (sy_rt s)"
    "rt_response_count (sy_rt s') = rt_response_count (sy_rt s)" "rt_request_count (sy_rt s') = rt_request_count (sy_rt s)"
    "request_ok dev n0 (sy_rt s') args (rt_allocs (sy_rt s) + 3)" "waits (sy_rt s') (rt_allocs (sy_rt s) + 3)"
    and "\<exists>b'. submit_request (Some (rt_allocs (sy_rt s) + 3)) (ob_buffer (sy_out s) i) = Some b' \<and>
      sy_out s' = on_buffer i (\<lambda>_. b') (sy_out s)"
  using assms unfolding submitted_def Let_def by blast+

lemma submit_effect:
  assumes "sys_inv dev n0 s" "allowed E n0 (Submit i r b e m nbits) s" "exec_submit E i r b e m nbits s = Some res"
  shows "\<exists>s'. res = Inr s' \<and> submitted dev n0 i (let len = (nbits + 7) div 2 ^ 3; old = sy_rt s in
    (bytes_at old b len, bytes_at old e len, bytes_at old m len, the r)) s s'"
proof (rule submit_returns [OF assms(1,2)])
  let ?rt = "sy_rt s" and ?len = "(nbits + 7) div 2 ^ 3" and ?a = "rt_allocs (sy_rt s) + 3"
  let ?bs = "bytes_at ?rt b ?len" and ?es = "bytes_at ?rt e ?len" and ?ms = "bytes_at ?rt m ?len"
  obtain q old where q: "r = Some q" "q < n0" "rt_mem ?rt q = Some old" "?len \<le> length old"
    and o: "operand ?rt b ?len ?bs" "operand ?rt e ?len ?es" "operand ?rt m ?len ?ms"
    using assms(2) by (auto simp: Let_def)
  have l: "length ?bs = ?len" "length ?es = ?len" "length ?ms = ?len"
    using o unfolding operand_def by (metis length_take min.absorb2)+
  fix b' assume b': "submit_request (Some ?a) (ob_buffer (sy_out s) i) = Some b'"
  let ?rt' = "(with_request E ?len r (rt_mt_ids ?rt) ?bs ?es ?ms ?rt)
    \<lparr>rt_mt_ids := ull_inc (rt_mt_ids ?rt), rt_outstanding := on_buffer i (\<lambda>_. b') (sy_out s)\<rparr>"
  let ?s' = "(with_rt ?rt' s)\<lparr>sy_batch := (sy_batch s)(i := sy_batch s i @ [?a]),
    sy_args := (sy_args s)(?a := (?bs, ?es, ?ms, q))\<rparr>"
  assume run: "let len = ?len; old = ?rt in HE_QAT_bnModExp_MT E i r b e m nbits old = Some (Inr HE_QAT_STATUS_SUCCESS,
    (with_request E len r (rt_mt_ids old) (bytes_at old b len) (bytes_at old e len) (bytes_at old m len) old)
      \<lparr>rt_mt_ids := ull_inc (rt_mt_ids old), rt_outstanding := on_buffer i (\<lambda>_. b') (sy_out s)\<rparr>)"
  have "res = Inr ?s'" using run assms(3) q(1) by (simp add: exec_submit_def Let_def)
  moreover have "request_ok dev n0 ?rt' (?bs, ?es, ?ms, q) ?a"
    unfolding request_ok_def using q sys_invD(12) [OF assms(1)] l
    by (auto simp: with_request_def queued_task_def queued_op_def Let_def)
  then have "submitted dev n0 i (?bs, ?es, ?ms, q) s ?s'"
    unfolding submitted_def Let_def using b'
    by (simp add: with_request_def queued_task_def waits_def Let_def with_rt_def)
  ultimately show ?thesis using q(1) by (simp add: Let_def)
qed

lemma submitted_entries:
  assumes "sys_inv dev n0 s" "submitted dev n0 i args s s'" "i \<in> taken (sy_out s)" "sy_done s i = 0"
  shows "entry s' b j \<longleftrightarrow> entry s b j \<or> b = i \<and> j = length (sy_batch s i)"
    and "entry s b j \<Longrightarrow> sy_batch s' b ! j = sy_batch s b ! j"
    and "sy_batch s' i ! length (sy_batch s i) = rt_allocs (sy_rt s) + 3"
    and "entry s b j \<Longrightarrow> sy_batch s b ! j + 3 \<le> rt_allocs (sy_rt s)"
proof -
  note bd = submittedD(1,2) [OF assms(2)]
  show "entry s' b j \<longleftrightarrow> entry s b j \<or> b = i \<and> j = length (sy_batch s i)"
    using taken_lt [OF assms(3)] assms(4) by (auto simp: entry_def bd)
  show "sy_batch s' b ! j = sy_batch s b ! j" if "entry s b j" using that by (auto simp: entry_def bd nth_append)
  show "sy_batch s' i ! length (sy_batch s i) = rt_allocs (sy_rt s) + 3" by (simp add: bd)
  show "sy_batch s b ! j + 3 \<le> rt_allocs (sy_rt s)" if "entry s b j"
    by (rule request_of [OF sys_invD(9) [OF assms(1)] that refl]) simp
qed

lemma submitted_live:
  assumes "sys_inv dev n0 s" "submitted dev n0 i args s s'" "i \<in> taken (sy_out s)" "sy_done s i = 0"
  shows "live s' = insert (rt_allocs (sy_rt s) + 3) (live s)" "rt_allocs (sy_rt s) + 3 \<notin> live s"
    and "a \<in> live s \<Longrightarrow> output_of s' a = output_of s a" "output_of s' (rt_allocs (sy_rt s) + 3) = snd (snd (snd args))"
proof -
  note en = submitted_entries [OF assms]
  show "live s' = insert (rt_allocs (sy_rt s) + 3) (live s)"
    unfolding live_def en(1) using en(2,3) by (auto simp: image_iff) metis+
  show n: "rt_allocs (sy_rt s) + 3 \<notin> live s" using en(4) by (force simp: live_def)
  show "output_of s' a = output_of s a" if "a \<in> live s" using that n by (auto simp: output_of_def submittedD(3) [OF assms(2)])
  show "output_of s' (rt_allocs (sy_rt s) + 3) = snd (snd (snd args))"
    by (simp add: output_of_def submittedD(3) [OF assms(2)] split: prod.split)
qed

lemma submitted_buffers:
  assumes "sys_inv dev n0 s" "submitted dev n0 i args s s'" "i \<in> taken (sy_out s)"
  shows "buffers_ok s'" "taken (sy_out s') = taken (sy_out s)" "places s' = add_mset (Some (rt_allocs (sy_rt s) + 3)) (places s)"
proof -
  note inv = sys_invD [OF assms(1)] and sel = submittedD(8-12) [OF assms(2)]
  obtain b' where b': "submit_request (Some (rt_allocs (sy_rt s) + 3)) (ob_buffer (sy_out s) i) = Some b'"
    and o: "sy_out s' = on_buffer i (\<lambda>_. b') (sy_out s)" using submittedD(15) [OF assms(2)] by blast
  have i: "i < HE_QAT_BUFFER_COUNT" by (rule taken_lt [OF assms(3)])
  then have "rb_inv (ob_buffer (sy_out s) i)" using inv(1) by (simp add: out_inv_def)
  note el = submit_request_ok [OF this b']
  have ob: "out_inv (sy_out s') \<and> taken (sy_out s') = taken (sy_out s)"
    unfolding o by (rule on_buffer_inv [OF inv(1)]) (use el in simp)
  have c: "ct_device (sy_control s') = ct_device (sy_control s)" "ct_runner (sy_control s') = ct_runner (sy_control s)"
    "ct_scheduler (sy_control s') = ct_scheduler (sy_control s)" by (subst sel(1), simp)+
  show "buffers_ok s'"
    using inv(1-6) ob in_flight_frame [of "sy_control s" _ "sy_control s'"] by (simp add: buffers_ok_def sel(2-) c Let_def)
  show "taken (sy_out s') = taken (sy_out s)" using ob by simp
  show "places s' = add_mset (Some (rt_allocs (sy_rt s) + 3)) (places s)"
    using client_elems_on_buffer [OF i, of "\<lambda>_. b'" "sy_out s"] el by (simp add: places_def remaining_def sel(2-) c o)
qed

lemma submitted_conserved:
  assumes "sys_inv dev n0 s" "submitted dev n0 i args s s'" "i \<in> taken (sy_out s)" "sy_done s i = 0"
  shows "conserved s'"
  unfolding conserved_def submitted_buffers(3) [OF assms(1-3)]
proof (intro conjI allI)
  let ?a = "rt_allocs (sy_rt s) + 3"
  note lv = submitted_live [OF assms]
  have w: "waits (sy_rt s') ?a" "x \<noteq> ?a \<Longrightarrow> waits (sy_rt s') x = waits (sy_rt s) x" for x
    using submittedD(5,14) [OF assms(2)] by (simp_all add: waits_def)
  fix p
  have "count (places s) p = (case p of None \<Rightarrow> 0 | Some a \<Rightarrow> if a \<in> live s \<and> waits (sy_rt s) a then 1 else 0)"
    using sys_invD(11) [OF assms(1)] unfolding conserved_def by blast
  then show "count (add_mset (Some ?a) (places s)) p =
      (case p of None \<Rightarrow> 0 | Some a \<Rightarrow> if a \<in> live s' \<and> waits (sy_rt s') a then 1 else 0)"
    using w lv(2) by (cases p) (auto simp: lv(1))
next
  have "ct_device (sy_control s') = ct_device (sy_control s)" by (subst submittedD(8) [OF assms(2)]) simp
  then show "\<forall>(a, op, i) \<in> set (ct_device (sy_control s')). op = Some (Suc a)" using sys_invD(7) [OF assms(1)] by simp
qed

lemma submitted_requests:
  assumes "sys_inv dev n0 s" "submitted dev n0 i args s s'" "i \<in> taken (sy_out s)" "sy_done s i = 0"
  shows "requests_ok dev n0 s'"
  unfolding requests_ok_def submitted_entries(1) [OF assms]
proof (intro allI impI, elim disjE)
  note en = submitted_entries [OF assms] and sel = submittedD [OF assms(2)]
  fix b j
  assume e: "entry s b j"
  let ?x = "sy_batch s b ! j"
  have "request_ok dev n0 (sy_rt s) (sy_args s ?x) ?x" using sys_invD(9) [OF assms(1)] e by (simp add: requests_ok_def)
  then have "request_ok dev n0 (sy_rt s') (sy_args s ?x) ?x"
  proof (rule request_ok_frame)
    show "rt_mem (sy_rt s') y = rt_mem (sy_rt s) y" if "y < ?x + 3" for y using that en(4) [OF e] by (intro sel(6)) simp
    show "rt_tasks (sy_rt s') ?x = rt_tasks (sy_rt s) ?x" "rt_ops (sy_rt s') (Suc ?x) = rt_ops (sy_rt s) (Suc ?x)"
      using en(4) [OF e] by (simp_all add: sel(5,7))
  qed (simp add: sel(4))
  then show "request_ok dev n0 (sy_rt s') (sy_args s' (sy_batch s' b ! j)) (sy_batch s' b ! j)"
    using en(2,4) [OF e] by (simp add: sel(3))
next
  fix b j assume "b = i \<and> j = length (sy_batch s i)"
  then show "request_ok dev n0 (sy_rt s') (sy_args s' (sy_batch s' b ! j)) (sy_batch s' b ! j)"
    using submittedD(3,13) [OF assms(2)] submitted_entries(3) [OF assms] by simp
qed

lemma submitted_apart:
  assumes "sys_inv dev n0 s" "submitted dev n0 i args s s'" "i \<in> taken (sy_out s)" "sy_done s i = 0"
    and fresh: "\<And>a. a \<in> live s \<Longrightarrow> output_of s a \<noteq> snd (snd (snd args))"
  shows "apart s'"
proof -
  let ?a = "rt_allocs (sy_rt s) + 3" and ?n = "length (sy_batch s i)"
  note en = submitted_entries [OF assms(1-4)] and lv = submitted_live [OF assms(1-4)]
  have l: "sy_batch s b ! j \<in> live s" if "entry s b j" for b j using that by (auto simp: live_def)
  have two: "(x + 6 \<le> y \<or> y + 6 \<le> x) \<and> output_of s' x \<noteq> output_of s' y"
    if "entry s b j \<and> x = sy_batch s b ! j \<or> (b, j) = (i, ?n) \<and> x = ?a"
      "entry s c l \<and> y = sy_batch s c ! l \<or> (c, l) = (i, ?n) \<and> y = ?a" "(b, j) \<noteq> (c, l)" for b j c l x y
    using that
  proof (elim disjE conjE)
    assume e: "entry s b j" "entry s c l" "x = sy_batch s b ! j" "y = sy_batch s c ! l"
    then show ?thesis
      using sys_invD(10) [OF assms(1)] that(3) unfolding apart_def Let_def e(3,4) lv(3) [OF l [OF e(1)]] lv(3) [OF l [OF e(2)]]
      by blast
  next
    assume e: "entry s b j" "x = sy_batch s b ! j" "y = ?a"
    then show ?thesis using en(4) [OF e(1)] fresh [OF l [OF e(1)]] unfolding e(2,3) lv(3) [OF l [OF e(1)]] lv(4) by simp
  next
    assume e: "entry s c l" "y = sy_batch s c ! l" "x = ?a"
    then show ?thesis using en(4) [OF e(1)] fresh [OF l [OF e(1)]] unfolding e(2,3) lv(3) [OF l [OF e(1)]] lv(4) by auto
  qed simp
  have one: "entry s b j \<and> sy_batch s' b ! j = sy_batch s b ! j \<or> (b, j) = (i, ?n) \<and> sy_batch s' b ! j = ?a"
    if "entry s' b j" for b j using that en(2) [of b j] en(3) unfolding en(1) by auto
  show ?thesis unfolding apart_def Let_def by (intro allI impI, elim conjE) (rule two [OF one one])
qed

lemma submit_inv:
  assumes "sys_inv dev n0 s" "allowed E n0 (Submit i r b e m nbits) s" "exec_submit E i r b e m nbits s = Some res"
  shows "\<exists>s'. res = Inr s' \<and> sys_inv dev n0 s'"
proof -
  let ?args = "let len = (nbits + 7) div 2 ^ 3; old = sy_rt s in (bytes_at old b len, bytes_at old e len, bytes_at old m len, the r)"
  obtain s' where s': "res = Inr s'" "submitted dev n0 i ?args s s'" using submit_effect [OF assms] by blast
  have al: "i \<in> taken (sy_out s)" "sy_done s i = 0" "length (sy_batch s i) < HE_QAT_BUFFER_SIZE"
    and fo: "\<And>a. a \<in> live s \<Longrightarrow> output_of s a \<noteq> snd (snd (snd ?args))"
    using assms(2) by (auto simp: Let_def live_def)
  obtain b' where b': "submit_request (Some (rt_allocs (sy_rt s) + 3)) (ob_buffer (sy_out s) i) = Some b'"
    and o: "sy_out s' = on_buffer i (\<lambda>_. b') (sy_out s)" using submittedD(15) [OF s'(2)] by blast
  have ri: "rb_inv (ob_buffer (sy_out s) i)" using sys_invD(1) [OF assms(1)] taken_lt [OF al(1)] by (simp add: out_inv_def)
  have "slots_ok s'"
    by (rule submit_slots [OF sys_invD(8) [OF assms(1)] al ri b' _ _ submittedD(1,2) [OF s'(2)]])
      (use submitted_buffers(2) [OF assms(1) s'(2) al(1)] in \<open>simp_all add: o on_buffer_def\<close>)
  then have "sys_inv dev n0 s'"
    using submitted_buffers(1) [OF assms(1) s'(2) al(1)] submitted_requests [OF assms(1) s'(2) al(1,2)]
      submitted_apart [OF assms(1) s'(2) al(1,2) fo] submitted_conserved [OF assms(1) s'(2) al(1,2)]
      submittedD(4) [OF s'(2)] sys_invD(12) [OF assms(1)] unfolding sys_inv_def by simp
  then show ?thesis using s'(1) by blast
qed


section \<open>Reachable states\<close>

lemma exec_config:
  assumes "exec dev E a s = Some (Inr s')" "sys_inv dev n0 s"
  shows "ct_config (sy_control s') = ct_config (sy_control s)"
proof (cases a)
  case Read
  have "ct_config c' = ct_config (sy_control s)" if "process_read (sy_control s) = Some c'" for c'
    using that by (auto simp: process_read_def split: if_splits option.splits)
  then show ?thesis using assms(1) Read by (auto simp: exec_read_def Let_def split: if_splits option.splits)
next
  case (Offload st)
  have "ct_config c' = ct_config (sy_control s)" if "offload st i (sy_control s) = Inr c'" for i c'
    using that by (auto simp: offload_def Let_def split: if_splits option.splits)
  then show ?thesis
    using assms(1) Offload
    by (cases "offload st (sy_index s) (sy_control s)") (auto simp: exec_offload_def next_request_def Let_def split: if_splits)
next
  case (Respond k st)
  have "ct_config c' = ct_config (sy_control s)" if "respond dev st k (sy_control s) = Some (Inr c')" for c'
    using that unfolding respond_def by (auto split: prod.splits option.splits sum.splits)
  moreover obtain z where "respond dev st k (sy_control s) = Some z" "bindR z (\<lambda>c. Inr (s\<lparr>sy_control := c\<rparr>)) = Inr s'"
    using assms(1) Respond by (auto simp: exec_respond_def split: if_splits)
  ultimately show ?thesis by (cases z) (auto simp: bindR_def)
qed (use assms(1) in \<open>auto simp: exec_acquire_def exec_submit_def exec_collect_def exec_finish_def exec_pull_def exec_forward_def
    schedule_pull_def schedule_submit_def Let_def split: if_splits option.splits sum.splits prod.splits\<close>)

lemma exec_inv:
  assumes "device_ok dev" "sys_inv dev n0 s" "ct_config (sy_control s) \<noteq> None" "allowed E n0 a s" "exec dev E a s = Some r"
  shows "\<exists>s'. r = Inr s' \<and> sys_inv dev n0 s' \<and> ct_config (sy_control s') \<noteq> None"
proof -
  have "\<exists>s'. r = Inr s' \<and> sys_inv dev n0 s'"
  proof (cases a)
    case (Submit i r b e m n)
    then show ?thesis using submit_inv [of dev n0 s E i r b e m n] assms by simp
  qed (use assms acquire_inv collect_inv finish_inv pull_inv forward_inv read_inv offload_inv respond_inv in \<open>fastforce+\<close>)
  then show ?thesis using exec_config [OF _ assms(2)] assms(3,5) by metis
qed

lemma init_inv:
  assumes "sys_init n0 s"
  shows "sys_inv dev n0 s"
proof -
  have i: "n0 \<le> rt_allocs (sy_rt s)" "out_inv (sy_out s)" "taken (sy_out s) = {}"
    "\<And>b. b < HE_QAT_BUFFER_COUNT \<Longrightarrow> rb_count (ob_buffer (sy_out s) b) = 0 \<and>
      rb_next_data_out (ob_buffer (sy_out s) b) = rb_next_free_slot (ob_buffer (sy_out s) b)"
    "rb_inv (rt_he_qat_buffer (sy_rt s))" "rb_count (rt_he_qat_buffer (sy_rt s)) = 0"
    "tl_count (ct_scheduler (sy_control s)) = 0" "tl_count (ct_runner (sy_control s)) = 0" "sy_index s = 0"
    "ct_device (sy_control s) = []" "rt_request_count (sy_rt s) = rt_response_count (sy_rt s)"
    "rt_response_count (sy_rt s) < 2 ^ 64" "sy_batch s = (\<lambda>_. [])" "sy_done s = (\<lambda>_. 0)"
    using assms by (auto simp: sys_init_def Let_def)
  have e: "\<not> entry s b j" for b j by (simp add: entry_def i)
  have "client_elems (sy_out s) = {#}" unfolding client_elems_def by (rule sum.neutral) (simp add: i(4) rb_elems_def)
  then have p: "places s = {#}" by (simp add: places_def remaining_def tl_elems_def rb_elems_def i)
  have fl: "in_flight_ok (sy_control s) 0"
    unfolding in_flight_ok_def by (simp add: i(10,11)) (rule exI [of _ "rt_response_count (sy_rt s)"], use i(12) in simp)
  have "buffers_ok s" using i fl by (simp add: buffers_ok_def Let_def)
  moreover have "slots_ok s"
  proof -
    have "rb_next_free_slot (ob_buffer (sy_out s) b) < HE_QAT_BUFFER_SIZE" if "b < HE_QAT_BUFFER_COUNT" for b
      using i(2) that by (simp add: out_inv_def rb_inv_def qat_consts)
    then show ?thesis using i(4) unfolding slots_ok_def by (auto simp: e i(13,14) out_slot_def rb_elems_def)
  qed
  moreover have "conserved s" unfolding conserved_def p by (simp add: live_def e i(10) split: option.splits)
  ultimately show ?thesis using i(1) by (simp add: sys_inv_def requests_ok_def apart_def e)
qed

lemma reach_inv:
  assumes "reach dev E n0 s" "device_ok dev"
  shows "sys_inv dev n0 s \<and> ct_config (sy_control s) \<noteq> None"
  using assms(1)
proof (induction rule: reach.induct)
  case (start s)
  then show ?case using init_inv by (simp add: sys_init_def Let_def)
next
  case (act s a s')
  then show ?case using exec_inv [OF assms(2)] by blast
qed

end
