(* ===== verification/QatProgress.thy ===== *)
theory QatProgress
  imports QatInvariant
begin

text \<open>
  The threads finish their work. If the threads run and the accelerator accepts and answers what it
  is offered, every step of a thread takes a request nearer to its answer, some thread has a step
  as long as a request waits, and then every client can release its buffer. The last section shows
  that the actions are a division of the code's functions: run one after the other they are these.
\<close>

section \<open>Work\<close>

definition running :: "sys \<Rightarrow> bool" where
  "running s \<longleftrightarrow> ct_context (sy_control s) \<noteq> HE_QAT_STATUS_INACTIVE \<and> \<not> ct_halted (sy_control s) \<and>
    (\<exists>cf. ct_config (sy_control s) = Some cf \<and> cf_running cf \<noteq> 0)"

text \<open>The threads' actions with an accelerator that reports no error.\<close>

fun thread_action :: "action \<Rightarrow> bool" where
  "thread_action Pull \<longleftrightarrow> True"
| "thread_action Forward \<longleftrightarrow> True"
| "thread_action Read \<longleftrightarrow> True"
| "thread_action (Offload status) \<longleftrightarrow> status = CPA_STATUS_SUCCESS"
| "thread_action (Respond k status) \<longleftrightarrow> status = CPA_STATUS_SUCCESS"
| "thread_action _ \<longleftrightarrow> False"

fun_cases thread_actionE: "thread_action a"

text \<open>An action that has an effect: the scheduler also runs idle.\<close>

definition work :: "device \<Rightarrow> qat_env \<Rightarrow> sys \<Rightarrow> sys \<Rightarrow> bool" where
  "work dev E s s' \<longleftrightarrow> (\<exists>a. thread_action a \<and> exec dev E a s = Some (Inr s') \<and> s' \<noteq> s)"

text \<open>How many steps the requests have before them.\<close>

definition load :: "sys \<Rightarrow> nat" where
  "load s = 5 * size (client_elems (sy_out s)) + 4 * tl_count (ct_scheduler (sy_control s)) +
    3 * rb_count (rt_he_qat_buffer (sy_rt s)) + 2 * length (remaining s) + length (ct_device (sy_control s))"

lemma load_places: "load s = 0 \<longleftrightarrow> places s = {#}"
proof -
  have "size (places s) = size (client_elems (sy_out s)) + tl_count (ct_scheduler (sy_control s)) +
    rb_count (rt_he_qat_buffer (sy_rt s)) + length (remaining s) + length (ct_device (sy_control s))"
    by (simp add: places_def)
  then show ?thesis unfolding size_eq_0_iff_empty [symmetric] load_def by simp
qed

definition answered :: "runtime \<Rightarrow> nat \<Rightarrow> bool" where
  "answered rt a \<longleftrightarrow> (\<exists>t. rt_tasks rt a = Some t \<and> tk_request_status t = HE_QAT_STATUS_READY)"

section \<open>Every step of work reduces the load\<close>

text \<open>What the lemmas on the threads' actions say together.\<close>

definition worked :: "device \<Rightarrow> nat \<Rightarrow> sys \<Rightarrow> sys \<Rightarrow> bool" where
  "worked dev n0 s s' \<longleftrightarrow> load s' < load s \<and> running s' \<and> sys_inv dev n0 s' \<and> same_clients s s' \<and>
    taken (sy_out s') = taken (sy_out s) \<and>
    (\<forall>a. rt_tasks (sy_rt s') a = rt_tasks (sy_rt s) a \<or> answered (sy_rt s') a) \<and>
    (\<forall>x < n0. x \<notin> output_of s ` live s \<longrightarrow> rt_mem (sy_rt s') x = rt_mem (sy_rt s) x)"

lemma pull_works:
  assumes "sys_inv dev n0 s" "running s" "exec_pull s = Some (Inr s')" "s' \<noteq> s"
  shows "worked dev n0 s s'"
proof -
  let ?c = "sy_control s"
  have inv: "sys_inv dev n0 s'" "same_clients s s'" using pull_inv [OF assms(1,3)] by auto
  obtain r ob where p: "pull_outstanding_requests (ct_scheduler ?c) HE_QAT_BUFFER_SIZE (sy_out s) = Some (r, ob)"
    "s' = s\<lparr>sy_control := ?c\<lparr>ct_scheduler := r, ct_rt := (ct_rt ?c)\<lparr>rt_outstanding := ob\<rparr>\<rparr>\<rparr>"
    and z: "tl_count (ct_scheduler ?c) = 0"
    using assms(3) by (auto simp: exec_pull_def schedule_pull_def split: if_splits option.splits)
  note ob = sys_invD(1) [OF assms(1)]
  note m = pull_moves [OF ob p(1)]
  have "tl_count r \<noteq> 0"
  proof
    assume 0: "tl_count r = 0"
    then have "ready_index (sy_out s) = None \<and> ob = sy_out s"
      using pull_ok [OF ob p(1)] ready_index_Some [of "sy_out s"] by (auto simp: qat_consts)
    then have "r = (ct_scheduler ?c)\<lparr>tl_count := 0\<rparr>" "ob = sy_out s"
      using p(1) by (auto simp: pull_outstanding_requests_def split: if_splits)
    then show False using assms(4) z unfolding p(2) by simp
  qed
  moreover have "size (client_elems (sy_out s)) = size (client_elems ob) + tl_count r"
    using m by (metis size_mset size_union tl_elems_length)
  moreover have "taken ob = taken (sy_out s)" using m by (simp add: slots_kept_def)
  ultimately show ?thesis
    using inv assms(2) z by (simp add: worked_def p(2) load_def running_def remaining_def)
qed

lemma forward_works:
  assumes "sys_inv dev n0 s" "running s" "exec_forward s = Some (Inr s')"
  shows "worked dev n0 s s'"
proof -
  let ?c = "sy_control s"
  have inv: "sys_inv dev n0 s'" "same_clients s s'" using forward_inv [OF assms(1,3)] by auto
  obtain r b where p: "submit_request_list (ct_scheduler ?c) (rt_he_qat_buffer (sy_rt s)) = Some (r, b)"
    "s' = s\<lparr>sy_control := ?c\<lparr>ct_scheduler := r, ct_rt := (ct_rt ?c)\<lparr>rt_he_qat_buffer := b\<rparr>\<rparr>\<rparr>"
    and z: "tl_count (ct_scheduler ?c) \<noteq> 0"
    using assms(3) by (auto simp: exec_forward_def schedule_submit_def split: if_splits option.splits)
  have "rb_elems b = rb_elems (rt_he_qat_buffer (sy_rt s)) @ tl_elems (ct_scheduler ?c)" "tl_count r = 0"
    using submit_request_list_ok [OF sys_invD(2) [OF assms(1)] p(1)] by blast+
  then have "rb_count b = rb_count (rt_he_qat_buffer (sy_rt s)) + tl_count (ct_scheduler ?c)" "tl_count r = 0"
    by (metis length_append rb_elems_length tl_elems_length, simp)
  then show ?thesis
    using inv assms(2) z by (simp add: worked_def p(2) load_def running_def remaining_def)
qed

lemma read_works:
  assumes "sys_inv dev n0 s" "running s" "exec_read s = Some (Inr s')"
  shows "worked dev n0 s s'"
proof -
  let ?c = "sy_control s"
  have inv: "sys_inv dev n0 s'" "same_clients s s'"
    using read_inv [OF assms(1,3)] assms(2) by (auto simp: running_def Let_def)
  have z: "tl_count (ct_runner ?c) = 0" and h: "\<not> available (ct_rt ?c) < restart_threshold"
    and "\<exists>r b. read_request_list (ct_runner ?c) (available (ct_rt ?c)) (rt_he_qat_buffer (sy_rt s)) = Some (r, b) \<and>
      s' = s\<lparr>sy_control := ?c\<lparr>ct_runner := r, ct_rt := (ct_rt ?c)\<lparr>rt_he_qat_buffer := b\<rparr>\<rparr>, sy_index := 0\<rparr>"
    using assms(2,3) by (auto simp: exec_read_def running_def process_read_def Let_def split: if_splits option.splits)
  then obtain r b where p: "read_request_list (ct_runner ?c) (available (ct_rt ?c)) (rt_he_qat_buffer (sy_rt s)) = Some (r, b)"
    "s' = s\<lparr>sy_control := ?c\<lparr>ct_runner := r, ct_rt := (ct_rt ?c)\<lparr>rt_he_qat_buffer := b\<rparr>\<rparr>, sy_index := 0\<rparr>" by blast
  have rd: "rb_elems (rt_he_qat_buffer (sy_rt s)) = tl_elems r @ rb_elems b"
    "tl_count r = min (rb_count (rt_he_qat_buffer (sy_rt s))) (available (ct_rt ?c))"
    using read_request_list_ok [OF sys_invD(2) [OF assms(1)] p(1)] by blast+
  have "rb_count (rt_he_qat_buffer (sy_rt s)) = tl_count r + rb_count b"
    using rd(1) by (metis length_append rb_elems_length tl_elems_length)
  moreover have "rb_count (rt_he_qat_buffer (sy_rt s)) \<noteq> 0"
    using p(1) read_request_list_None by (metis option.distinct(1))
  moreover have "available (ct_rt ?c) \<noteq> 0" using h by (simp add: restart_threshold_def qat_consts)
  moreover have "0 < tl_count r" unfolding rd(2) using calculation(2,3) by simp
  ultimately show ?thesis
    using inv assms(2) z by (simp add: worked_def p(2) load_def running_def remaining_def tl_elems_def)
qed

lemma offload_works:
  assumes "sys_inv dev n0 s" "running s" "exec_offload CPA_STATUS_SUCCESS s = Some (Inr s')"
  shows "worked dev n0 s s'"
proof -
  let ?c = "sy_control s" and ?i = "sy_index s"
  let ?ru = "(ct_runner ?c)\<lparr>tl_request := (tl_request (ct_runner ?c))(?i := None)\<rparr>"
  have inv: "sys_inv dev n0 s'" "same_clients s s'" using offload_inv [OF assms(1,3)] by auto
  have i: "?i < tl_count (ct_runner ?c)" and nh: "\<not> ct_halted ?c"
    using assms(3) by (auto simp: exec_offload_def Let_def split: if_splits)
  note rem = remaining_Cons [OF i]
  have "tl_request (ct_runner ?c) ?i \<in># places s" using in_places(4) [of _ s] rem by simp
  from waiting_request [OF assms(1) this] obtain a t where a: "tl_request (ct_runner ?c) ?i = Some a"
    "rt_tasks (sy_rt s) a = Some t" "tk_op_type t = HE_QAT_OP_MODEXP" by metis
  obtain c' where c: "offload CPA_STATUS_SUCCESS ?i ?c = Inr c'" "ct_runner c' = ?ru"
    "ct_device c' = ct_device ?c @ [(a, tk_op_data t, ct_next_instance ?c)]"
    "ct_rt c' = (ct_rt ?c)\<lparr>rt_request_count := ull_inc (rt_request_count (ct_rt ?c))\<rparr>" "ct_halted c' = ct_halted ?c"
    "ct_scheduler c' = ct_scheduler ?c" "ct_context c' = ct_context ?c" "ct_config c' = ct_config ?c"
    using offload_cases(2) [OF a refl] by auto
  have s': "s' = next_request s c'" using assms(3) i nh by (simp add: exec_offload_def Let_def c(1,5) bindR_def)
  note n = next_request_ok [OF i c(2), folded s']
  have "ct_halted (sy_control s') = ct_halted c'" "ct_context (sy_control s') = ct_context c'"
    "ct_config (sy_control s') = ct_config c'" by (simp_all add: s' next_request_def)
  then have "running s'" using assms(2) c by (simp add: running_def)
  moreover have "load s' < load s" unfolding load_def n using rem by (simp add: c)
  ultimately show ?thesis using inv by (simp add: worked_def n(6) c(4))
qed

lemma respond_works:
  assumes "device_ok dev" "sys_inv dev n0 s" "running s" "exec_respond dev k CPA_STATUS_SUCCESS s = Some (Inr s')"
  shows "worked dev n0 s s'"
proof -
  let ?c = "sy_control s" and ?D = "ct_device (sy_control s)"
  have inv: "sys_inv dev n0 s'" "same_clients s s'" using respond_inv [OF assms(1,2,4)] by auto
  have k: "k < length ?D" using assms(4) by (auto simp: exec_respond_def split: if_splits)
  obtain a op i where d: "?D ! k = (a, op, i)" by (metis prod_cases3)
  then have in_d: "(a, op, i) \<in> set ?D" using k nth_mem by fastforce
  then have op: "op = Some (Suc a)" using sys_invD(7) [OF assms(2)] by auto
  from waiting_request [OF assms(2) in_places(5) [OF in_d]] obtain b j
    where e: "entry s b j" "a = sy_batch s b ! j" and w: "waits (sy_rt s) a" by (metis option.inject)
  from respond_ok [OF assms(1) sys_invD(9) [OF assms(2)] e w, of CPA_STATUS_SUCCESS] obtain rt where rt:
    "bindQ (device_result dev a (Some (Suc a))) (\<lambda>_. HE_QAT_bnModExpCallback (Some a) CPA_STATUS_SUCCESS (Some (Suc a)))
      (sy_rt s) = Some (Inr (), rt)"
    "rt_outstanding rt = sy_out s" "rt_he_qat_buffer rt = rt_he_qat_buffer (sy_rt s)"
    "\<forall>x. x \<noteq> a \<longrightarrow> rt_tasks rt x = rt_tasks (sy_rt s) x" "answered rt a"
    "\<forall>y. y \<noteq> a + 2 \<and> y \<noteq> output_of s a \<longrightarrow> rt_mem rt y = rt_mem (sy_rt s) y"
    unfolding answered_def by auto
  have s': "s' = s\<lparr>sy_control := ?c\<lparr>ct_device := take k ?D @ drop (Suc k) ?D, ct_rt := rt\<rparr>\<rparr>"
    using assms(4) k by (simp add: exec_respond_def respond_def d op rt(1) bindR_def)
  have "rt_tasks rt x = rt_tasks (sy_rt s) x \<or> answered rt x" for x using rt(4,5) by (cases "x = a") simp_all
  moreover have "length (take k ?D @ drop (Suc k) ?D) < length ?D" using k by simp
  moreover have "rt_mem rt x = rt_mem (sy_rt s) x" if x: "x < n0" "x \<notin> output_of s ` live s" for x
  proof -
    have "n0 \<le> a" by (rule request_of [OF sys_invD(9) [OF assms(2)] e]) simp
    moreover have "a \<in> live s" using e by (auto simp: live_def)
    ultimately have "x \<noteq> a + 2 \<and> x \<noteq> output_of s a" using x by auto
    then show ?thesis using rt(6) by blast
  qed
  ultimately show ?thesis
    using inv assms(3) by (simp add: worked_def s' load_def running_def remaining_def rt(2,3))
qed

lemma work_works:
  assumes "device_ok dev" "sys_inv dev n0 s" "running s" "work dev E s s'"
  shows "worked dev n0 s s'"
proof -
  obtain a where a: "thread_action a" "exec dev E a s = Some (Inr s')" "s' \<noteq> s" using assms(4) by (auto simp: work_def)
  from a(1) show ?thesis
    by (rule thread_actionE) (use a assms(1-3) pull_works forward_works read_works offload_works respond_works in \<open>auto\<close>)
qed


section \<open>Some thread can work while a request waits\<close>

lemma action_works:
  assumes "device_ok dev" "sys_inv dev n0 s" "running s" "thread_action a" "exec dev E a s = Some r" "a \<noteq> Pull"
  shows "\<exists>s'. r = Inr s' \<and> worked dev n0 s s'"
  using assms(4)
proof (rule thread_actionE)
  assume "a = Forward"
  then show ?thesis using assms(5) forward_inv [OF assms(2), of r] forward_works [OF assms(2,3)] by auto
next
  assume "a = Read"
  moreover have "ct_config (sy_control s) \<noteq> None" using assms(3) by (auto simp: running_def)
  ultimately show ?thesis using assms(5) read_inv [OF assms(2), of r] read_works [OF assms(2,3)] by auto
next
  fix st assume "a = Offload st"
  then show ?thesis using assms(4,5) offload_inv [OF assms(2), of st r] offload_works [OF assms(2,3)] by auto
next
  fix k st assume "a = Respond k st"
  then show ?thesis using assms(4,5) respond_inv [OF assms(1,2), of k st r] respond_works [OF assms(1-3)] by auto
qed (use assms(6) in simp)

text \<open>Which thread has something to do, by the place where a request is.\<close>

lemma load_place:
  assumes "sys_inv dev n0 s" "load s \<noteq> 0"
  obtains "ct_device (sy_control s) \<noteq> []"
  | "sy_index s < tl_count (ct_runner (sy_control s))"
  | "ct_device (sy_control s) = []" "tl_count (ct_runner (sy_control s)) = 0" "rb_count (rt_he_qat_buffer (sy_rt s)) \<noteq> 0"
  | "rb_count (rt_he_qat_buffer (sy_rt s)) = 0" "tl_count (ct_scheduler (sy_control s)) \<noteq> 0"
  | "tl_count (ct_scheduler (sy_control s)) = 0" "client_elems (sy_out s) \<noteq> {#}"
proof -
  let ?c = "sy_control s"
  note inv = sys_invD [OF assms(1)]
  have "remaining s \<noteq> [] \<Longrightarrow> sy_index s < tl_count (ct_runner ?c)" by (auto simp: remaining_def)
  moreover have "tl_count (ct_runner ?c) \<noteq> 0 \<Longrightarrow> sy_index s < tl_count (ct_runner ?c)" using inv(4,5) by (metis le_eq_less_or_eq)
  ultimately show ?thesis using that assms(2) by (fastforce simp: load_def)
qed

lemma respond_enabled:
  assumes "device_ok dev" "sys_inv dev n0 s" "ct_device (sy_control s) \<noteq> []"
  shows "\<exists>r. exec dev E (Respond 0 CPA_STATUS_SUCCESS) s = Some r"
proof -
  let ?c = "sy_control s"
  note inv = sys_invD [OF assms(2)]
  have k: "0 < length (ct_device ?c)" using assms(3) by simp
  obtain a op i where d: "ct_device ?c ! 0 = (a, op, i)" by (metis prod_cases3)
  then have in_d: "(a, op, i) \<in> set (ct_device ?c)" using nth_mem [OF k] by simp
  from waiting_request [OF assms(2) in_places(5) [OF in_d]] obtain b j
    where e: "entry s b j" "a = sy_batch s b ! j" and w: "waits (sy_rt s) a" by (metis option.inject)
  have "op = Some (Suc a)" using inv(7) in_d by auto
  then show ?thesis
    using respond_ok [OF assms(1) inv(9) e w, of CPA_STATUS_SUCCESS] k by (auto simp: exec_respond_def respond_def d)
qed

text \<open>A buffer that holds requests is held by a client, so the scheduler finds one to pull from.\<close>

lemma client_request_ready:
  assumes "sys_inv dev n0 s" "client_elems (sy_out s) \<noteq> {#}"
  obtains i where "ob_busy_count (sy_out s) \<noteq> 0" "ready_index (sy_out s) = Some i"
proof -
  note inv = sys_invD [OF assms(1)]
  obtain b where b: "b < HE_QAT_BUFFER_COUNT" "rb_elems (ob_buffer (sy_out s) b) \<noteq> []"
    using assms(2) unfolding client_elems_def by (metis lessThan_iff mset.simps(1) sum.neutral)
  then obtain j where "entry s b j" using slots_okD(4) [OF inv(8) b(1)] by (metis last_in_set)
  then have "sy_batch s b \<noteq> []" by (auto simp: entry_def)
  then have t: "b \<in> taken (sy_out s)" using slots_okD(2) [OF inv(8) b(1)] by blast
  then have "ob_busy_count (sy_out s) \<noteq> 0" using inv(1) by (auto simp: out_inv_def)
  moreover have "ob_ready_buffer (sy_out s) b \<noteq> 0" using t inv(1) b(1) by (simp add: out_inv_def taken_def)
  then have "ready_index (sy_out s) \<noteq> None" unfolding ready_index_None using b by auto
  ultimately show ?thesis using that by blast
qed

lemma pull_progress:
  assumes "sys_inv dev n0 s" "running s" "tl_count (ct_scheduler (sy_control s)) = 0" "client_elems (sy_out s) \<noteq> {#}"
  shows "\<exists>s'. exec dev E Pull s = Some (Inr s') \<and> s' \<noteq> s"
proof -
  let ?c = "sy_control s"
  note inv = sys_invD [OF assms(1)]
  obtain i where i: "ob_busy_count (sy_out s) \<noteq> 0" "ready_index (sy_out s) = Some i"
    by (rule client_request_ready [OF assms(1,4)])
  then obtain r ob where p: "pull_outstanding_requests (ct_scheduler ?c) HE_QAT_BUFFER_SIZE (sy_out s) = Some (r, ob)"
    by (cases "pull_outstanding_requests (ct_scheduler ?c) HE_QAT_BUFFER_SIZE (sy_out s)")
      (auto simp: pull_outstanding_requests_def Let_def split: prod.splits)
  let ?s = "s\<lparr>sy_control := ?c\<lparr>ct_scheduler := r, ct_rt := (ct_rt ?c)\<lparr>rt_outstanding := ob\<rparr>\<rparr>\<rparr>"
  have e: "exec_pull s = Some (Inr ?s)" using p assms(2,3) by (simp add: running_def exec_pull_def schedule_pull_def)
  have "tl_count r = min (rb_count (ob_buffer (sy_out s) i)) HE_QAT_BUFFER_SIZE" using pull_ok [OF inv(1) p] i(2) by auto
  then have "tl_count r \<noteq> 0" using ready_index_Some [OF i(2)] by (simp add: qat_consts)
  then have "ct_scheduler (sy_control ?s) \<noteq> ct_scheduler ?c" using assms(3) by auto
  then have "?s \<noteq> s" by metis
  then show ?thesis using e by auto
qed

lemma progress:
  assumes "device_ok dev" "sys_inv dev n0 s" "running s" "load s \<noteq> 0"
  shows "\<exists>s'. work dev E s s'"
proof -
  let ?c = "sy_control s"
  note inv = sys_invD [OF assms(2)]
  have en: "\<exists>s'. work dev E s s'" if a: "thread_action a" "exec dev E a s \<noteq> None" "a \<noteq> Pull" for a
  proof -
    obtain r where r: "exec dev E a s = Some r" using a(2) by blast
    obtain s' where "r = Inr s'" "worked dev n0 s s'" using action_works [OF assms(1-3) a(1) r a(3)] by blast
    then show ?thesis using a(1) r unfolding work_def worked_def by blast
  qed
  obtain cf where cf: "ct_config ?c = Some cf" "cf_running cf \<noteq> 0" and nh: "\<not> ct_halted ?c"
    using assms(3) by (auto simp: running_def)
  from assms(2,4) show ?thesis
  proof (cases rule: load_place)
    case 1
    then show ?thesis using en [of "Respond 0 CPA_STATUS_SUCCESS"] respond_enabled [OF assms(1,2)] by force
  next
    case 2
    then show ?thesis using en [of "Offload CPA_STATUS_SUCCESS"] nh by (simp add: exec_offload_def Let_def)
  next
    case 3
    have "process_read ?c \<noteq> None"
      using process_read_waits [of ?c] inv(6) 3 by simp
    then show ?thesis using en [of Read] nh cf 3(2) by (simp add: exec_read_def Let_def)
  next
    case 4
    have "submit_request_list (ct_scheduler ?c) (rt_he_qat_buffer (sy_rt s)) \<noteq> None"
      using submit_request_list_None [OF inv(2), of "ct_scheduler ?c"] inv(3) 4 by simp
    then show ?thesis using en [of Forward] 4(2) by (auto simp: exec_forward_def schedule_submit_def)
  next
    case 5
    then show ?thesis using pull_progress [OF assms(2,3)] unfolding work_def by (metis thread_action.simps(1))
  qed
qed

section \<open>All requests are answered\<close>

text \<open>No request has been refused or answered with an error.\<close>

definition no_failures :: "sys \<Rightarrow> bool" where
  "no_failures s \<longleftrightarrow> (\<forall>a \<in> live s. waits (sy_rt s) a \<or> answered (sy_rt s) a)"

lemma worked_failures:
  assumes "worked dev n0 s s'" "no_failures s"
  shows "no_failures s'"
  unfolding no_failures_def
proof
  have same: "same_clients s s'" using assms(1) by (simp add: worked_def)
  fix a assume "a \<in> live s'"
  then have "a \<in> live s" by (simp add: same_clientsD(2) [OF same])
  then have "waits (sy_rt s) a \<or> answered (sy_rt s) a" using assms(2) by (simp add: no_failures_def)
  moreover have "rt_tasks (sy_rt s') a = rt_tasks (sy_rt s) a \<or> answered (sy_rt s') a" using assms(1) by (simp add: worked_def)
  ultimately show "waits (sy_rt s') a \<or> answered (sy_rt s') a" by (auto simp: waits_def answered_def)
qed

lemma works:
  assumes "device_ok dev" "(work dev E)\<^sup>*\<^sup>* s s'" "sys_inv dev n0 s" "running s"
  shows "sys_inv dev n0 s' \<and> running s' \<and> load s' \<le> load s \<and> same_clients s s' \<and> taken (sy_out s') = taken (sy_out s) \<and>
    (no_failures s \<longrightarrow> no_failures s')"
  using assms(2)
proof (induction rule: rtranclp_induct)
  case base
  then show ?case using assms(3,4) by (simp add: same_clients_def)
next
  case (step y z)
  then have w: "worked dev n0 y z" using work_works [OF assms(1)] by blast
  have "no_failures y \<Longrightarrow> no_failures z" by (rule worked_failures [OF w])
  then show ?case using step.IH w by (simp add: worked_def same_clients_def)
qed

lemma work_bounded:
  assumes "device_ok dev" "(work dev E ^^ n) s s'" "sys_inv dev n0 s" "running s"
  shows "n + load s' \<le> load s"
  using assms(2-4)
proof (induction n arbitrary: s)
  case (Suc n)
  obtain y where y: "work dev E s y" "(work dev E ^^ n) y s'" using relpowp_Suc_D2 [OF Suc.prems(1)] by blast
  have "worked dev n0 s y" using work_works [OF assms(1) Suc.prems(2,3) y(1)] .
  then show ?case using Suc.IH [OF y(2)] by (auto simp: worked_def)
qed simp

lemma work_ends:
  assumes "device_ok dev" "sys_inv dev n0 s" "running s"
  shows "\<exists>s'. (work dev E)\<^sup>*\<^sup>* s s' \<and> load s' = 0"
  using assms(2,3)
proof (induction "load s" arbitrary: s rule: less_induct)
  case less
  show ?case
  proof (cases "load s = 0")
    case False
    obtain y where y: "work dev E s y" using progress [OF assms(1) less.prems False] by blast
    have "worked dev n0 s y" by (rule work_works [OF assms(1) less.prems y])
    then show ?thesis using less.hyps [of y] y by (meson converse_rtranclp_into_rtranclp worked_def)
  qed blast
qed

lemma work_stops:
  assumes "device_ok dev" "sys_inv dev n0 s" "running s"
  shows "\<exists>s'. (work dev E)\<^sup>*\<^sup>* s s' \<and> (\<nexists>t. work dev E s' t)"
proof -
  obtain s' where s': "(work dev E)\<^sup>*\<^sup>* s s'" "load s' = 0" using work_ends [OF assms] by blast
  have "sys_inv dev n0 s'" "running s'" using works [OF assms(1) s'(1) assms(2,3)] by blast+
  then have "load t < load s'" if "work dev E s' t" for t using work_works [OF assms(1) _ _ that, of n0] by (simp add: worked_def)
  then have "\<nexists>t. work dev E s' t" using s'(2) by auto
  then show ?thesis using s'(1) by blast
qed

lemma idle_answered:
  assumes "sys_inv dev n0 s" "load s = 0" "no_failures s" "a \<in> live s"
  shows "answered (sy_rt s) a"
proof -
  have "count (places s) (Some a) = (if a \<in> live s \<and> waits (sy_rt s) a then 1 else 0)"
    using sys_invD(11) [OF assms(1)] by (simp add: conserved_def)
  then have "\<not> waits (sy_rt s) a" using assms(2,4) unfolding load_places by (auto split: if_splits)
  then show ?thesis using assms(3,4) by (auto simp: no_failures_def)
qed

text \<open>The threads' actions are always allowed.\<close>

lemma work_reach:
  assumes "(work dev E)\<^sup>*\<^sup>* s s'" "reach dev E n0 s"
  shows "reach dev E n0 s'"
  using assms
proof (induction rule: rtranclp_induct)
  case (step y z)
  then obtain a where a: "thread_action a" "exec dev E a y = Some (Inr z)" by (auto simp: work_def)
  from a(1) have "allowed E n0 a y" by (rule thread_actionE) simp_all
  with step a(2) show ?case by (blast intro: reach.act)
qed simp

section \<open>The actions make up the code's functions\<close>

subsection \<open>The loops of the threads\<close>

lemma run_append:
  "run dev E xs s = Some (Inr s') \<Longrightarrow> run dev E (xs @ ys) s = run dev E ys s'"
  by (induction xs arbitrary: s) (auto split: option.splits sum.splits)

lemma schedule_run:
  assumes "schedule_requests (sy_control s) = Some (c', True)" "tl_count (ct_scheduler (sy_control s)) = 0"
  shows "\<exists>acts. set acts \<subseteq> {Pull, Forward} \<and> run dev E acts s = Some (Inr (s\<lparr>sy_control := c'\<rparr>))"
proof -
  obtain c1 where c: "ct_context (sy_control s) \<noteq> HE_QAT_STATUS_INACTIVE" "schedule_pull (sy_control s) = Some c1"
    "schedule_submit c1 = Some c'"
    using assms(1) by (auto simp: schedule_requests_def bind_eq_Some_conv split: if_splits)
  have p: "exec dev E Pull s = Some (Inr (s\<lparr>sy_control := c1\<rparr>))" using assms(2) c by (simp add: exec_pull_def)
  show ?thesis
  proof (cases "tl_count (ct_scheduler c1) = 0")
    case True
    then have "c' = c1" using c(3) by (simp add: schedule_submit_def submit_request_list_def)
    then show ?thesis using p by (intro exI [of _ "[Pull]"]) simp
  next
    case False
    then show ?thesis using p c(3) by (intro exI [of _ "[Pull, Forward]"]) (simp add: exec_forward_def)
  qed
qed

lemma offload_loop_run:
  assumes "offload_loop answers [sy_index s ..< n] (sy_control s) = Inr c'" "tl_count (ct_runner (sy_control s)) = n"
    and "sy_index s < n" "\<not> ct_halted (sy_control s)"
  shows "\<exists>m s'. run dev E (map (\<lambda>i. Offload (answers i)) [sy_index s ..< m]) s = Some (Inr s') \<and>
    sy_control s' = c' \<and> same_clients s s'"
  using assms
proof (induction "n - sy_index s" arbitrary: s)
  case (Suc d)
  let ?i = "sy_index s"
  have u: "[?i ..< n] = ?i # [Suc ?i ..< n]" using Suc.prems(3) by (simp add: upt_conv_Cons)
  obtain c1 where c1: "offload (answers ?i) ?i (sy_control s) = Inr c1"
    "(if ct_halted c1 then Inr c1 else offload_loop answers [Suc ?i ..< n] c1) = Inr c'"
    using Suc.prems(1) unfolding u by (cases "offload (answers ?i) ?i (sy_control s)") (auto simp: bindR_def)
  have n1: "tl_count (ct_runner c1) = n"
    using c1(1) Suc.prems(2) by (auto simp: offload_def Let_def split: option.splits if_splits)
  have e: "exec dev E (Offload (answers ?i)) s = Some (Inr (if ct_halted c1 then s\<lparr>sy_control := c1\<rparr> else next_request s c1))"
    using Suc.prems(2-4) by (simp add: exec_offload_def Let_def c1(1) bindR_def)
  have one: "\<exists>m s'. run dev E (map (\<lambda>i. Offload (answers i)) [?i ..< m]) s = Some (Inr s') \<and>
      sy_control s' = c' \<and> same_clients s s'"
    if "exec dev E (Offload (answers ?i)) s = Some (Inr s')" "sy_control s' = c'" "same_clients s s'" for s'
    using that by (intro exI [of _ "Suc ?i"] exI [of _ s']) (simp add: upt_conv_Cons)
  consider "ct_halted c1" | "\<not> ct_halted c1" "Suc ?i = n" | "\<not> ct_halted c1" "Suc ?i < n" using Suc.prems(3) by linarith
  then show ?case
  proof cases
    case 1
    then show ?thesis using c1(2) by (intro one [OF e]) (simp_all add: same_clients_def)
  next
    case 2
    then show ?thesis using c1(2) n1 by (intro one [OF e]) (auto simp: next_request_def same_clients_def)
  next
    case 3
    let ?s = "s\<lparr>sy_control := c1, sy_index := Suc ?i\<rparr>"
    have e': "exec dev E (Offload (answers ?i)) s = Some (Inr ?s)" using e 3 n1 by (simp add: next_request_def)
    have d: "d = n - sy_index ?s" using Suc.hyps(2) by simp
    obtain m s' where ih: "run dev E (map (\<lambda>i. Offload (answers i)) [Suc ?i ..< m]) ?s = Some (Inr s')"
      "sy_control s' = c'" "same_clients ?s s'"
      using Suc.hyps(1) [of ?s] d c1(2) n1 3 by auto
    have same: "same_clients s s'" using ih(3) by (simp add: same_clients_def)
    show ?thesis
    proof (cases "Suc ?i \<le> m")
      case True
      then have "[?i ..< m] = ?i # [Suc ?i ..< m]" by (simp add: upt_conv_Cons)
      then show ?thesis using e' ih same by (intro exI [of _ m] exI [of _ s']) simp
    next
      case False
      then have "s' = ?s" using ih(1) by simp
      then show ?thesis using ih(2) same by (intro one [OF e']) simp_all
    qed
  qed
qed simp

lemma process_run:
  assumes "process_requests answers (sy_control s) = Some (Inr c')" "tl_count (ct_runner (sy_control s)) = 0"
    and "\<not> ct_halted (sy_control s)" "ct_config (sy_control s) = Some cf"
  shows "\<exists>m s'. run dev E (Read # map (\<lambda>i. Offload (answers i)) [0 ..< m]) s = Some (Inr s') \<and>
    sy_control s' = c' \<and> same_clients s s'"
proof (cases "cf_running cf = 0")
  case True
  then show ?thesis
    using assms by (intro exI [of _ 0] exI [of _ "s\<lparr>sy_control := c'\<rparr>"])
      (auto simp: process_requests_def exec_read_def Let_def same_clients_def)
next
  case False
  then obtain c1 where c1: "process_read (sy_control s) = Some c1"
    "offload_loop answers [0 ..< tl_count (ct_runner c1)] c1 = Inr c'"
    using assms(1,4) by (auto simp: process_requests_def)
  let ?s = "s\<lparr>sy_control := c1, sy_index := 0\<rparr>"
  have e: "exec dev E Read s = Some (Inr ?s)" using assms(2-4) False c1(1) by (simp add: exec_read_def Let_def)
  have h: "\<not> ct_halted c1" using c1(1) assms(3) by (auto simp: process_read_def split: if_splits option.splits)
  show ?thesis
  proof (cases "tl_count (ct_runner c1) = 0")
    case True
    have "(ct_runner c1)\<lparr>tl_count := 0\<rparr> = ct_runner c1" using True by (cases "ct_runner c1") simp
    moreover have "c' = c1\<lparr>ct_runner := (ct_runner c1)\<lparr>tl_count := 0\<rparr>\<rparr>" using c1(2) True by simp
    ultimately have "c' = c1" by (simp only:) simp
    then show ?thesis using e by (intro exI [of _ 0] exI [of _ ?s]) (simp add: same_clients_def)
  next
    case False
    then obtain m s' where "run dev E (map (\<lambda>i. Offload (answers i)) [0 ..< m]) ?s = Some (Inr s')"
      "sy_control s' = c'" "same_clients ?s s'"
      using offload_loop_run [of answers ?s "tl_count (ct_runner c1)" c' dev E] c1(2) h by auto
    then show ?thesis using e by (intro exI [of _ m] exI [of _ s']) (simp add: same_clients_def)
  qed
qed

subsection \<open>The release of a buffer\<close>

lemma collect_enabled:
  assumes "sys_inv dev n0 s" "entry s i (sy_done s i)" "answered (sy_rt s) (sy_batch s i ! sy_done s i)"
  shows "\<exists>s'. exec_collect i s = Some (Inr s') \<and> release_one i (out_slot i (sy_done s i) s) (sy_rt s) = Some (Inr (), sy_rt s') \<and>
    sy_batch s' = sy_batch s \<and> sy_done s' = (sy_done s)(i := Suc (sy_done s i)) \<and> taken (sy_out s') = taken (sy_out s) \<and>
    (\<forall>j. out_slot i j s' = out_slot i j s) \<and>
    (\<forall>x. x \<noteq> sy_batch s i ! sy_done s i \<longrightarrow> rt_tasks (sy_rt s') x = rt_tasks (sy_rt s) x) \<and>
    (\<forall>x < n0. rt_mem (sy_rt s') x = rt_mem (sy_rt s) x)"
proof (rule request_of [OF sys_invD(9) [OF assms(1)] assms(2) refl])
  fix bs es ms old res :: "u8 list" and k ident st rs
  let ?a = "sy_batch s i ! sy_done s i" and ?slot = "out_slot i (sy_done s i) s"
  let ?t = "(queued_task k (length ms) (Some (output_of s ?a)) ident)\<lparr>tk_op_status := st, tk_request_status := rs\<rparr>"
  assume r: "?a = k + 3" "rt_tasks (sy_rt s) ?a = Some ?t" "rt_ops (sy_rt s) (k + 4) = Some (queued_op k (length ms))"
    and n0: "n0 \<le> k"
  have d: "rb_data (ob_buffer (sy_out s) i) ?slot = Some ?a" by (rule slots_okD(3) [OF sys_invD(8) [OF assms(1)] assms(2)])
  have lt: "sy_done s i < length (sy_batch s i)" using assms(2) by (simp add: entry_def)
  have ready: "tk_request_status ?t = HE_QAT_STATUS_READY" "tk_op_data ?t = Some (k + 4)"
    using assms(3) r(2) by (auto simp: answered_def queued_task_def)
  note c = collect_ok [OF r(2) ready r(3)]
  let ?rt = "(freed ?a ?t (queued_op k (length ms)) (sy_rt s))\<lparr>rt_outstanding := on_buffer i (clear_slot ?slot) (sy_out s)\<rparr>"
  have "rt_outstanding (freed ?a ?t (queued_op k (length ms)) (sy_rt s)) = sy_out s" by (simp add: freed_def)
  then have one: "release_one i ?slot (sy_rt s) = Some (Inr (), ?rt)" by (simp add: release_one_def d bindQ_def c)
  then have "exec_collect i s = Some (Inr ((with_rt ?rt s)\<lparr>sy_done := (sy_done s)(i := Suc (sy_done s i))\<rparr>))"
    using lt by (simp add: exec_collect_def)
  then show ?thesis
    using one by (intro exI [of _ "(with_rt ?rt s)\<lparr>sy_done := (sy_done s)(i := Suc (sy_done s i))\<rparr>"])
      (use n0 in \<open>auto simp: with_rt_def taken_def on_buffer_def clear_slot_def out_slot_def freed_def queued_op_def queued_task_def\<close>)
qed

lemma collect_run:
  assumes "sys_inv dev n0 s" "i \<in> taken (sy_out s)" "\<And>j. entry s i j \<Longrightarrow> answered (sy_rt s) (sy_batch s i ! j)"
    and "sy_done s i + n = length (sy_batch s i)"
  shows "\<exists>s'. release_loop i n (out_slot i (sy_done s i) s) (sy_rt s) = Some (Inr (out_slot i (length (sy_batch s i)) s), sy_rt s') \<and>
    run dev E (replicate n (Collect i)) s = Some (Inr s') \<and> sys_inv dev n0 s' \<and> sy_batch s' = sy_batch s \<and>
    sy_done s' i = length (sy_batch s i) \<and> taken (sy_out s') = taken (sy_out s) \<and>
    (\<forall>j. out_slot i j s' = out_slot i j s) \<and> (reach dev E n0 s \<longrightarrow> reach dev E n0 s') \<and>
    (\<forall>x < n0. rt_mem (sy_rt s') x = rt_mem (sy_rt s) x)"
  using assms
proof (induction n arbitrary: s)
  case (Suc n)
  let ?a = "sy_batch s i ! sy_done s i"
  have e: "entry s i (sy_done s i)" using taken_lt [OF Suc.prems(2)] Suc.prems(4) by (simp add: entry_def)
  obtain s1 where s1: "exec_collect i s = Some (Inr s1)"
    "release_one i (out_slot i (sy_done s i) s) (sy_rt s) = Some (Inr (), sy_rt s1)"
    "sy_batch s1 = sy_batch s" "sy_done s1 = (sy_done s)(i := Suc (sy_done s i))" "taken (sy_out s1) = taken (sy_out s)"
    "\<forall>j. out_slot i j s1 = out_slot i j s" "\<forall>x. x \<noteq> ?a \<longrightarrow> rt_tasks (sy_rt s1) x = rt_tasks (sy_rt s) x"
    "\<forall>x < n0. rt_mem (sy_rt s1) x = rt_mem (sy_rt s) x"
    using collect_enabled [OF Suc.prems(1) e Suc.prems(3) [OF e]] by blast
  have inv: "sys_inv dev n0 s1" using collect_inv [OF Suc.prems(1) s1(1) Suc.prems(2)] by auto
  have ans: "answered (sy_rt s1) (sy_batch s1 i ! j)" if "entry s1 i j" for j
  proof -
    have e1: "entry s i j" "(i, j) \<noteq> (i, sy_done s i)" using that by (auto simp: collect_entry [OF s1(3,4)])
    have "sy_batch s i ! j \<noteq> ?a" by (rule other_request(1) [OF Suc.prems(1) e refl e1 refl])
    then show ?thesis using Suc.prems(3) [OF e1(1)] s1(3,7) by (simp add: answered_def)
  qed
  have next_slot: "ring_next (out_slot i (sy_done s i) s) = out_slot i (sy_done s1 i) s1"
    using s1(6) by (simp add: s1(4)) (simp add: out_slot_def ring_next_mod)
  obtain s' where s': "release_loop i n (out_slot i (sy_done s1 i) s1) (sy_rt s1) =
      Some (Inr (out_slot i (length (sy_batch s1 i)) s1), sy_rt s')"
    "run dev E (replicate n (Collect i)) s1 = Some (Inr s')" "sys_inv dev n0 s'" "sy_batch s' = sy_batch s1"
    "sy_done s' i = length (sy_batch s1 i)" "taken (sy_out s') = taken (sy_out s1)" "\<forall>j. out_slot i j s' = out_slot i j s1"
    "reach dev E n0 s1 \<longrightarrow> reach dev E n0 s'" "\<forall>x < n0. rt_mem (sy_rt s') x = rt_mem (sy_rt s1) x"
    using Suc.IH [OF inv _ ans] Suc.prems(2,4) s1(3-5) by auto
  have "reach dev E n0 s1" if "reach dev E n0 s"
    by (rule reach.act [OF that, of "Collect i"]) (use Suc.prems(2) s1(1) in simp_all)
  then show ?case
    by (intro exI [of _ s']) (use s' s1 in \<open>simp add: bindQ_def next_slot\<close>)
qed simp

text \<open>\<open>release_bnModExp_buffer\<close> is collecting every request and finishing.\<close>

lemma release_run:
  assumes "sys_inv dev n0 s" "i \<in> taken (sy_out s)" "\<And>j. entry s i j \<Longrightarrow> answered (sy_rt s) (sy_batch s i ! j)"
    and "sy_done s i = 0"
  shows "\<exists>s'. release_bnModExp_buffer i (length (sy_batch s i)) (sy_rt s) = Some (Inr (), sy_rt s') \<and>
    run dev E (replicate (length (sy_batch s i)) (Collect i) @ [Finish i]) s = Some (Inr s') \<and> sys_inv dev n0 s' \<and>
    taken (sy_out s') = taken (sy_out s) - {i} \<and> (reach dev E n0 s \<longrightarrow> reach dev E n0 s') \<and>
    (\<forall>x < n0. rt_mem (sy_rt s') x = rt_mem (sy_rt s) x)"
proof -
  let ?n = "length (sy_batch s i)"
  have i: "i < HE_QAT_BUFFER_COUNT" by (rule taken_lt [OF assms(2)])
  have o: "rb_next_data_out (ob_buffer (sy_out s) i) = out_slot i (sy_done s i) s"
    using slots_okD(1) [OF sys_invD(8) [OF assms(1)] i] by (simp add: assms(4) out_slot_def)
  obtain s1 where s1: "release_loop i ?n (out_slot i (sy_done s i) s) (sy_rt s) = Some (Inr (out_slot i ?n s), sy_rt s1)"
    "run dev E (replicate ?n (Collect i)) s = Some (Inr s1)" "sys_inv dev n0 s1" "sy_batch s1 = sy_batch s"
    "sy_done s1 i = ?n" "taken (sy_out s1) = taken (sy_out s)" "\<forall>j. out_slot i j s1 = out_slot i j s"
    "reach dev E n0 s \<longrightarrow> reach dev E n0 s1" "\<forall>x < n0. rt_mem (sy_rt s1) x = rt_mem (sy_rt s) x"
    using collect_run [OF assms(1-3), where n = ?n and E = E] assms(4) by auto
  let ?ob = "release_buffer i (on_buffer i (\<lambda>b. b\<lparr>rb_next_data_out := out_slot i ?n s\<rparr>) (sy_out s1))"
  define s' where "s' = (with_rt ((sy_rt s1)\<lparr>rt_outstanding := ?ob\<rparr>) s1)
    \<lparr>sy_batch := (sy_batch s1)(i := []), sy_done := (sy_done s1)(i := 0)\<rparr>"
  have f: "exec dev E (Finish i) s1 = Some (Inr s')" using s1(4,5,7) by (simp add: exec_finish_def s'_def)
  have "sys_inv dev n0 s'" using finish_inv [OF s1(3), of i "Inr s'"] f assms(2) s1(6) by auto
  moreover have "release_bnModExp_buffer i ?n (sy_rt s) = Some (Inr (), sy_rt s')"
    using s1(1) by (simp add: release_bnModExp_buffer_def o bindQ_def s'_def)
  moreover have "run dev E (replicate ?n (Collect i) @ [Finish i]) s = Some (Inr s')"
    unfolding run_append [OF s1(2)] using f by simp
  moreover have "taken (sy_out s') = taken (sy_out s) - {i}"
    using s1(6) by (auto simp: s'_def taken_def release_buffer_def on_buffer_def)
  moreover have "reach dev E n0 s'" if "reach dev E n0 s"
    by (rule reach.act [of dev E n0 s1 "Finish i"]) (use that s1(6,8) f assms(2) in simp_all)
  moreover have "\<forall>x < n0. rt_mem (sy_rt s') x = rt_mem (sy_rt s) x" using s1(9) by (simp add: s'_def)
  ultimately show ?thesis by blast
qed

text \<open>The threads' actions are always allowed.\<close>

lemma run_reach:
  assumes "reach dev E n0 s" "run dev E acts s = Some (Inr s')" "\<forall>a \<in> set acts. \<forall>s. allowed E n0 a s"
  shows "reach dev E n0 s'"
  using assms
proof (induction acts arbitrary: s)
  case (Cons a acts)
  then obtain s1 where "exec dev E a s = Some (Inr s1)" "run dev E acts s1 = Some (Inr s')"
    by (auto split: option.splits sum.splits)
  then show ?case using Cons.IH [of s1] Cons.prems(1,3) by (auto intro: reach.act)
qed simp

end
