(* ===== verification/QatService.thy ===== *)
theory QatService
  imports QatProgress QatModExp
begin

text \<open>
  The runtime as the service that the library's \<open>heQatBnModExp_MT\<close> relies on. A client that holds a
  buffer submits the requests of a slice one by one, while the threads and the accelerator work in
  between as they like, on these requests and on those of other clients. No submission waits, and
  when the threads have nothing left to do, the release returns and the memory the client passed
  for the outputs holds the results for its operands, in order.
\<close>

section \<open>The service of an accelerator\<close>

definition device_service :: "device \<Rightarrow> batch_service" where
  "device_service dev ops nbits = Some (map (\<lambda>(b, e, m). dev b e m) ops)"

text \<open>An accelerator that computes modular powers of big-endian numbers.\<close>

definition device_computes :: "device \<Rightarrow> bool" where
  "device_computes dev \<longleftrightarrow> device_ok dev \<and> (\<forall>bs es ms. length bs = length ms \<and> length es = length ms \<and> 0 < be_val ms \<longrightarrow>
    be_val (dev bs es ms) = be_val bs ^ be_val es mod be_val ms)"

lemma device_service_ok:
  assumes "device_computes dev"
  shows "service_ok (device_service dev)"
  unfolding service_ok_def
proof (intro allI impI)
  fix ops :: "(u8 list \<times> u8 list \<times> u8 list) list" and n
  assume h: "\<forall>(b, e, m) \<in> set ops. length b = n \<and> length e = n \<and> length m = n \<and> 0 < be_val m"
  let ?outs = "map (\<lambda>(b, e, m). dev b e m) ops"
  have "length (?outs ! k) = n \<and> (case ops ! k of (b, e, m) \<Rightarrow> be_val (?outs ! k) = be_val b ^ be_val e mod be_val m)"
    if k: "k < length ops" for k
  proof (cases "ops ! k")
    case (fields b e m)
    then have "length b = n" "length e = n" "length m = n" "0 < be_val m" using h nth_mem [OF k] by auto
    then show ?thesis using assms k fields by (simp add: device_computes_def device_ok_def)
  qed
  then show "\<exists>outs. device_service dev ops (8 * int n) = Some outs \<and> length outs = length ops \<and>
      (\<forall>i < length ops. length (outs ! i) = n \<and> (case ops ! i of (b, e, m) \<Rightarrow> be_val (outs ! i) = be_val b ^ be_val e mod be_val m))"
    by (intro exI [of _ ?outs]) (simp add: device_service_def)
qed

text \<open>The runtime provides the service that the library's batches need.\<close>

interpretation qat: power_server device_computes device_service
  by unfold_locales (rule device_service_ok)

section \<open>A slice of a client\<close>

text \<open>The addresses of a request: the output, the base, the exponent and the modulus.\<close>

type_synonym places4 = "nat \<times> nat \<times> nat \<times> nat"

definition operands_at :: "sys \<Rightarrow> nat \<Rightarrow> places4 \<Rightarrow> u8 list \<times> u8 list \<times> u8 list" where
  "operands_at s len = (\<lambda>(r, b, e, m). (bytes_at (sy_rt s) (Some b) len, bytes_at (sy_rt s) (Some e) len, bytes_at (sy_rt s) (Some m) len))"

text \<open>
  The client has the operands in its memory and a place of its own for every output; no output of
  another request lies there.
\<close>

definition has_bytes :: "sys \<Rightarrow> nat \<Rightarrow> nat \<Rightarrow> nat \<Rightarrow> bool" where
  "has_bytes s n0 len p \<longleftrightarrow> p < n0 \<and> (\<exists>bs. rt_mem (sy_rt s) p = Some bs \<and> len \<le> length bs)"

definition slice_ready :: "nat \<Rightarrow> nat \<Rightarrow> places4 list \<Rightarrow> sys \<Rightarrow> bool" where
  "slice_ready n0 len ops s \<longleftrightarrow> length ops \<le> HE_QAT_BUFFER_SIZE \<and> distinct (map fst ops) \<and>
    (\<forall>(r, b, e, m) \<in> set ops. \<forall>p \<in> {r, b, e, m}. has_bytes s n0 len p \<and> p \<notin> output_of s ` live s) \<and>
    (\<forall>(r, b, e, m) \<in> set ops. {b, e, m} \<inter> fst ` set ops = {})"

text \<open>Submitting one request after the other while the threads work.\<close>

inductive client_run :: "device \<Rightarrow> qat_env \<Rightarrow> nat \<Rightarrow> nat \<Rightarrow> sys \<Rightarrow> places4 list \<Rightarrow> sys \<Rightarrow> bool" for dev E i nbits s where
  begin_run: "client_run dev E i nbits s [] s"
| submit_next: "client_run dev E i nbits s ops s' \<Longrightarrow>
    exec dev E (Submit i (Some r) (Some b) (Some e) (Some m) nbits) s' = Some (Inr s'') \<Longrightarrow>
    client_run dev E i nbits s (ops @ [(r, b, e, m)]) s''"
| work_on: "client_run dev E i nbits s ops s' \<Longrightarrow> work dev E s' s'' \<Longrightarrow> client_run dev E i nbits s ops s''"

section \<open>What holds while a slice is submitted\<close>

definition client_inv :: "device \<Rightarrow> qat_env \<Rightarrow> nat \<Rightarrow> nat \<Rightarrow> nat \<Rightarrow> sys \<Rightarrow> places4 list \<Rightarrow> sys \<Rightarrow> bool" where
  "client_inv dev E n0 i len s ops s' \<longleftrightarrow> reach dev E n0 s' \<and> running s' \<and> no_failures s' \<and>
    i \<in> taken (sy_out s') \<and> sy_done s' i = 0 \<and> length (sy_batch s' i) = length ops \<and>
    (\<forall>j < length ops. sy_args s' (sy_batch s' i ! j) =
      (case operands_at s len (ops ! j) of (bs, es, ms) \<Rightarrow> (bs, es, ms, fst (ops ! j)))) \<and>
    output_of s' ` live s' = output_of s ` live s \<union> fst ` set ops \<and>
    (\<forall>x < n0. x \<notin> output_of s ` live s \<union> fst ` set ops \<longrightarrow> rt_mem (sy_rt s') x = rt_mem (sy_rt s) x)"

lemma client_invD:
  assumes "client_inv dev E n0 i len s ops s'"
  shows "reach dev E n0 s'" "running s'" "no_failures s'" "i \<in> taken (sy_out s')" "sy_done s' i = 0"
    "length (sy_batch s' i) = length ops" "output_of s' ` live s' = output_of s ` live s \<union> fst ` set ops"
    "j < length ops \<Longrightarrow> sy_args s' (sy_batch s' i ! j) = (case operands_at s len (ops ! j) of (bs, es, ms) \<Rightarrow> (bs, es, ms, fst (ops ! j)))"
    "x < n0 \<Longrightarrow> x \<notin> output_of s ` live s \<union> fst ` set ops \<Longrightarrow> rt_mem (sy_rt s') x = rt_mem (sy_rt s) x"
  using assms unfolding client_inv_def by blast+

lemma client_work:
  assumes "device_ok dev" "client_inv dev E n0 i len s ops s'" "work dev E s' s''"
  shows "client_inv dev E n0 i len s ops s''"
proof -
  note c = client_invD [OF assms(2)]
  have "sys_inv dev n0 s'" using reach_inv [OF c(1) assms(1)] by blast
  then have w: "worked dev n0 s' s''" by (rule work_works [OF assms(1) _ c(2) assms(3)])
  then have same: "same_clients s' s''" and t: "taken (sy_out s'') = taken (sy_out s')" "running s''"
    and mem: "x < n0 \<Longrightarrow> x \<notin> output_of s' ` live s' \<Longrightarrow> rt_mem (sy_rt s'') x = rt_mem (sy_rt s') x" for x
    by (auto simp: worked_def)
  note same = same_clientsD [OF same]
  have "reach dev E n0 s''" using assms(3) by (intro work_reach [OF _ c(1)]) blast
  moreover have "no_failures s''" by (rule worked_failures [OF w c(3)])
  ultimately show ?thesis
    using c t mem unfolding client_inv_def same by simp
qed

text \<open>The next request of the slice meets the interface.\<close>

lemma client_allowed:
  assumes "device_ok dev" "client_inv dev E n0 i ((nbits + 7) div 8) s ops s'"
    and "slice_ready n0 ((nbits + 7) div 8) (ops @ (r, b, e, m) # rest) s" "\<And>k. qe_alloc E k"
  shows "allowed E n0 (Submit i (Some r) (Some b) (Some e) (Some m) nbits) s'"
    and "operands_at s' ((nbits + 7) div 8) (r, b, e, m) = operands_at s ((nbits + 7) div 8) (r, b, e, m)"
proof -
  let ?len = "(nbits + 7) div 8"
  note c = client_invD [OF assms(2)]
  have n0: "n0 \<le> rt_allocs (sy_rt s')" using reach_inv [OF c(1) assms(1)] sys_invD(12) by blast
  have p: "has_bytes s n0 ?len x \<and> x \<notin> output_of s ` live s \<union> fst ` set ops" if "x \<in> {r, b, e, m}" for x
    using assms(3) that unfolding slice_ready_def by (auto simp: image_iff)
  have mem: "rt_mem (sy_rt s') x = rt_mem (sy_rt s) x" if "x \<in> {r, b, e, m}" for x
    using p [OF that] by (intro c(9)) (auto simp: has_bytes_def)
  have bts: "bytes_at (sy_rt s') (Some x) ?len = bytes_at (sy_rt s) (Some x) ?len" if "x \<in> {r, b, e, m}" for x
    by (simp add: bytes_at_def mem [OF that])
  show "operands_at s' ?len (r, b, e, m) = operands_at s ?len (r, b, e, m)" by (simp add: operands_at_def bts)
  have op: "operand (sy_rt s') (Some x) ?len (bytes_at (sy_rt s') (Some x) ?len)" if "x \<in> {r, b, e, m}" for x
    using p [OF that] n0 by (auto simp: operand_def bytes_at_def has_bytes_def mem [OF that])
  have "\<exists>old. r < n0 \<and> rt_mem (sy_rt s') r = Some old \<and> ?len \<le> length old"
    using p [of r] by (auto simp: has_bytes_def mem)
  moreover have "output_of s' (sy_batch s' c ! k) \<noteq> r" if "entry s' c k" for c k
  proof -
    have "sy_batch s' c ! k \<in> live s'" using that by (auto simp: live_def)
    then have "output_of s' (sy_batch s' c ! k) \<in> output_of s ` live s \<union> fst ` set ops" unfolding c(7) [symmetric] by (rule imageI)
    then show ?thesis using p [of r] by blast
  qed
  ultimately show "allowed E n0 (Submit i (Some r) (Some b) (Some e) (Some m) nbits) s'"
    using c(4-6) op assms(3,4) by (auto simp: Let_def allocs_ok_def slice_ready_def)
qed

lemma client_submit:
  assumes "device_ok dev" "client_inv dev E n0 i ((nbits + 7) div 8) s ops s'"
    and "slice_ready n0 ((nbits + 7) div 8) (ops @ (r, b, e, m) # rest) s" "\<And>k. qe_alloc E k"
    and ex: "exec dev E (Submit i (Some r) (Some b) (Some e) (Some m) nbits) s' = Some (Inr s'')"
  shows "client_inv dev E n0 i ((nbits + 7) div 8) s (ops @ [(r, b, e, m)]) s''"
proof -
  let ?len = "(nbits + 7) div 8" and ?a = "rt_allocs (sy_rt s') + 3" and ?op = "(r, b, e, m)"
  let ?args = "case operands_at s ?len ?op of (bs, es, ms) \<Rightarrow> (bs, es, ms, r)"
  note c = client_invD [OF assms(2)] and al = client_allowed [OF assms(1-4)]
  have I: "sys_inv dev n0 s'" using reach_inv [OF c(1) assms(1)] by blast
  have sb: "submitted dev n0 i ?args s' s''"
    using submit_effect [OF I al(1), of "Inr s''"] ex unfolding al(2) [symmetric] by (simp add: Let_def operands_at_def)
  note d = submittedD [OF sb] and lv = submitted_live [OF I sb c(4,5)] and en = submitted_entries [OF I sb c(4,5)]
  have "reach dev E n0 s''" by (rule reach.act [OF c(1) al(1) ex])
  moreover have "running s''" using c(2) unfolding running_def by (subst (1 2 3) d(8)) simp
  moreover have "waits (sy_rt s'') x \<or> answered (sy_rt s'') x" if "x \<in> live s''" for x
  proof (cases "x = ?a")
    case False
    then have "x \<in> live s'" "rt_tasks (sy_rt s'') x = rt_tasks (sy_rt s') x" using that lv(1) d(5) by auto
    then show ?thesis using c(3) by (simp add: no_failures_def waits_def answered_def)
  qed (use d(14) in simp)
  then have "no_failures s''" by (simp add: no_failures_def)
  moreover have "sy_args s'' (sy_batch s'' i ! j) = (case operands_at s ?len ((ops @ [?op]) ! j) of
      (bs, es, ms) \<Rightarrow> (bs, es, ms, fst ((ops @ [?op]) ! j)))" if "j < Suc (length ops)" for j
  proof (cases "j = length ops")
    case True
    then show ?thesis using d(3) en(3) c(6) by simp
  next
    case False
    then have "entry s' i j" using that c(5,6) taken_lt [OF c(4)] by (simp add: entry_def)
    then have "sy_batch s'' i ! j = sy_batch s' i ! j" "sy_batch s' i ! j \<noteq> ?a" using en(2,4) by fastforce+
    then show ?thesis using that False c(8) by (simp add: d(3) nth_append)
  qed
  moreover have "output_of s'' ` live s'' = output_of s ` live s \<union> fst ` set (ops @ [?op])"
  proof -
    have "output_of s'' ` live s' = output_of s' ` live s'" using lv(3) by (rule image_cong [OF refl])
    moreover have "output_of s'' ?a = r" using lv(4) by (simp split: prod.splits)
    ultimately show ?thesis unfolding lv(1) using c(7) by simp
  qed
  moreover have "rt_mem (sy_rt s'') x = rt_mem (sy_rt s) x" if "x < n0" "x \<notin> output_of s ` live s \<union> fst ` set (ops @ [?op])" for x
    using that c(9) [of x] d(6) [of x] sys_invD(12) [OF I] by simp
  ultimately show ?thesis
    using c(4-6) submitted_buffers(2) [OF I sb c(4)] unfolding client_inv_def by (simp add: d(1,2))
qed

lemma client_run_inv:
  assumes "client_run dev E i nbits s ops s'" "slice_ready n0 ((nbits + 7) div 8) (ops @ rest) s"
    and dev: "device_ok dev" and al: "\<And>k. qe_alloc E k"
    and start: "reach dev E n0 s" "running s" "no_failures s" "i \<in> taken (sy_out s)" "sy_done s i = 0" "sy_batch s i = []"
  shows "client_inv dev E n0 i ((nbits + 7) div 8) s ops s'"
  using assms(1,2)
proof (induction arbitrary: rest rule: client_run.induct)
  case begin_run
  then show ?case using start by (simp add: client_inv_def)
next
  case (submit_next ops s' r b e m s'')
  then have "slice_ready n0 ((nbits + 7) div 8) (ops @ (r, b, e, m) # rest) s" by simp
  then show ?case using client_submit [OF dev submit_next.IH _ al submit_next.hyps(2)] by blast
next
  case (work_on ops s' s'')
  then show ?case using client_work [OF dev] by blast
qed

section \<open>The results\<close>

lemma client_served:
  assumes "device_ok dev" "client_inv dev E n0 i len s ops s'" "slice_ready n0 len ops s" "\<nexists>t. work dev E s' t"
  shows "\<exists>s''. release_bnModExp_buffer i (length ops) (sy_rt s') = Some (Inr (), sy_rt s'') \<and> reach dev E n0 s'' \<and>
    i \<notin> taken (sy_out s'') \<and>
    device_service dev (map (operands_at s len) ops) (8 * int len) = Some (map (\<lambda>op. bytes_at (sy_rt s'') (Some (fst op)) len) ops)"
proof -
  note c = client_invD [OF assms(2)]
  have I: "sys_inv dev n0 s'" using reach_inv [OF c(1) assms(1)] by blast
  have "load s' = 0" using progress [OF assms(1) I c(2), of E] assms(4) by blast
  then have ans: "answered (sy_rt s') (sy_batch s' i ! j)" if "entry s' i j" for j
    using idle_answered [OF I _ c(3)] that by (auto simp: live_def)
  from release_run [OF I c(4) ans c(5), of E] obtain s'' where s'':
    "release_bnModExp_buffer i (length (sy_batch s' i)) (sy_rt s') = Some (Inr (), sy_rt s'')"
    "taken (sy_out s'') = taken (sy_out s') - {i}" "reach dev E n0 s' \<longrightarrow> reach dev E n0 s''"
    "\<forall>x < n0. rt_mem (sy_rt s'') x = rt_mem (sy_rt s') x" by blast
  have "(case operands_at s len op of (bs, es, ms) \<Rightarrow> dev bs es ms) = bytes_at (sy_rt s'') (Some (fst op)) len"
    if op: "op \<in> set ops" for op
  proof -
    obtain j where j: "j < length ops" "op = ops ! j" using op by (metis in_set_conv_nth)
    let ?a = "sy_batch s' i ! j"
    have e: "entry s' i j" using j(1) c(5,6) taken_lt [OF c(4)] by (simp add: entry_def)
    obtain bs es ms where o: "operands_at s len op = (bs, es, ms)" by (metis prod_cases3)
    have args: "sy_args s' ?a = (bs, es, ms, fst op)" using c(8) [OF j(1)] o by (simp add: j(2))
    then have q: "output_of s' ?a = fst op" by (simp add: output_of_def)
    have l: "length ms = len"
      using o assms(3) op by (auto simp: operands_at_def slice_ready_def has_bytes_def bytes_at_def)
    show ?thesis
    proof (rule request_of [OF sys_invD(9) [OF I] e refl])
      fix bs' es' ms' old res :: "u8 list" and k ident st rs
      assume r: "sy_args s' ?a = (bs', es', ms', output_of s' ?a)" "output_of s' ?a < n0"
        "rt_tasks (sy_rt s') ?a = Some ((queued_task k (length ms') (Some (output_of s' ?a)) ident)\<lparr>tk_op_status := st, tk_request_status := rs\<rparr>)"
        "rt_mem (sy_rt s') (output_of s' ?a) = Some old" "rs = HE_QAT_STATUS_READY \<longrightarrow> take (length ms') old = dev bs' es' ms'"
      have "rs = HE_QAT_STATUS_READY" using ans [OF e] r(3) by (simp add: answered_def)
      then show ?thesis using r args q s''(4) l by (simp add: o bytes_at_def)
    qed
  qed
  then show ?thesis
    using s'' c(1,6) by (intro exI [of _ s'']) (simp add: device_service_def case_prod_beta)
qed

end
