(* ===== verification/QatProperties.thy ===== *)
theory QatProperties
  imports QatContext
begin

text \<open>
  What the accelerator's runtime guarantees to its clients: request buffers are bounded queues,
  client buffers are held exclusively, a call queues exactly one request, the processing thread
  bounds the requests in flight, and the life cycle of the context. Two properties show how a
  client can be held up for ever, and what a second acquisition does to running clients. The
  properties rest on the lemmas of \<open>RequestBuffer\<close>, \<open>OutstandingBuffers\<close>, \<open>QatRequests\<close>,
  \<open>QatControl\<close> and \<open>QatContext\<close>.
\<close>

section \<open>A small runtime for the witnesses\<close>

definition ref_ring :: reqbuf where
  "ref_ring = \<lparr>rb_data = (\<lambda>_. None), rb_count = 0, rb_next_free_slot = 0, rb_next_data_slot = 0, rb_next_data_out = 0\<rparr>"

definition ref_out :: outbuf where
  "ref_out = \<lparr>ob_buffer = (\<lambda>_. ref_ring), ob_busy_count = 0, ob_next_free_buffer = 0, ob_free_buffer = (\<lambda>_. 1),
    ob_next_ready_buffer = 0, ob_ready_buffer = (\<lambda>_. 0)\<rparr>"

definition ref_rt :: runtime where
  "ref_rt = \<lparr>rt_allocs = 4, rt_mem = (\<lambda>k. if k < 4 then Some [0, 0, 0, of_nat k] else None), rt_bignums = (\<lambda>_. None),
    rt_ops = (\<lambda>_. None), rt_tasks = (\<lambda>_. None), rt_he_qat_buffer = ref_ring, rt_outstanding = ref_out,
    rt_bn_ids = 0, rt_BIGNUM_ids = 0, rt_mt_ids = 0, rt_block_at_index = 0, rt_request_count = 0, rt_response_count = 0\<rparr>"

definition ref_qenv :: "(nat \<Rightarrow> bool) \<Rightarrow> qat_env" where
  "ref_qenv alloc = \<lparr>qe_alloc = alloc, qe_garbage = (\<lambda>_ _. 0), qe_bn2binpad = (\<lambda>_ _. (1, [])), qe_bin2bn = (\<lambda>_. None)\<rparr>"

definition ref_qat_config :: qat_config where
  "ref_qat_config = \<lparr>cf_inst_config = (\<lambda>i. \<lparr>ic_inst_id = i, ic_inst_handle = Some i, ic_active = 0, ic_polling = 0,
      ic_running = 0, ic_status = CPA_STATUS_FAIL\<rparr>),
    cf_active = 0, cf_running = 0, cf_count = HE_QAT_NUM_ACTIVE_INSTANCES\<rparr>"

definition ref_control :: control where
  "ref_control = \<lparr>ct_context = HE_QAT_STATUS_INACTIVE, ct_config = Some ref_qat_config, ct_rt = ref_rt,
    ct_scheduler = empty_list, ct_runner = empty_list, ct_next_instance = 0, ct_instance_count = 8,
    ct_per_instance = (\<lambda>_. 0), ct_status = CPA_STATUS_SUCCESS, ct_halted = False, ct_device = []\<rparr>"

definition ref_context :: qat_context where
  "ref_context = \<lparr>cx_control = ref_control, cx_numInstances = 0, cx_nextInstance = 0, cx_handles = (\<lambda>_. None),
    cx_memory = False, cx_service = False, cx_runners = 0, cx_managers = 0\<rparr>"

definition ref_driver :: qat_driver where
  "ref_driver = \<lparr>qd_mem_init = CPA_STATUS_SUCCESS, qd_sal_start = CPA_STATUS_SUCCESS,
    qd_num_instances = (CPA_STATUS_SUCCESS, 3), qd_get_instances = (\<lambda>m i. Some i), qd_info = (\<lambda>_. CPA_STATUS_SUCCESS),
    qd_create_manager = True, qd_detach_manager = True\<rparr>"

lemma ref_ring_ok: "rb_inv ref_ring" "rb_elems ref_ring = []" "rb_count ref_ring = 0"
  by (simp_all add: rb_inv_def ref_ring_def qat_consts)

lemma ref_out_ok: "out_inv ref_out" "taken ref_out = {}"
proof -
  show t: "taken ref_out = {}" by (simp add: taken_def ref_out_def)
  show "out_inv ref_out" unfolding out_inv_def t by (simp add: ref_out_def ref_ring_ok qat_consts)
qed

lemma ref_operands: "operand ref_rt (Some 0) 4 [0, 0, 0, 0]" "operand ref_rt (Some 1) 4 [0, 0, 0, 1]"
  "operand ref_rt (Some 2) 4 [0, 0, 0, 2]"
  by (simp_all add: operand_def ref_rt_def)

section \<open>Request buffers\<close>

text \<open>
  C27: a request buffer is a bounded queue. Over any sequence of single submissions, submissions
  of lists and reads, the requests read so far followed by those still in the ring are those that
  were there followed by those submitted, in their order: none is lost, doubled or overtaken,
  although the code keeps them in a ring with three indices that wrap around.
\<close>

theorem ring_is_queue:
  assumes "rb_inv b" "fifo_run submit_request rb_put_all rb_get es b = Some (out, b')"
  shows "rb_inv b' \<and> out @ rb_elems b' = rb_elems b @ concat (map event_in es)"
  by (rule ring.run_order [OF assms])

theorem ring_is_queue_witness:
  "\<exists>out b'. fifo_run submit_request rb_put_all rb_get [Put (Some 7), Get 5, PutAll [Some 8, None], Get 1] ref_ring
      = Some (out, b') \<and> out @ rb_elems b' = [Some 7, Some 8, None]"
proof -
  obtain b1 where b1: "submit_request (Some 7) ref_ring = Some b1"
    using ring.put_None [OF ref_ring_ok(1), of "Some 7"] by (auto simp: ref_ring_ok qat_consts)
  note 1 = ring.put_ok [OF ref_ring_ok(1) b1]
  obtain xs b2 where b2: "rb_get 5 b1 = Some (xs, b2)" using ring.get_None [of b1 5] 1 by (auto simp: ref_ring_ok)
  then have 2: "rb_inv b2" "rb_elems b1 = xs @ rb_elems b2" "length xs = 1"
    using ring.get_ok [of b1 5 xs b2] 1 by (simp_all add: ref_ring_ok)
  then have e2: "rb_elems b2 = []" using 1 by (cases xs) (auto simp: ref_ring_ok)
  obtain b3 where b3: "rb_put_all [Some 8, None] b2 = Some b3"
    using ring.put_all_None [OF 2(1), of "[Some 8, None]"] by (auto simp: e2 qat_consts)
  note 3 = ring.put_all_ok [OF 2(1) b3]
  obtain ys b4 where b4: "rb_get 1 b3 = Some (ys, b4)" using ring.get_None [of b3 1] 3 by (auto simp: e2)
  have "fifo_run submit_request rb_put_all rb_get [Put (Some 7), Get 5, PutAll [Some 8, None], Get 1] ref_ring
      = Some (xs @ ys, b4)" using b1 b2 b3 b4 by simp
  from ring_is_queue [OF ref_ring_ok(1) this] this show ?thesis by (auto simp: ref_ring_ok)
qed

text \<open>
  The operations of a buffer wait exactly when a queue of 1024 places must: a submission when
  the buffer is full, the submission of a list when the list does not fit, a read when the buffer
  is empty. No index leaves the ring.
\<close>

theorem ring_waits:
  assumes "rb_inv b"
  shows "(submit_request x b = None \<longleftrightarrow> length (rb_elems b) = 1024) \<and>
    (0 < tl_count r \<longrightarrow> (submit_request_list r b = None \<longleftrightarrow> 1024 < length (rb_elems b) + tl_count r)) \<and>
    (read_request_list r m b = None \<longleftrightarrow> rb_elems b = []) \<and>
    rb_next_data_slot b < 1024 \<and> rb_next_free_slot b < 1024"
proof -
  have c: "rb_count b \<le> 1024" using rb_inv_count [OF assms] by (simp add: qat_consts)
  show ?thesis
    using assms c submit_request_None [of x b] submit_request_list_None [OF assms, of r]
      read_request_list_None [of r m b] by (auto simp: rb_inv_def qat_consts)
qed

theorem ring_waits_witness:
  "submit_request (Some 1) ref_ring \<noteq> None \<and> read_request_list empty_list 4 ref_ring = None \<and>
   submit_request_list (tl_of (replicate 1025 None)) ref_ring = None"
  using ring_waits [OF ref_ring_ok(1), of "Some 1" "tl_of (replicate 1025 None)" 4]
    ring_waits [OF ref_ring_ok(1), of "Some 1" empty_list 4] by (simp add: ref_ring_ok)

section \<open>Client buffers\<close>

text \<open>
  C30: client buffers are held exclusively. An acquisition that does not wait gives a buffer that
  nobody holds, marks exactly this one as held and keeps the others and every queue; it waits only
  while all eight are held, wherever the search starts. Releasing a held buffer frees exactly it.
\<close>

theorem buffers_exclusive:
  assumes "out_inv ob"
  shows "(acquire_bnModExp_buffer (Some x) ob = None \<longleftrightarrow> taken ob = {..< 8}) \<and>
    (\<forall>r ob'. acquire_bnModExp_buffer (Some x) ob = Some (r, ob') \<longrightarrow>
      (\<exists>b. r = (HE_QAT_STATUS_SUCCESS, Some b) \<and> b < 8 \<and> b \<notin> taken ob \<and> taken ob' = insert b (taken ob) \<and>
        ob_buffer ob' = ob_buffer ob \<and> out_inv ob')) \<and>
    (\<forall>b \<in> taken ob. out_inv (release_buffer b ob) \<and> taken (release_buffer b ob) = taken ob - {b} \<and>
      ob_buffer (release_buffer b ob) = ob_buffer ob)"
proof -
  have n: "HE_QAT_BUFFER_COUNT = 8" by (simp add: qat_consts)
  show ?thesis
    using acquire_waits [OF assms, of x] acquire_ok [OF assms, of x] release_ok [OF assms] unfolding n by blast
qed

theorem buffers_exclusive_witness:
  "\<exists>b ob'. acquire_bnModExp_buffer (Some 0) ref_out = Some ((HE_QAT_STATUS_SUCCESS, Some b), ob') \<and> taken ob' = {b}"
proof -
  have "(0 :: nat) \<in> {..< 8}" by simp
  then have "taken ref_out \<noteq> {..< 8}" unfolding ref_out_ok(2) by blast
  then obtain r ob' where "acquire_bnModExp_buffer (Some 0) ref_out = Some (r, ob')"
    using buffers_exclusive [OF ref_out_ok(1), of 0] by auto
  then show ?thesis using buffers_exclusive [OF ref_out_ok(1), of 0] ref_out_ok(2) by auto
qed

section \<open>Requests\<close>





section \<open>The processing thread\<close>

text \<open>
  C29: throttling. If the two counters, which wrap at \<open>2\<^sup>6\<^sup>4\<close>, count the requests accepted and answered
  and at most 96 are in flight, an iteration of the processing loop keeps it so, whatever the
  accelerator answers: it reads no more requests than there is room for. It starts only when at
  most 48 are in flight and a request is waiting.
\<close>

theorem in_flight_bounded:
  assumes "in_flight_ok c 0" "rb_inv (rt_he_qat_buffer (ct_rt c))" "ct_config c = Some cf" "cf_running cf \<noteq> 0"
    and "\<forall>p \<in> set (rb_elems (rt_he_qat_buffer (ct_rt c))). modexp_task c p"
  shows "(process_requests answers c = None \<longleftrightarrow> 48 < length (ct_device c) \<or> rb_elems (rt_he_qat_buffer (ct_rt c)) = []) \<and>
    (\<forall>res. process_requests answers c = Some res \<longrightarrow>
      (\<exists>c'. res = Inr c' \<and> in_flight_ok c' 0 \<and> length (ct_device c') \<le> 96 \<and> rb_inv (rt_he_qat_buffer (ct_rt c'))))"
proof -
  have m: "max_pending = 96" "restart_threshold = 48" by (simp_all add: max_pending_def restart_threshold_def qat_consts)
  have "process_requests answers c = None \<longleftrightarrow> process_read c = None" using assms(3,4) by (simp add: process_requests_def)
  then show ?thesis
    using process_read_waits [OF assms(1)] process_requests_ok [OF assms(1,2,5), of answers] assms(3) unfolding m by simp
qed

definition ref_busy :: control where
  "ref_busy = ref_control\<lparr>ct_config := Some (ref_qat_config\<lparr>cf_running := 1\<rparr>),
    ct_rt := ref_rt\<lparr>rt_tasks := [7 \<mapsto> queued_task 4 4 (Some 3) 0],
      rt_he_qat_buffer := the (submit_request (Some 7) ref_ring)\<rparr>\<rparr>"

lemma ref_busy_ok: "in_flight_ok ref_busy 0" "rb_inv (rt_he_qat_buffer (ct_rt ref_busy))"
  "rb_elems (rt_he_qat_buffer (ct_rt ref_busy)) = [Some 7]" "modexp_task ref_busy (Some 7)"
proof -
  obtain b where b: "submit_request (Some 7) ref_ring = Some b"
    using ring.put_None [OF ref_ring_ok(1), of "Some 7"] by (auto simp: ref_ring_ok qat_consts)
  show "in_flight_ok ref_busy 0"
    by (simp add: in_flight_ok_def ref_busy_def ref_control_def ref_rt_def) (rule exI [of _ 0], simp)
  show "rb_inv (rt_he_qat_buffer (ct_rt ref_busy))" "rb_elems (rt_he_qat_buffer (ct_rt ref_busy)) = [Some 7]"
    using ring.put_ok [OF ref_ring_ok(1) b] b by (simp_all add: ref_busy_def ref_ring_ok)
  show "modexp_task ref_busy (Some 7)" by (simp add: modexp_task_def ref_busy_def queued_task_def)
qed

theorem in_flight_bounded_witness:
  "\<exists>c'. process_requests (\<lambda>_. CPA_STATUS_SUCCESS) ref_busy = Some (Inr c') \<and> in_flight_ok c' 0 \<and> length (ct_device c') \<le> 96"
proof -
  have "ct_config ref_busy = Some (ref_qat_config\<lparr>cf_running := 1\<rparr>)" "ct_device ref_busy = []"
    by (simp_all add: ref_busy_def ref_control_def)
  then show ?thesis
    using in_flight_bounded [OF ref_busy_ok(1,2), of "ref_qat_config\<lparr>cf_running := 1\<rparr>" "\<lambda>_. CPA_STATUS_SUCCESS"] ref_busy_ok(3,4)
    by auto
qed

section \<open>The context\<close>

text \<open>
  What a successful start of the instances marks as running, stopping them clears: after the
  two, no instance is running or polled, the processing loop is told to end, and stopping did not
  wait.
\<close>

theorem start_then_stop:
  assumes "start_instances api c = Some c'" "\<not> ct_halted c" "\<not> ct_halted c'"
  shows "\<exists>cf cf'. ct_config c' = Some cf \<and> cf_running cf = 1 \<and> stop_instances (Some cf) = Some (Some cf') \<and>
    cf_running cf' = 0 \<and> cf_active cf' = 0 \<and>
    (\<forall>i < cf_count cf. ic_running (cf_inst_config cf' i) = 0 \<and> ic_polling (cf_inst_config cf' i) = 0)"
  by (rule start_stop [OF assms])

definition ref_api :: qat_api where
  "ref_api = \<lparr>qa_start = (\<lambda>_. CPA_STATUS_SUCCESS), qa_translate = (\<lambda>_. CPA_STATUS_SUCCESS),
    qa_create = (\<lambda>_. True), qa_detach = (\<lambda>_. True)\<rparr>"

lemma ref_start_loop:
  assumes "distinct js" "\<forall>j \<in> set js. ic_active (cf_inst_config cf j) = 0"
  shows "\<exists>cf'. start_loop ref_api js cf = Some (cf', True)"
  using assms
proof (induction js arbitrary: cf)
  case (Cons j js)
  have "start_instance ref_api j cf = Some (set_inst j (\<lambda>ic. ic\<lparr>ic_active := 1, ic_running := 1\<rparr>)
      (set_inst j start_inst_polling (set_inst j (\<lambda>ic. ic\<lparr>ic_status := CPA_STATUS_SUCCESS\<rparr>) cf)), True)"
    using Cons.prems(2) by (simp add: start_instance_def Let_def ref_api_def)
  then obtain cf1 where "start_instance ref_api j cf = Some (cf1, True)"
    "\<forall>k \<in> set js. ic_active (cf_inst_config cf1 k) = 0"
    using Cons.prems by (fastforce simp: set_inst_def)
  then show ?case using Cons.IH [of cf1] Cons.prems(1) by simp
qed simp

lemma ref_start:
  assumes "ct_config c = Some cf" "\<forall>j < cf_count cf. ic_active (cf_inst_config cf j) = 0" "\<not> ct_halted c"
  shows "\<exists>c'. start_instances ref_api c = Some c' \<and> \<not> ct_halted c' \<and> ct_context c' = ct_context c"
proof -
  obtain cf' where "start_loop ref_api [0 ..< cf_count cf] cf = Some (cf', True)"
    using ref_start_loop [of "[0 ..< cf_count cf]" cf] assms(2) by auto
  then show ?thesis using assms by (simp add: start_instances_def Let_def)
qed

theorem start_then_stop_witness:
  "\<exists>c' cf cf'. start_instances ref_api ref_control = Some c' \<and> ct_config c' = Some cf \<and>
    stop_instances (Some cf) = Some (Some cf') \<and> cf_running cf' = 0"
proof -
  have "\<not> ct_halted ref_control" by (simp add: ref_control_def)
  moreover obtain c' where "start_instances ref_api ref_control = Some c'" "\<not> ct_halted c'"
    using ref_start [of ref_control ref_qat_config] by (auto simp: ref_control_def ref_qat_config_def)
  ultimately show ?thesis using start_then_stop [of ref_api ref_control c'] by blast
qed

text \<open>
  C32: a second acquisition is not harmless. While the context is active it does nothing, but the
  scheduler's thread soon marks it as running, and then the call initialises again: it empties
  every buffer and frees those that clients hold, and starts a second pair of threads.
\<close>

theorem second_acquisition_resets:
  assumes "qd_mem_init d = CPA_STATUS_SUCCESS" "qd_sal_start d = CPA_STATUS_SUCCESS" "qd_create_manager d" "qd_detach_manager d"
    and "get_qat_context_state x = HE_QAT_STATUS_RUNNING"
    and "cx_numInstances x = n" "0 < n" "cx_nextInstance x < n" "\<forall>i < n. cx_handles x i \<noteq> None"
  shows "(\<forall>y. get_qat_context_state y = HE_QAT_STATUS_ACTIVE \<longrightarrow> acquire_qat_devices d y = Some (HE_QAT_STATUS_SUCCESS, y)) \<and>
    (\<exists>x'. acquire_qat_devices d x = Some (HE_QAT_STATUS_SUCCESS, x') \<and>
      taken (rt_outstanding (ct_rt (cx_control x'))) = {} \<and> rb_elems (rt_he_qat_buffer (ct_rt (cx_control x'))) = [] \<and>
      (\<forall>b < 8. rb_elems (ob_buffer (rt_outstanding (ct_rt (cx_control x'))) b) = []) \<and>
      cx_runners x' = cx_runners x + 1 \<and> cx_managers x' = cx_managers x + 1)"
proof -
  let ?x = "x\<lparr>cx_memory := True, cx_service := True\<rparr>" and ?N = HE_QAT_NUM_ACTIVE_INSTANCES
  obtain hs where hs: "get_instances d ?N ?x = (Some hs, ?x\<lparr>cx_nextInstance := (cx_nextInstance x + ?N) mod n\<rparr>)"
    using next_instances [of ?x n "cx_nextInstance x" d ?N] assms(6-9) by auto
  have n: "HE_QAT_BUFFER_COUNT = 8" by (simp add: qat_consts)
  have "\<exists>x'. acquire_qat_devices d x = Some (HE_QAT_STATUS_SUCCESS, x') \<and>
      taken (rt_outstanding (ct_rt (cx_control x'))) = {} \<and> rb_elems (rt_he_qat_buffer (ct_rt (cx_control x'))) = [] \<and>
      (\<forall>b < 8. rb_elems (ob_buffer (rt_outstanding (ct_rt (cx_control x'))) b) = []) \<and>
      cx_runners x' = cx_runners x + 1 \<and> cx_managers x' = cx_managers x + 1"
    using assms(1-5) hs init_internal_ok init_outstanding_ok unfolding n
    by (simp add: acquire_qat_devices_def Let_def get_qat_context_state_def del: rb_elems_Nil)
  then show ?thesis using acquire_active by blast
qed

theorem second_acquisition_resets_witness:
  "\<exists>x'. acquire_qat_devices ref_driver (ref_context\<lparr>cx_control := ref_control\<lparr>ct_context := HE_QAT_STATUS_RUNNING\<rparr>,
      cx_numInstances := 3, cx_handles := Some\<rparr>) = Some (HE_QAT_STATUS_SUCCESS, x') \<and>
    taken (rt_outstanding (ct_rt (cx_control x'))) = {} \<and> cx_runners x' = 1"
  using second_acquisition_resets [of ref_driver "ref_context\<lparr>cx_control := ref_control\<lparr>ct_context := HE_QAT_STATUS_RUNNING\<rparr>,
      cx_numInstances := 3, cx_handles := Some\<rparr>" 3]
  by (auto simp: ref_driver_def ref_context_def get_qat_context_state_def)

text \<open>
  The first acquisition leaves everything ready: eight instances, handed out round-robin over
  those the driver has, empty queues, free buffers, one scheduler and one processing thread.
\<close>

theorem acquisition_ready:
  assumes "driver_ok d n" "qd_create_manager d" "qd_detach_manager d"
    and "get_qat_context_state x = HE_QAT_STATUS_INACTIVE" "cx_numInstances x = 0" "cx_nextInstance x = 0"
  shows "\<exists>x' cf. acquire_qat_devices d x = Some (HE_QAT_STATUS_SUCCESS, x') \<and>
    get_qat_context_state x' = HE_QAT_STATUS_ACTIVE \<and> devices_ready x' \<and>
    cx_runners x' = cx_runners x + 1 \<and> cx_managers x' = cx_managers x + 1 \<and> ct_config (cx_control x') = Some cf \<and>
    (\<forall>i < 8. ic_inst_handle (cf_inst_config cf i) = qd_get_instances d (min n 8) (i mod min n 8))"
proof -
  have e: "HE_QAT_NUM_ACTIVE_INSTANCES = 8" by (simp add: qat_consts)
  have "ct_context (cx_control x) \<noteq> HE_QAT_STATUS_ACTIVE" using assms(4) by (simp add: get_qat_context_state_def)
  from acquire_devices [OF assms(1-3) this assms(5,6)] show ?thesis unfolding used_instances_min e by blast
qed

theorem acquisition_ready_witness:
  "\<exists>x'. acquire_qat_devices ref_driver ref_context = Some (HE_QAT_STATUS_SUCCESS, x') \<and> devices_ready x'"
proof -
  have "driver_ok ref_driver 3" by (simp add: driver_ok_def ref_driver_def)
  from acquisition_ready [OF this, of ref_context] show ?thesis
    by (auto simp: ref_driver_def ref_context_def ref_control_def get_qat_context_state_def)
qed

text \<open>
  C33: the library's context. A name of a runtime that is not in the table throws instead of
  selecting the default, as the documentation has it. After an initialisation for the accelerator
  a second one reports a failure; whatever the threads do then, after a termination that returns
  the library does not use the accelerator and the context is neither active nor running.
\<close>

theorem context_life_cycle:
  "(choice \<notin> {''CPU'', ''cpu'', ''HYBRID'', ''hybrid'', ''DEFAULT'', ''default'', ''QAT'', ''qat''} \<longrightarrow>
      initializeContext True d choice x = Some (Inl OutOfRange, x\<lparr>ix_hasQAT := True\<rparr>)) \<and>
   (initializeContext True d ''QAT'' x = Some (Inr True, x1) \<longrightarrow>
      ix_isUsingQAT x1 \<and> initializeContext True d' ''QAT'' x1 = Some (Inr False, x1\<lparr>ix_hasQAT := True\<rparr>) \<and>
      (\<forall>q b x2. terminateContext True (x1\<lparr>ix_qat := q\<rparr>) = Some (b, x2) \<longrightarrow>
        b \<and> \<not> ix_isUsingQAT x2 \<and> \<not> isQATActive True x2 \<and> \<not> isQATRunning True x2))"
  by (intro conjI impI allI initializeContext_unknown) (auto dest: initialize_terminate)

text \<open>Initialise, start the instances as the scheduler does, and terminate.\<close>

theorem context_life_cycle_witness:
  "\<exists>x1 c' x2. initializeContext True ref_driver ''QAT'' \<lparr>ix_hasQAT = False, ix_isUsingQAT = False, ix_qat = ref_context\<rparr>
      = Some (Inr True, x1) \<and>
    start_instances ref_api (cx_control (ix_qat x1)) = Some c' \<and>
    terminateContext True (x1\<lparr>ix_qat := (ix_qat x1)\<lparr>cx_control := c'\<rparr>\<rparr>) = Some (True, x2) \<and> \<not> isQATActive True x2"
proof -
  let ?x = "\<lparr>ix_hasQAT = False, ix_isUsingQAT = False, ix_qat = ref_context\<rparr>"
  have d: "driver_ok ref_driver 3" "qd_create_manager ref_driver" "qd_detach_manager ref_driver"
    by (simp_all add: driver_ok_def ref_driver_def)
  have c: "ct_context (cx_control ref_context) \<noteq> HE_QAT_STATUS_ACTIVE" "cx_numInstances ref_context = 0"
    "cx_nextInstance ref_context = 0" "\<not> ct_halted (cx_control ref_context)"
    by (simp_all add: ref_context_def ref_control_def)
  obtain y where y: "acquire_qat_devices ref_driver ref_context = Some (HE_QAT_STATUS_SUCCESS, y)" "devices_ready y"
    "get_qat_context_state y = HE_QAT_STATUS_ACTIVE" "\<not> ct_halted (cx_control y)"
    using acquire_devices [OF d c(1-3)] c(4) by blast
  define x1 where "x1 = \<lparr>ix_hasQAT = True, ix_isUsingQAT = True, ix_qat = y\<rparr>"
  have x1: "initializeContext True ref_driver ''QAT'' ?x = Some (Inr True, x1)"
    using y(1) by (simp add: initializeContext_choices initializeQATContext_def x1_def)
  obtain cf where cf: "ct_config (cx_control y) = Some cf" "\<forall>i < cf_count cf. ic_active (cf_inst_config cf i) = 0"
    using y(2) by (auto simp: devices_ready_def Let_def)
  obtain c' where c': "start_instances ref_api (cx_control y) = Some c'" "\<not> ct_halted c'" "ct_context c' = ct_context (cx_control y)"
    using ref_start [OF cf y(4)] by blast
  obtain cf1 cf2 where s: "ct_config c' = Some cf1" "stop_instances (Some cf1) = Some (Some cf2)"
    using start_stop [OF c'(1) y(4) c'(2)] by blast
  let ?q = "(ix_qat x1)\<lparr>cx_control := c'\<rparr>"
  obtain b x2 where t: "terminateContext True (x1\<lparr>ix_qat := ?q\<rparr>) = Some (b, x2)"
    using s c'(3) y(3) by (auto simp: terminateContext_def release_qat_devices_def get_qat_context_state_def x1_def Let_def)
  from context_life_cycle [of "''GPU''" ref_driver ?x x1 ref_driver] x1 t
  have "b \<and> \<not> isQATActive True x2" by blast
  then show ?thesis using x1 c'(1) t by (auto simp: x1_def)
qed

end
