(* ===== verification/SystemProperties.thy ===== *)
theory SystemProperties
  imports QatService QatProperties ModExpProperties
begin

text \<open>
  The accelerator's runtime as a whole: no interleaving of clients, threads and callbacks meets
  undefined behaviour or loses, doubles or overtakes the answer of a request; the output a client
  finds is the accelerator's result for the operands it passed; and if the accelerator reports no
  error, every request is answered within a bounded number of steps and every client's release
  returns. The properties rest on \<open>QatInvariant\<close> and \<open>QatProgress\<close>.
\<close>

section \<open>A runtime with one request for the witnesses\<close>

definition ref_dev :: device where
  "ref_dev bs es ms = to_be (length ms) (be_val bs ^ be_val es mod be_val ms)"

definition ref_sys :: sys where
  "ref_sys = \<lparr>sy_control = ref_control\<lparr>ct_context := HE_QAT_STATUS_RUNNING, ct_config := Some (ref_qat_config\<lparr>cf_running := 1\<rparr>)\<rparr>,
    sy_index = 0, sy_batch = (\<lambda>_. []), sy_done = (\<lambda>_. 0), sy_args = (\<lambda>_. ([], [], [], 0))\<rparr>"

abbreviation ref_E :: qat_env where
  "ref_E \<equiv> ref_qenv (\<lambda>_. True)"

lemma ref_dev_ok: "device_ok ref_dev"
  by (simp add: device_ok_def ref_dev_def to_be_def)

lemma ref_sys_sel: "sy_rt ref_sys = ref_rt" "sy_batch ref_sys = (\<lambda>_. [])" "sy_done ref_sys = (\<lambda>_. 0)"
    "rt_outstanding ref_rt = ref_out" "rt_he_qat_buffer ref_rt = ref_ring" "rt_allocs ref_rt = 4" "running ref_sys"
    "tl_count (ct_runner (sy_control ref_sys)) = 0"
  by (simp_all add: ref_sys_def ref_control_def ref_rt_def running_def empty_list_def)

lemma ref_sys_init: "sys_init 4 ref_sys"
proof -
  have b: "rb_next_data_out (ob_buffer ref_out b) = rb_next_free_slot (ob_buffer ref_out b)" "rb_count (ob_buffer ref_out b) = 0" for b
    by (simp_all add: ref_out_def ref_ring_def)
  show ?thesis
    unfolding sys_init_def Let_def ref_sys_sel
    by (simp add: ref_out_ok b ref_ring_ok) (simp add: ref_sys_def ref_control_def ref_rt_def empty_list_def)
qed

lemma ref_acquired:
  obtains i s where "reach ref_dev ref_E 4 s" "i < HE_QAT_BUFFER_COUNT" "taken (sy_out s) = {i}" "running s"
    "sy_batch s = (\<lambda>_. [])" "sy_done s = (\<lambda>_. 0)" "rt_mem (sy_rt s) = rt_mem ref_rt" "rt_allocs (sy_rt s) = 4"
    "rb_count (ob_buffer (sy_out s) i) = 0" "tl_count (ct_runner (sy_control s)) = 0"
proof -
  have "(0 :: nat) \<in> {..< HE_QAT_BUFFER_COUNT}" by (simp add: qat_consts)
  then have "taken ref_out \<noteq> {..< HE_QAT_BUFFER_COUNT}" unfolding ref_out_ok(2) by blast
  then obtain v ob where a: "acquire_bnModExp_buffer (Some 0) ref_out = Some (v, ob)"
    using acquire_waits [OF ref_out_ok(1), of 0] by auto
  from acquire_ok [OF ref_out_ok(1) a] obtain i where i: "i < HE_QAT_BUFFER_COUNT" "taken ob = {i}" "ob_buffer ob = ob_buffer ref_out"
    using ref_out_ok(2) by auto
  let ?s = "with_rt (ref_rt\<lparr>rt_outstanding := ob\<rparr>) ref_sys"
  have e: "exec ref_dev ref_E (Acquire 0) ref_sys = Some (Inr ?s)" by (simp add: exec_acquire_def ref_sys_sel a)
  have r: "reach ref_dev ref_E 4 ?s" by (rule reach.act [OF reach.start [OF ref_sys_init] _ e]) simp
  have c: "rb_count (ob_buffer ref_out i) = 0" by (simp add: ref_out_def ref_ring_def)
  show thesis
    by (rule that [OF r i(1)]) (use i(2,3) c ref_sys_sel in \<open>simp_all add: running_def\<close>)
qed

lemma ref_submitted:
  obtains i s where "reach ref_dev ref_E 4 s" "i \<in> taken (sy_out s)" "sy_batch s i = [7]" "sy_done s = (\<lambda>_. 0)" "live s = {7}"
    "running s" "waits (sy_rt s) 7" "sy_args s 7 = ([0, 0, 0, 2], [0, 0, 0, 2], [0, 0, 0, 3], 0)"
    "tl_count (ct_runner (sy_control s)) = 0" "entry s i 0"
proof (rule ref_acquired)
  fix i s
  assume s: "reach ref_dev ref_E 4 s" "i < HE_QAT_BUFFER_COUNT" "taken (sy_out s) = {i}" "running s"
    "sy_batch s = (\<lambda>_. [])" "sy_done s = (\<lambda>_. 0)" "rt_mem (sy_rt s) = rt_mem ref_rt" "rt_allocs (sy_rt s) = 4"
    "rb_count (ob_buffer (sy_out s) i) = 0" "tl_count (ct_runner (sy_control s)) = 0"
  let ?E = ref_E and ?rt = "sy_rt s"
  have mem: "rt_mem ?rt 0 = Some [0, 0, 0, 0]" by (simp add: s(7) ref_rt_def)
  have op: "operand ?rt p 4 bs" if "operand ref_rt p 4 bs" for p bs
    using that by (simp add: operand_def s(7,8) ref_sys_sel)
  have bts: "bytes_at ?rt p 4 = bs" if "operand ref_rt p 4 bs" for p bs
    using that by (auto simp: operand_def bytes_at_def s(7))
  have 3: "operand ref_rt (Some 3) 4 [0, 0, 0, 3]" by (simp add: operand_def ref_rt_def)
  note o = op [OF ref_operands(3)] op [OF ref_operands(3)] op [OF 3] and b = bts [OF ref_operands(3)] bts [OF 3]
  have q: "allocs_ok ?E ?rt 6" by (simp add: allocs_ok_def ref_qenv_def)
  have al: "allowed ?E 4 (Submit i (Some 0) (Some 2) (Some 2) (Some 3) 32) s"
    using o q by (simp add: Let_def b s(3,5,6) entry_def mem qat_consts del: One_nat_def)
  have "submit_request (Some (rt_allocs ?rt + 3)) (ob_buffer (sy_out s) i) \<noteq> None"
    by (simp add: submit_request_None s(9) qat_consts)
  then obtain b' where b': "submit_request (Some (rt_allocs ?rt + 3)) (ob_buffer (sy_out s) i) = Some b'" by blast
  have len: "4 = (32 + 7) div (2 :: nat) ^ 3" by simp
  have nn: "Some 0 \<noteq> (None :: ptr)" by simp
  define s' where "s' = (with_rt ((with_request ?E 4 (Some 0) (rt_mt_ids ?rt) [0, 0, 0, 2] [0, 0, 0, 2] [0, 0, 0, 3] ?rt)
      \<lparr>rt_mt_ids := ull_inc (rt_mt_ids ?rt), rt_outstanding := on_buffer i (\<lambda>_. b') (sy_out s)\<rparr>) s)
    \<lparr>sy_batch := (sy_batch s)(i := sy_batch s i @ [7]), sy_args := (sy_args s)(7 := ([0, 0, 0, 2], [0, 0, 0, 2], [0, 0, 0, 3], 0))\<rparr>"
  have e: "exec ref_dev ?E (Submit i (Some 0) (Some 2) (Some 2) (Some 3) 32) s = Some (Inr s')"
    using bnModExp_MT_ok [OF q s(2) nn o len b'] by (simp add: exec_submit_def Let_def b s(8) s'_def del: One_nat_def)
  have r: "reach ref_dev ?E 4 s'" by (rule reach.act [OF s(1) al e])
  have en: "entry s' c j \<longleftrightarrow> c = i \<and> j = 0" for c j using s(2) by (auto simp: s'_def entry_def s(5,6))
  have bt: "sy_batch s' i = [7]" by (simp add: s'_def s(5))
  have "live s' = {7}" unfolding live_def en by (simp add: bt)
  moreover have "running s'" using s(4) by (simp add: s'_def running_def)
  moreover have "i \<in> taken (sy_out s')" using s(3) by (auto simp: s'_def taken_def on_buffer_def)
  moreover have "waits (sy_rt s') 7" by (simp add: s'_def waits_def with_request_def queued_task_def Let_def s(8))
  moreover have "sy_args s' 7 = ([0, 0, 0, 2], [0, 0, 0, 2], [0, 0, 0, 3], 0)" "sy_done s' = (\<lambda>_. 0)"
    "tl_count (ct_runner (sy_control s')) = 0" by (simp_all add: s'_def s(6,10))
  ultimately show thesis using that [OF r] bt en by blast
qed

text \<open>The threads answer this request.\<close>

lemma ref_answered:
  obtains i s where "reach ref_dev ref_E 4 s" "i \<in> taken (sy_out s)" "sy_batch s i = [7]" "sy_done s = (\<lambda>_. 0)" "live s = {7}"
    "running s" "answered (sy_rt s) 7" "sy_args s 7 = ([0, 0, 0, 2], [0, 0, 0, 2], [0, 0, 0, 3], 0)"
    "tl_count (ct_scheduler (sy_control s)) = 0"
proof (rule ref_submitted)
  fix i s
  assume s: "reach ref_dev ref_E 4 s" "i \<in> taken (sy_out s)" "sy_batch s i = [7]" "sy_done s = (\<lambda>_. 0)" "live s = {7}"
    "running s" "waits (sy_rt s) 7" "sy_args s 7 = ([0, 0, 0, 2], [0, 0, 0, 2], [0, 0, 0, 3], 0)"
  have I: "sys_inv ref_dev 4 s" using reach_inv [OF s(1) ref_dev_ok] by blast
  have nf: "no_failures s" using s(5,7) by (simp add: no_failures_def)
  obtain s' where s': "(work ref_dev ref_E)\<^sup>*\<^sup>* s s'" "load s' = 0" using work_ends [OF ref_dev_ok I s(6)] by blast
  from works [OF ref_dev_ok s'(1) I s(6)] nf have W: "sys_inv ref_dev 4 s'" "running s'" "same_clients s s'"
    "taken (sy_out s') = taken (sy_out s)" "no_failures s'" by auto
  note c = same_clientsD [OF W(3)]
  have "answered (sy_rt s') 7" by (rule idle_answered [OF W(1) s'(2) W(5)]) (simp add: c s(5))
  then show thesis
    by (intro that [OF work_reach [OF s'(1) s(1)]]) (use s s'(2) W c in \<open>simp_all add: load_def\<close>)
qed

section \<open>Safety\<close>

text \<open>
  C7: no interleaving meets undefined behaviour. In every state that clients which keep to the
  interface, the two threads and the accelerator's callbacks can reach, whatever the accelerator
  answers, no action dereferences a null or freed pointer or leaves a buffer, a client that submits
  its batch never waits for room, at most 96 requests are in flight and the buffer count is exact.
\<close>

theorem system_safe:
  assumes "reach dev E n0 s" "device_ok dev" "allowed E n0 a s"
  shows "(\<forall>e. exec dev E a s \<noteq> Some (Inl e)) \<and> length (ct_device (sy_control s)) \<le> 96 \<and>
    ob_busy_count (sy_out s) = card (taken (sy_out s)) \<and>
    (\<forall>b < 8. rb_count (ob_buffer (sy_out s) b) \<le> length (sy_batch s b) \<and> length (sy_batch s b) \<le> 1024) \<and>
    (\<forall>i r b e m nbits. a = Submit i r b e m nbits \<longrightarrow> exec dev E a s \<noteq> None)"
proof -
  note R = reach_inv [OF assms(1,2)]
  note inv = sys_invD [OF conjunct1 [OF R]]
  have "\<exists>s'. r = Inr s'" if "exec dev E a s = Some r" for r using exec_inv [OF assms(2) _ _ assms(3) that] R by blast
  moreover have "length (ct_device (sy_control s)) \<le> 96"
    using inv(6) by (simp add: in_flight_ok_def max_pending_def qat_consts)
  moreover have "rb_count (ob_buffer (sy_out s) b) \<le> length (sy_batch s b) \<and> length (sy_batch s b) \<le> 1024" if "b < 8" for b
    using room_left [OF conjunct1 [OF R], of b] slots_okD(1) [OF inv(8), of b] that by (simp add: qat_consts)
  moreover have "ob_busy_count (sy_out s) = card (taken (sy_out s))" using inv(1) by (simp add: out_inv_def)
  moreover have "exec dev E a s \<noteq> None" if "a = Submit i r b e m nbits" for i r b e m nbits
    using submit_enabled [OF conjunct1 [OF R] assms(3) [unfolded that], of dev] unfolding that .
  ultimately show ?thesis by blast
qed


theorem system_safe_witness:
  "\<exists>s i. reach ref_dev ref_E 4 s \<and> sy_batch s i = [7] \<and> (\<forall>e. exec ref_dev ref_E Pull s \<noteq> Some (Inl e)) \<and>
    length (ct_device (sy_control s)) \<le> 96"
proof (rule ref_submitted)
  fix i s
  assume s: "reach ref_dev ref_E 4 s" "sy_batch s i = [7]"
  then show ?thesis using system_safe [OF s(1) ref_dev_ok, of Pull] by auto
qed

text \<open>
  C8: no request is lost or doubled. In every reachable state, each request that a client has
  submitted, has not collected and that waits for an answer is in exactly one place, once: in the
  client's buffer, the scheduler's list, the internal buffer, the part of the processing thread's
  list that is still to be offered, or the accelerator. Nothing else is in these places.
\<close>

theorem nothing_lost:
  assumes "reach dev E n0 s" "device_ok dev"
  shows "None \<notin># places s \<and>
    (\<forall>a. count (places s) (Some a) = (if a \<in> live s \<and> waits (sy_rt s) a then 1 else 0))"
proof -
  have "conserved s" using reach_inv [OF assms] sys_invD(11) by blast
  then have c: "count (places s) p = (case p of None \<Rightarrow> 0 | Some a \<Rightarrow> if a \<in> live s \<and> waits (sy_rt s) a then 1 else 0)" for p
    by (simp add: conserved_def)
  show ?thesis using c [of None] by (simp add: c not_in_iff)
qed

theorem nothing_lost_witness:
  "\<exists>s. reach ref_dev ref_E 4 s \<and> count (places s) (Some 7) = 1 \<and> count (places s) (Some 8) = 0"
proof (rule ref_submitted)
  fix i s
  assume s: "reach ref_dev ref_E 4 s" "live s = {7}" "waits (sy_rt s) 7"
  then show ?thesis using nothing_lost [OF s(1) ref_dev_ok] by auto
qed

text \<open>
  C9: answers are not mixed up. A submission records the bytes of the operands the caller passes
  and the place for its output; when a request is answered, this place holds the accelerator's
  result for these operands, whatever other clients and requests did in between.
\<close>

theorem results_right:
  assumes "reach dev E n0 s" "device_ok dev"
  shows "(\<forall>i r b e m nbits s'. allowed E n0 (Submit i (Some r) b e m nbits) s \<and>
        exec dev E (Submit i (Some r) b e m nbits) s = Some (Inr s') \<longrightarrow>
      (let len = (nbits + 7) div 8; old = sy_rt s in sy_args s' (last (sy_batch s' i)) =
        (bytes_at old b len, bytes_at old e len, bytes_at old m len, r))) \<and>
    (\<forall>a \<in> live s. answered (sy_rt s) a \<longrightarrow> (case sy_args s a of (bs, es, ms, q) \<Rightarrow>
      \<exists>out. rt_mem (sy_rt s) q = Some out \<and> take (length ms) out = dev bs es ms))"
proof (intro conjI allI impI ballI)
  have I: "sys_inv dev n0 s" using reach_inv [OF assms] by blast
  fix i r b e m nbits s'
  assume h: "allowed E n0 (Submit i (Some r) b e m nbits) s \<and> exec dev E (Submit i (Some r) b e m nbits) s = Some (Inr s')"
  from submit_effect [OF I conjunct1 [OF h], of "Inr s'"] conjunct2 [OF h]
  have "submitted dev n0 i (let len = (nbits + 7) div 2 ^ 3; old = sy_rt s in
    (bytes_at old b len, bytes_at old e len, bytes_at old m len, r)) s s'" by (simp add: Let_def)
  from submittedD(1,3) [OF this] show "let len = (nbits + 7) div 8; old = sy_rt s in sy_args s' (last (sy_batch s' i)) =
      (bytes_at old b len, bytes_at old e len, bytes_at old m len, r)" by (simp add: Let_def)
next
  fix a assume "a \<in> live s" "answered (sy_rt s) a"
  then obtain c j where e: "entry s c j" "a = sy_batch s c ! j" by (auto simp: live_def)
  have "requests_ok dev n0 s" using reach_inv [OF assms] sys_invD(9) by blast
  then show "case sy_args s a of (bs, es, ms, q) \<Rightarrow>
      \<exists>out. rt_mem (sy_rt s) q = Some out \<and> take (length ms) out = dev bs es ms"
    by (rule request_of [OF _ e]) (use \<open>answered (sy_rt s) a\<close> in \<open>auto simp: answered_def\<close>)
qed

theorem results_right_witness:
  "\<exists>s. reach ref_dev ref_E 4 s \<and> answered (sy_rt s) 7 \<and>
    (\<exists>out. rt_mem (sy_rt s) 0 = Some out \<and> take 4 out = [0, 0, 0, 1])"
proof (rule ref_answered)
  fix i s
  assume s: "reach ref_dev ref_E 4 s" "live s = {7}" "answered (sy_rt s) 7"
    "sy_args s 7 = ([0, 0, 0, 2], [0, 0, 0, 2], [0, 0, 0, 3], 0)"
  have d: "ref_dev [0, 0, 0, 2] [0, 0, 0, 2] [0, 0, 0, 3] = [0, 0, 0, 1]"
    by (simp add: ref_dev_def be_val_def to_be_def upt_rec)
  have "7 \<in> live s" using s(2) by simp
  from bspec [OF conjunct2 [OF results_right [OF s(1) ref_dev_ok]] this] s(3,4)
  have "\<exists>out. rt_mem (sy_rt s) 0 = Some out \<and> take 4 out = [0, 0, 0, 1]" by (auto simp: d numeral_eq_Suc)
  then show ?thesis using s(1,3) by blast
qed

section \<open>Progress\<close>

text \<open>
  C10: the threads finish their work. If they run, no request has failed and the accelerator from
  now on accepts and answers what it is offered, the threads and the callbacks can take only a
  bounded number of effective steps, in any order, and when they can take no more, every request is
  answered and the release of every client returns.
\<close>

theorem all_answered:
  assumes "reach dev E n0 s" "device_ok dev" "running s" "no_failures s"
  shows "(\<forall>n s'. (work dev E ^^ n) s s' \<longrightarrow> n \<le> load s) \<and> (\<exists>s'. (work dev E)\<^sup>*\<^sup>* s s' \<and> (\<nexists>t. work dev E s' t)) \<and>
    (\<forall>s'. (work dev E)\<^sup>*\<^sup>* s s' \<and> (\<nexists>t. work dev E s' t) \<longrightarrow>
      same_clients s s' \<and> (\<forall>a \<in> live s. answered (sy_rt s') a) \<and>
      (\<forall>i \<in> taken (sy_out s). sy_done s i = 0 \<longrightarrow>
        (\<exists>rt. release_bnModExp_buffer i (length (sy_batch s i)) (sy_rt s') = Some (Inr (), rt))))"
proof (intro conjI allI impI ballI)
  have I: "sys_inv dev n0 s" using reach_inv [OF assms(1,2)] by blast
  show "n \<le> load s" if "(work dev E ^^ n) s s'" for n s' using work_bounded [OF assms(2) that I assms(3)] by simp
  have stop: "(\<nexists>t. work dev E s' t) \<longleftrightarrow> load s' = 0" if "(work dev E)\<^sup>*\<^sup>* s s'" for s'
    using works [OF assms(2) that I assms(3)] progress [OF assms(2), of n0 s' E] work_works [OF assms(2), of n0 s' E]
    by (fastforce simp: worked_def)
  show "\<exists>s'. (work dev E)\<^sup>*\<^sup>* s s' \<and> (\<nexists>t. work dev E s' t)" using work_ends [OF assms(2) I assms(3)] stop by blast
  fix s' assume w: "(work dev E)\<^sup>*\<^sup>* s s' \<and> (\<nexists>t. work dev E s' t)"
  then have W: "sys_inv dev n0 s'" "same_clients s s'" "taken (sy_out s') = taken (sy_out s)" "no_failures s'" "load s' = 0"
    using works [OF assms(2) _ I assms(3)] stop assms(4) by blast+
  show "same_clients s s'" by (rule W(2))
  have ans: "answered (sy_rt s') a" if "a \<in> live s" for a
    using idle_answered [OF W(1,5,4)] that same_clientsD(2) [OF W(2)] by simp
  then show "answered (sy_rt s') a" if "a \<in> live s" for a using that .
  show "\<exists>rt. release_bnModExp_buffer i (length (sy_batch s i)) (sy_rt s') = Some (Inr (), rt)"
    if i: "i \<in> taken (sy_out s)" "sy_done s i = 0" for i
  proof -
    have "answered (sy_rt s') (sy_batch s' i ! j)" if "entry s' i j" for j
      using that ans same_clientsD [OF W(2)] by (auto simp: live_def)
    moreover have "i \<in> taken (sy_out s')" "sy_done s' i = 0" using i W(3) same_clientsD(6) [OF W(2)] by simp_all
    ultimately obtain t where "release_bnModExp_buffer i (length (sy_batch s' i)) (sy_rt s') = Some (Inr (), sy_rt t)"
      using release_run [OF W(1), where i = i and E = E] by blast
    then show ?thesis using same_clientsD(5) [OF W(2)] by auto
  qed
qed

theorem all_answered_witness:
  "\<exists>s i. reach ref_dev ref_E 4 s \<and> sy_batch s i = [7] \<and> waits (sy_rt s) 7 \<and>
    (\<exists>s'. (work ref_dev ref_E)\<^sup>*\<^sup>* s s' \<and> answered (sy_rt s') 7 \<and>
      (\<exists>rt. release_bnModExp_buffer i 1 (sy_rt s') = Some (Inr (), rt)))"
proof (rule ref_submitted)
  fix i s
  assume s: "reach ref_dev ref_E 4 s" "i \<in> taken (sy_out s)" "sy_batch s i = [7]" "sy_done s = (\<lambda>_. 0)" "live s = {7}"
    "running s" "waits (sy_rt s) 7"
  have nf: "no_failures s" using s(5,7) by (simp add: no_failures_def)
  note A = all_answered [OF s(1) ref_dev_ok s(6) nf]
  then obtain s' where s': "(work ref_dev ref_E)\<^sup>*\<^sup>* s s'" "\<nexists>t. work ref_dev ref_E s' t" by blast
  with A have "\<forall>a \<in> live s. answered (sy_rt s') a"
    "\<exists>rt. release_bnModExp_buffer i (length (sy_batch s i)) (sy_rt s') = Some (Inr (), rt)" using s(2,4) by auto
  then show ?thesis using s s'(1) by (intro exI [of _ s] exI [of _ i]) auto
qed

text \<open>
  C12: the actions are the code's functions cut into critical sections. From every reachable state
  an iteration of the scheduler's loop is a pull and a forward, an iteration of the processing
  thread's loop is a read and offloads, and the release of an answered batch is collecting each of
  its requests and finishing; so the states between calls of the functions are reachable ones.
\<close>

theorem actions_compose:
  assumes "reach dev E n0 s" "device_ok dev"
  shows "(\<forall>c'. schedule_requests (sy_control s) = Some (c', True) \<and> tl_count (ct_scheduler (sy_control s)) = 0 \<longrightarrow>
      (\<exists>acts. set acts \<subseteq> {Pull, Forward} \<and> run dev E acts s = Some (Inr (s\<lparr>sy_control := c'\<rparr>)) \<and>
        reach dev E n0 (s\<lparr>sy_control := c'\<rparr>))) \<and>
    (\<forall>answers c'. process_requests answers (sy_control s) = Some (Inr c') \<and> tl_count (ct_runner (sy_control s)) = 0 \<and>
        \<not> ct_halted (sy_control s) \<and> ct_config (sy_control s) \<noteq> None \<longrightarrow>
      (\<exists>m s'. run dev E (Read # map (\<lambda>i. Offload (answers i)) [0 ..< m]) s = Some (Inr s') \<and> sy_control s' = c' \<and>
        same_clients s s' \<and> reach dev E n0 s')) \<and>
    (\<forall>i \<in> taken (sy_out s). sy_done s i = 0 \<and> (\<forall>j < length (sy_batch s i). answered (sy_rt s) (sy_batch s i ! j)) \<longrightarrow>
      (\<exists>s'. release_bnModExp_buffer i (length (sy_batch s i)) (sy_rt s) = Some (Inr (), sy_rt s') \<and>
        run dev E (replicate (length (sy_batch s i)) (Collect i) @ [Finish i]) s = Some (Inr s') \<and>
        taken (sy_out s') = taken (sy_out s) - {i} \<and> reach dev E n0 s'))"
proof (intro conjI allI impI ballI)
  fix c' assume h: "schedule_requests (sy_control s) = Some (c', True) \<and> tl_count (ct_scheduler (sy_control s)) = 0"
  obtain acts where a: "set acts \<subseteq> {Pull, Forward}" "run dev E acts s = Some (Inr (s\<lparr>sy_control := c'\<rparr>))"
    using schedule_run [OF conjunct1 [OF h] conjunct2 [OF h]] by blast
  have "\<forall>a \<in> set acts. \<forall>s. allowed E n0 a s" using a(1) by auto
  from run_reach [OF assms(1) a(2) this] show "\<exists>acts. set acts \<subseteq> {Pull, Forward} \<and>
      run dev E acts s = Some (Inr (s\<lparr>sy_control := c'\<rparr>)) \<and> reach dev E n0 (s\<lparr>sy_control := c'\<rparr>)" using a by blast
next
  fix answers c'
  assume h: "process_requests answers (sy_control s) = Some (Inr c') \<and> tl_count (ct_runner (sy_control s)) = 0 \<and>
    \<not> ct_halted (sy_control s) \<and> ct_config (sy_control s) \<noteq> None"
  then obtain cf where c: "process_requests answers (sy_control s) = Some (Inr c')" "tl_count (ct_runner (sy_control s)) = 0"
    "\<not> ct_halted (sy_control s)" "ct_config (sy_control s) = Some cf" by blast
  from process_run [OF c, of dev E] obtain m s' where r: "run dev E (Read # map (\<lambda>i. Offload (answers i)) [0 ..< m]) s = Some (Inr s')"
    "sy_control s' = c'" "same_clients s s'" by blast
  have "reach dev E n0 s'" by (rule run_reach [OF assms(1) r(1)]) auto
  then show "\<exists>m s'. run dev E (Read # map (\<lambda>i. Offload (answers i)) [0 ..< m]) s = Some (Inr s') \<and> sy_control s' = c' \<and>
    same_clients s s' \<and> reach dev E n0 s'" using r by blast
next
  fix i assume i: "i \<in> taken (sy_out s)"
    "sy_done s i = 0 \<and> (\<forall>j < length (sy_batch s i). answered (sy_rt s) (sy_batch s i ! j))"
  have "sys_inv dev n0 s" using reach_inv [OF assms] by blast
  from release_run [OF this i(1), of E] i(2) assms(1) show "\<exists>s'. release_bnModExp_buffer i (length (sy_batch s i)) (sy_rt s) = Some (Inr (), sy_rt s') \<and>
        run dev E (replicate (length (sy_batch s i)) (Collect i) @ [Finish i]) s = Some (Inr s') \<and>
        taken (sy_out s') = taken (sy_out s) - {i} \<and> reach dev E n0 s'" by (auto simp: entry_def)
qed

theorem actions_compose_witness:
  "\<exists>s i s'. reach ref_dev ref_E 4 s \<and> release_bnModExp_buffer i 1 (sy_rt s) = Some (Inr (), sy_rt s') \<and>
    run ref_dev ref_E [Collect i, Finish i] s = Some (Inr s') \<and> taken (sy_out s') = taken (sy_out s) - {i} \<and>
    reach ref_dev ref_E 4 s'"
proof (rule ref_answered)
  fix i s
  assume s: "reach ref_dev ref_E 4 s" "i \<in> taken (sy_out s)" "sy_batch s i = [7]" "sy_done s = (\<lambda>_. 0)"
    "answered (sy_rt s) 7"
  have b: "length (sy_batch s i) = 1" "replicate 1 (Collect i) @ [Finish i] = [Collect i, Finish i]"
    "\<forall>j < length (sy_batch s i). answered (sy_rt s) (sy_batch s i ! j)" using s(3,5) by simp_all
  note A = conjunct2 [OF conjunct2 [OF actions_compose [OF s(1) ref_dev_ok]]]
  show ?thesis using bspec [OF A s(2)] s(1,4) b(3) unfolding b(1,2) by auto
qed

section \<open>The service\<close>


text \<open>So the library's batches, sent to the runtime, return the powers of all their elements in order.\<close>

theorem runtime_batches:
  assumes "device_computes dev" "ipp_ok I" "0 < batch" "length base + batch \<le> 2 ^ 32"
    and "md \<noteq> []" "length expo = length base" "length md = length base"
    and "bn_nw I (hd md) = Suc w" "BITSIZE_WORD (BitSize I (hd md)) = int (Suc w)"
    and "\<And>k. k < length base \<Longrightarrow> qat_fits I (4 * Suc w) (base ! k) (expo ! k) (md ! k)"
    and "\<And>k. k < length base \<Longrightarrow> readable (qat_power I base expo md k)"
  shows "\<exists>ys. heQatBnModExp_MT_bytes I (device_service dev) base expo md batch = Inr ys \<and>
    map (bn_val I) ys = map (qat_power I base expo md) [0 ..< length base] \<and> (\<forall>y \<in> set ys. bn_norm I y)"
  by (rule qat.batches_powers [OF assms])

lemma ref_dev_computes: "device_computes ref_dev"
  unfolding device_computes_def
proof (intro conjI allI impI)
  fix bs es ms :: "u8 list"
  assume "length bs = length ms \<and> length es = length ms \<and> 0 < be_val ms"
  then have "be_val bs ^ be_val es mod be_val ms < be_val ms" by simp
  also have "be_val ms < 256 ^ length ms" using bytes_val_bound [of "rev ms"] by (simp add: be_val_def)
  finally show "be_val (ref_dev bs es ms) = be_val bs ^ be_val es mod be_val ms" by (simp add: ref_dev_def be_val_to_be)
qed (rule ref_dev_ok)


end
