(* ===== verification/Spec2Isabelle.thy ===== *)
theory Spec2Isabelle
  imports KeyProperties NumberProperties ModExpProperties SystemProperties
begin

text \<open>
  \<^bold>\<open>The program.\<close> The Paillier cryptosystem library of \<^verbatim>\<open>src/ipcl\<close> (C++) over Intel's IPP
  Cryptography library, and the runtime \<^verbatim>\<open>src/module/heqat\<close> (C) that sends its modular
  exponentiations to QuickAssist accelerators. A \<open>PublicKey\<close> encrypts a \<open>PlainText\<close> to a
  \<open>CipherText\<close>, whose operators add ciphertexts and multiply them by plaintexts; a \<open>PrivateKey\<close>
  decrypts. All of them work on \<open>BigNumber\<close>s and call \<open>modExp\<close>, which splits the work between
  the processor (\<open>ippModExp\<close>) and the accelerator (\<open>qatModExp\<close>). The latter packs operands into
  byte strings, acquires a client buffer, submits one request for each element and releases the
  buffer, which waits for the results. A scheduler thread moves requests from the client buffers
  to an internal buffer; a processing thread offers them to the accelerator, whose callbacks
  deliver the results.

  \<^bold>\<open>Parameters.\<close> Code that is not in the repository is a record of functions with a stated
  contract: the big-number functions of IPP (\<open>ipp\<close>, contract \<open>ipp_ok\<close>), its Montgomery and
  multi-buffer exponentiations (\<open>ipp_me\<close>, \<open>ipp_me_ok\<close>), its generators (\<open>env\<close>, \<open>rng_ok\<close>,
  \<open>prime_ok\<close>), the allocator and OpenSSL's conversions (\<open>qat_env\<close>), the accelerator's driver and
  interface (\<open>qat_driver\<close>, \<open>qat_api\<close>; its answers are arguments of the steps). \<open>IppReference\<close> and
  \<open>RefEnv\<close> give concrete functions that meet the contracts, and every property with a hypothesis
  has a witness over them. The prime numbers of the 200-bit witness are proved prime in
  \<open>RefPrimes\<close> by Proth's criterion, not assumed.

  \<^bold>\<open>Effects.\<close> A throw is a value of \<open>error\<close> in a sum type (\<open>'a result\<close>); behaviour that C or C++
  leaves undefined is \<open>Undefined\<close>, running out of fuel \<open>OutOfFuel\<close>, so a theorem whose conclusion is
  a result also says that none of these happens. State is passed explicitly: \<open>world\<close> holds the
  generator's state, the hybrid parameters and the threads left; \<open>runtime\<close> is the store of the
  accelerator's library, with an address for every allocation. An operation that waits on a
  condition variable or a semaphore is a partial function: \<open>None\<close> means that the condition does not
  hold yet. Word types are those of the code where wrap-around or signs matter.

  \<^bold>\<open>Theories and sources.\<close>
  \<^item> \<open>Prelude\<close>: results, programs, folds that may fail, the collections of simplification rules;
    \<open>NumTheory\<close>: the arithmetic of Paillier's scheme (orders modulo \<open>n\<^sup>2\<close>, the \<open>L\<close> function, Chinese
    remainders) on integers.
  \<^item> \<open>IppCrypto\<close>: the interface of IPP and its contract; \<open>BigNumber\<close>, \<open>BigNumberConv\<close>,
    \<open>BigNumberBytes\<close>: \<^verbatim>\<open>ipcl/bignum.cpp\<close>, \<^verbatim>\<open>bignum.h\<close> (arithmetic; bits, texts and archives; byte
    strings).
  \<^item> \<open>Util\<close>: \<^verbatim>\<open>utils/util.hpp\<close>; \<open>CpuInfo\<close>: \<^verbatim>\<open>utils/parse_cpuinfo.hpp\<close>, on any content of
    \<^verbatim>\<open>/proc/cpuinfo\<close>; \<open>Hybrid\<close>, \<open>ModExp\<close>, \<open>QatModExp\<close>: \<^verbatim>\<open>ipcl/mod_exp.cpp\<close> (ratio and
    mode; the exponentiations; the batches for the accelerator); \<open>RandomGen\<close>:
    \<^verbatim>\<open>ipcl/utils/common.cpp\<close>.
  \<^item> \<open>Texts\<close>: \<^verbatim>\<open>base_text.cpp\<close>, \<^verbatim>\<open>plaintext.cpp\<close>; \<open>CipherText\<close>, \<open>PubKey\<close>, \<open>PriKey\<close>, \<open>KeyGen\<close>:
    \<^verbatim>\<open>ciphertext.cpp\<close>, \<^verbatim>\<open>pub_key\<close>, \<^verbatim>\<open>pri_key\<close>, \<^verbatim>\<open>keygen.cpp\<close>.
  \<^item> \<open>RequestBuffer\<close>, \<open>OutstandingBuffers\<close>, \<open>QatControl\<close>: \<^verbatim>\<open>heqat/ctrl.c\<close> and the buffers of
    \<^verbatim>\<open>bnops.c\<close>; \<open>QatRequests\<close>: \<^verbatim>\<open>bnops.c\<close>, \<^verbatim>\<open>cb.c\<close>; \<open>QatContext\<close>: \<^verbatim>\<open>context.c\<close> and
    \<^verbatim>\<open>ipcl/utils/context.cpp\<close>; \<open>HeqatMisc\<close>: \<^verbatim>\<open>heqat/misc\<close> and the padding of
    \<^verbatim>\<open>heqat/common/utils.c\<close>, helpers for users of the runtime.
  \<^item> \<open>QatSystem\<close>: the runtime as a whole. An action is a critical section of a client (acquire,
    submit, collect one result, finish), of the scheduler (\<open>Pull\<close>, \<open>Forward\<close>), of the processing
    thread (\<open>Read\<close>, \<open>Offload\<close>) or an answer of the accelerator (\<open>Respond\<close>, in any order and with any
    status); \<open>exec\<close> runs the definitions of the theories before on it, \<open>reach\<close> is what clients that
    keep to the interface (\<open>allowed\<close>) can reach. \<open>QatInvariant\<close>: what every action preserves
    (\<open>sys_inv\<close>). \<open>QatProgress\<close>: the \<open>load\<close>, which bounds the steps the threads still have, and that
    the functions of the code are runs of the actions. \<open>QatService\<close>: a client that submits a slice
    while everything else goes on (\<open>client_run\<close>), and the runtime as the \<open>batch_service\<close> that \<open>QatModExp\<close>
    takes as a parameter. A callback may come between an offload and the
    increment of the request counter in the code; only the thread that increments it reads it, so one
    action does both.
  \<^item> The properties: this theory (encryption, decryption and the homomorphic operators, and their type),
    \<open>KeyProperties\<close>, \<open>NumberProperties\<close>, \<open>ModExpProperties\<close>, \<open>QatProperties\<close>,
    \<open>SystemProperties\<close>.

  \<^bold>\<open>Interfaces.\<close> Where a part relies on another through a contract, the contract is a locale: \<open>bn_arith\<close>
  (integer arithmetic on numbers), \<open>random_source\<close> (bounded draws), \<open>modexp_service\<close> (powers of
  vectors, interpreted on the single-buffer, the multi-buffer, the processor's and the public entry
  points), \<open>additive_scheme\<close> (the homomorphic operators), \<open>bounded_fifo\<close> (a request buffer as a queue)
  and \<open>power_server\<close> (an accelerator for the library's batches, interpreted on the runtime).
  Each is interpreted on the model's own definitions in the theory that provides them, and
  the properties rest on the interpreted facts.

  \<^bold>\<open>Fuel.\<close> The loops that draw numbers until one is suitable (\<open>djn_sample\<close>, \<open>prime_loop\<close>,
  \<open>normal_loop\<close>, \<open>djn_loop\<close>) depend on the generator, so they take fuel. Properties of their results
  hold for every fuel; that they return is stated for the generators that deliver a suitable number,
  with the rounds it takes as the fuel. All other loops are structural or have a measure.

  \<^bold>\<open>Not modelled.\<close> Signalling of condition variables and the order of wake-ups (a wait is its
  condition); the branches \<^verbatim>\<open>IPCL_USE_QAT_LITE\<close>, \<^verbatim>\<open>HE_QAT_SYNC_MODE\<close> and \<^verbatim>\<open>HE_QAT_PERF\<close>, off by
  default (the first calls \<^verbatim>\<open>HE_QAT_bnModExp_lite\<close>, which is defined nowhere in the repository);
  OpenMP's threads, whose loops have independent iterations and run in order here; the
  library cereal, whose archives are the values written; printing; the arithmetic of
  \<^verbatim>\<open>heqat/misc/bignum.cpp\<close>, which repeats that of \<^verbatim>\<open>ipcl/bignum.cpp\<close>; the test data and the printing
  of \<^verbatim>\<open>heqat/common/utils.c\<close>; tests, samples and benchmarks. That numbers of a generator are random
  is not a statement of this development: security is out of its scope.
\<close>

section \<open>Encryption and decryption\<close>

text \<open>
  With any private key of the modulus, a ciphertext made with obfuscation decrypts to the
  plaintext modulo \<open>n\<close>, if the numbers drawn are units.
\<close>

lemma secure_decrypts:
  assumes "env_ok E" "pk_inv E pk" "\<not> pk_testv pk" "text_inv pt"
    and "sk_inv E sk p q" "bn_val E (pk_n pk) = p * q" "encrypt E pk pt True w = (Inr ct, w')"
  shows "\<exists>xs. length xs = length (m_texts pt) \<and> (\<forall>x \<in> set xs. draw_range E pk x) \<and>
    ((\<forall>x \<in> set xs. pk_enable_DJN pk \<or> coprime x (bn_val E (pk_n pk))) \<longrightarrow>
      (\<forall>crt. \<exists>pt'. decrypt E (enableCRT crt sk) ct w' = (Inr pt', w') \<and> text_inv pt' \<and>
        text_vals E pt' = map (\<lambda>m. m mod bn_val E (pk_n pk)) (text_vals E pt)))"
proof -
  from encrypt_secure_enc [OF assms(1,2,4,3,7)] obtain xs where
    xs: "m_pk ct = PublicKey_copy E pk" "length xs = length (m_texts pt)" "\<forall>x \<in> set xs. draw_range E pk x"
    "(\<forall>x \<in> set xs. obf_unit E pk x) \<Longrightarrow> ct_enc E ct (text_vals E pt)" by blast
  have n: "ct_n E ct = p * q" using assms(6) by (simp add: ct_n_def xs(1))
  have ne: "text_vals E pt \<noteq> []"
    using encrypt_secure_run [OF assms(7)] text_vals_ne [OF assms(4)] assms(1)
    by (metis cpu_ok_simps(3) env_ok_simps(1))
  have "\<exists>pt'. decrypt E (enableCRT crt sk) ct w' = (Inr pt', w') \<and> text_inv pt' \<and>
      text_vals E pt' = map (\<lambda>m. m mod bn_val E (pk_n pk)) (text_vals E pt)"
    if "\<forall>x \<in> set xs. obf_unit E pk x" for crt
    using decrypt_ok [OF assms(1) _ xs(4) [OF that] ne n, of "enableCRT crt sk" w'] assms(5)
    unfolding assms(6) by simp
  then show ?thesis using xs(2,3) unfolding obf_unit_def by blast
qed



lemma plain_decrypts:
  assumes "env_ok E" "pk_inv E pk" "text_inv pt" "0 < m_size pt"
    and "sk_inv E sk p q" "bn_val E (pk_n pk) = p * q"
  shows "\<exists>ct pt'. encrypt E pk pt False w = (Inr ct, w) \<and> decrypt E sk ct w = (Inr pt', w) \<and>
    text_inv pt' \<and> text_vals E pt' = map (\<lambda>m. m mod (p * q)) (text_vals E pt)"
proof -
  obtain ct where ct: "encrypt E pk pt False w = (Inr ct, w)" "ct_enc E ct (text_vals E pt)"
    "m_pk ct = PublicKey_copy E pk"
    by (rule encrypt_plain_enc [OF assms(1-4)])
  have "text_vals E pt \<noteq> []" by (rule text_vals_ne [OF assms(3,4)])
  then show ?thesis
    using decrypt_ok [OF assms(1,5) ct(2), of w] assms(6) ct by (simp add: ct_n_def)
qed

text \<open>
  C2: without obfuscation, decryption gives the plaintext modulo \<open>n\<close> for every valid key.
\<close>

theorem decrypt_encrypt_plain:
  assumes "env_ok E" "pk_inv E pk" "text_inv pt" "0 < m_size pt"
    and "sk_inv E sk p q" "bn_val E (pk_n pk) = p * q"
  shows "\<exists>ct pt'. encrypt E pk pt False w = (Inr ct, w) \<and> decrypt E sk ct w = (Inr pt', w) \<and>
    text_inv pt' \<and> text_vals E pt' = map (\<lambda>m. m mod (p * q)) (text_vals E pt)"
  by (rule plain_decrypts [OF assms])

theorem decrypt_encrypt_plain_witness:
  "\<exists>ct pt'. encrypt (ref_env False True) ref_pk ref_pt False (ref_world []) = (Inr ct, ref_world []) \<and>
    decrypt (ref_env False True) ref_sk ct (ref_world []) = (Inr pt', ref_world []) \<and>
    text_vals (ref_env False True) pt' = [5, 10]"
  using decrypt_encrypt_plain [OF ref_env_ok ref_pk_ok(1) ref_pt_ok(1) _ ref_sk_ok, of "ref_world []"]
  by (auto simp: ref_pk_ok ref_pt_ok)



section \<open>Computing with ciphertexts\<close>

text \<open>
  C4: the sum of two ciphertexts under one key decrypts to the sums modulo \<open>n\<close>; a second
  operand of one element is added to every element.
\<close>

theorem decrypt_sum:
  assumes "env_ok E" "sk_inv E sk p q" "ct_enc E a ms" "ct_enc E b ms'" "ms \<noteq> []"
    and "ct_n E a = p * q" "ct_n E b = p * q" "length ms' = length ms \<or> length ms' = 1"
  shows "\<exists>c pt. CT_plus_CT E a b = Inr c \<and> decrypt E sk c w = (Inr pt, w) \<and>
    text_vals E pt = map (\<lambda>m. m mod (p * q)) (map2 (+) ms (stretch (length ms) ms'))"
proof -
  have i: "ipp_ok E" and n: "ct_n E a = ct_n E b" using assms(1,6,7) by simp_all
  obtain c where c: "CT_plus_CT E a b = Inr c" "ct_enc E c (map2 (+) ms (stretch (length ms) ms'))"
    "m_pk c = PublicKey_copy E (m_pk a)"
    by (rule CT_plus_CT_enc [OF i assms(3,4) n assms(8)])
  have "ct_n E c = p * q" using c(3) assms(6) by (simp add: ct_n_def)
  from decrypt_ok [OF assms(1,2) c(2) map2_stretch_ne [OF assms(8,5)] this, of w] c(1)
  show ?thesis by blast
qed

theorem decrypt_sum_witness:
  "\<exists>c pt. CT_plus_CT (ref_env False True) ref_ct ref_ct = Inr c \<and>
    decrypt (ref_env False True) ref_sk c (ref_world []) = (Inr pt, ref_world []) \<and>
    text_vals (ref_env False True) pt = [10, 20]"
  using decrypt_sum [OF ref_env_ok ref_sk_ok ref_ct_ok(2) ref_ct_ok(2), of "ref_world []"]
  by (simp add: ref_ct_ok(3) stretch_def)

text \<open>
  C5: the product of a ciphertext and a plaintext whose elements are at most \<open>n\<^sup>2\<close> decrypts to
  the products modulo \<open>n\<close>.
\<close>

theorem decrypt_product:
  assumes "env_ok E" "sk_inv E sk p q" "ct_enc E a ms" "ms \<noteq> []" "ct_n E a = p * q" "text_inv b"
    and "length (text_vals E b) = length ms \<or> length (text_vals E b) = 1"
    and "\<forall>x \<in> set (text_vals E b). 0 \<le> x \<and> x \<le> (p * q)\<^sup>2"
  shows "\<exists>c pt. CT_times_PT E a b w = (Inr c, w) \<and> decrypt E sk c w = (Inr pt, w) \<and>
    text_vals E pt = map (\<lambda>m. m mod (p * q)) (map2 (*) ms (stretch (length ms) (text_vals E b)))"
proof -
  obtain c where c: "CT_times_PT E a b w = (Inr c, w)"
    "ct_enc E c (map2 (*) ms (stretch (length ms) (text_vals E b)))" "m_pk c = PublicKey_copy E (m_pk a)"
    by (rule CT_times_PT_enc [OF assms(1,3,6,4,7)]) (use assms(5,8) in simp)
  have "ct_n E c = p * q" using c(3) assms(5) by (simp add: ct_n_def)
  from decrypt_ok [OF assms(1,2) c(2) map2_stretch_ne [OF assms(7,4)] this, of w] c(1)
  show ?thesis by blast
qed

theorem decrypt_product_witness:
  "\<exists>c pt. CT_times_PT (ref_env False True) ref_ct ref_pt (ref_world []) = (Inr c, ref_world []) \<and>
    decrypt (ref_env False True) ref_sk c (ref_world []) = (Inr pt, ref_world []) \<and>
    text_vals (ref_env False True) pt = [25, 30]"
  using decrypt_product [OF ref_env_ok ref_sk_ok ref_ct_ok(2) _ _ ref_pt_ok(1), of "ref_world []"]
  by (simp add: ref_ct_ok(3) ref_pt_ok(2) stretch_def)

section \<open>Well-typed ciphertexts\<close>

text \<open>
  A ciphertext as any caller may build it, not only as encryption makes it: elements in the range
  of the key's group, and as many as its size member says.
\<close>

definition ct_typed :: "('b, 'z) ipp_scheme \<Rightarrow> 'b ciphertext \<Rightarrow> bool" where
  "ct_typed I ct \<longleftrightarrow> text_inv ct \<and> m_texts ct \<noteq> [] \<and> pk_core I (m_pk ct) \<and>
    (\<forall>v \<in> set (text_vals I ct). 0 \<le> v \<and> v < (ct_n I ct)\<^sup>2)"

text \<open>The result of an operation: a ciphertext under the same key, or an exception of the library.\<close>

definition typed_or_thrown :: "('b, 'z) ipp_scheme \<Rightarrow> 'b ciphertext \<Rightarrow> 'b ciphertext result \<Rightarrow> bool" where
  "typed_or_thrown I a r \<longleftrightarrow> (case r of
      Inl e \<Rightarrow> \<exists>msg. e = RuntimeError msg
    | Inr c \<Rightarrow> ct_typed I c \<and> ct_n I c = ct_n I a \<and> length (m_texts c) = length (m_texts a))"

lemma typed_keyI:
  assumes "ct_typed I a" "text_inv c" "m_pk c = PublicKey_copy I (m_pk a)" "length (m_texts c) = length (m_texts a)"
    and "\<forall>v \<in> set (text_vals I c). 0 \<le> v \<and> v < (ct_n I a)\<^sup>2"
  shows "typed_or_thrown I a (Inr c)"
  using assms by (auto simp: typed_or_thrown_def ct_typed_def ct_n_def pk_core_def)

lemma errorCheck_typed: "(b \<Longrightarrow> typed_or_thrown I a r) \<Longrightarrow> typed_or_thrown I a (bindR (errorCheck b msg) (\<lambda>_. r))"
  by (cases b) (simp_all add: typed_or_thrown_def)

lemma map2_range:
  assumes "length ys = length xs" "\<And>x y. x \<in> set xs \<Longrightarrow> y \<in> set ys \<Longrightarrow> P (f x y)"
  shows "\<forall>v \<in> set (map2 f xs ys). P v"
  using assms by (auto dest: set_zip_leftD set_zip_rightD)

lemma plus_typed:
  assumes "ipp_ok I" "ct_typed I a" "ct_typed I b"
  shows "typed_or_thrown I a (CT_plus_CT I a b)"
proof (cases "(m_size a = m_size b \<or> m_size b = 1) \<and> bn_eq I (pk_n (m_pk a)) (pk_n (m_pk b))")
  case True
  have k: "pk_core I (m_pk a)" "pk_core I (m_pk b)" and t: "text_inv a" "text_inv b" using assms(2,3) by (simp_all add: ct_typed_def)
  have n: "bn_val I (pk_n (m_pk a)) = bn_val I (pk_n (m_pk b))"
    using True bn_eq_val [OF assms(1)] k by (simp add: pk_core_def)
  have l: "length (m_texts b) = length (m_texts a) \<or> length (m_texts b) = 1"
    using True text_inv_size [OF t(2)] text_inv_eq [OF t] by auto
  from CT_plus_CT_vals [OF assms(1) t k n l] obtain c where c: "CT_plus_CT I a b = Inr c" "text_inv c"
    "m_pk c = PublicKey_copy I (m_pk a)" "text_vals I c = map2 (\<lambda>x y. x * y mod (bn_val I (pk_n (m_pk a)))\<^sup>2) (text_vals I a)
       (stretch (length (m_texts a)) (text_vals I b))" by blast
  have len: "length (stretch (length (m_texts a)) (text_vals I b)) = length (text_vals I a)" using l by (simp add: stretch_length)
  then have "length (m_texts c) = length (m_texts a)" using arg_cong [OF c(4), of length] by simp
  moreover have "\<forall>v \<in> set (text_vals I c). 0 \<le> v \<and> v < (ct_n I a)\<^sup>2"
    unfolding c(4) by (rule map2_range [OF len]) (use square_pos [OF k(1)] in \<open>simp add: ct_n_def\<close>)
  ultimately show ?thesis unfolding c(1) by (intro typed_keyI [OF assms(2) c(2,3)])
next
  case False
  then show ?thesis by (auto simp: CT_plus_CT_def getSize_def Let_def errorCheck_def typed_or_thrown_def bindR_def)
qed

lemma times_typed:
  assumes "env_ok E" "ct_typed E a" "text_inv p" "\<forall>x \<in> set (text_vals E p). 0 \<le> x \<and> x \<le> (ct_n E a)\<^sup>2"
  shows "\<exists>r. CT_times_PT E a p w = (r, w) \<and> typed_or_thrown E a r"
proof (cases "m_size a = m_size p \<or> m_size p = 1")
  case True
  have k: "pk_core E (m_pk a)" and t: "text_inv a" "m_texts a \<noteq> []" using assms(2) by (simp_all add: ct_typed_def)
  have l: "length (m_texts p) = length (m_texts a) \<or> length (m_texts p) = 1"
    using True text_inv_size [OF assms(3)] text_inv_eq [OF t(1) assms(3)] by auto
  have r: "\<forall>x \<in> set (text_vals E a). 0 \<le> x \<and> x < (bn_val E (pk_n (m_pk a)))\<^sup>2"
    using assms(2) by (simp add: ct_typed_def ct_n_def)
  from CT_times_PT_vals [OF assms(1) t(1) assms(3) k t(2) l r, of w] assms(4) obtain c where c: "CT_times_PT E a p w = (Inr c, w)"
    "text_inv c" "m_pk c = PublicKey_copy E (m_pk a)" "text_vals E c = map2 (\<lambda>x y. mpow x y ((bn_val E (pk_n (m_pk a)))\<^sup>2)) (text_vals E a)
       (stretch (length (m_texts a)) (text_vals E p))" by (auto simp: ct_n_def)
  have len: "length (stretch (length (m_texts a)) (text_vals E p)) = length (text_vals E a)" using l by (simp add: stretch_length)
  then have "length (m_texts c) = length (m_texts a)" using arg_cong [OF c(4), of length] by simp
  moreover have "\<forall>v \<in> set (text_vals E c). 0 \<le> v \<and> v < (ct_n E a)\<^sup>2"
    unfolding c(4) by (rule map2_range [OF len]) (use square_pos [OF k] in \<open>simp add: ct_n_def mpow_def\<close>)
  ultimately show ?thesis using c(1) typed_keyI [OF assms(2) c(2,3)] by blast
next
  case False
  then show ?thesis by (auto simp: CT_times_PT_def getSize_def Let_def typed_or_thrown_def)
qed

lemma rotate_typed:
  assumes "ipp_ok I" "ct_typed I a" "unat (m_size a) < 2 ^ 31"
  shows "typed_or_thrown I a (CipherText_rotate I shift a)"
proof -
  have t: "text_inv a" "m_texts a \<noteq> []" "\<forall>v \<in> set (text_vals I a). 0 \<le> v \<and> v < (ct_n I a)\<^sup>2" using assms(2) by (simp_all add: ct_typed_def)
  have copy: "typed_or_thrown I a (Inr (CipherText_bns I (m_pk a) (m_texts a)))"
    by (rule typed_keyI [OF assms(2)])
      (use t text_length [OF t(1)] in \<open>simp_all add: CipherText_bns_inv CipherText_bns_vals [OF assms(1)] text_vals_def copy_val [OF assms(1)]\<close>)
  consider "m_size a = 1" | "m_size a \<noteq> 1" "sint shift < 0" | "m_size a \<noteq> 1" "0 < sint shift" "sint shift < int (unat (m_size a))"
    | "sint shift = 0 \<or> int (unat (m_size a)) \<le> sint shift" by linarith
  then show ?thesis
  proof cases
    case 1
    then show ?thesis by (simp add: CipherText_rotate_def typed_or_thrown_def)
  next
    case 2
    have "m_size a < 2 ^ 63" using assms(3) by (simp add: word_less_nat_alt)
    then show ?thesis using CipherText_rotate_neg [OF 2(1) _ 2(2), of I] by (simp add: typed_or_thrown_def)
  next
    case 3
    have "unat (m_size a) \<noteq> 0" using t(1,2) by (simp add: text_inv_def)
    moreover have "unat (m_size a) \<noteq> 1" using 3(1) by (metis unsigned_1 unsigned_word_eqI)
    ultimately have "1 < unat (m_size a)" by linarith
    from CipherText_rotate_pos [OF assms(1) t(1) this assms(3) 3(2,3)] obtain c where c: "CipherText_rotate I shift a = Inr c"
      "text_inv c" "m_pk c = PublicKey_copy I (m_pk a)"
      "text_vals I c = rotate (unat (m_size a) - nat (sint shift)) (text_vals I a)" by blast
    have "length (m_texts c) = length (m_texts a)" using arg_cong [OF c(4), of length] by simp
    then show ?thesis unfolding c(1) by (intro typed_keyI [OF assms(2) c(2,3)]) (use t(3) c(4) in simp_all)
  next
    case 4
    have "shift = 0" if "sint shift = 0" using that by (metis signed_word_eqI signed_0)
    moreover have "int_to_size shift = m_size a" if le: "int_to_size shift \<le> m_size a" and ge: "int (unat (m_size a)) \<le> sint shift"
    proof (rule order_antisym [OF le])
      have "unat (int_to_size shift) = nat (sint shift)" using order_trans [OF of_nat_0_le_iff ge] by (rule unat_int_to_size)
      then show "m_size a \<le> int_to_size shift" using nat_mono [OF ge] by (simp only: word_le_nat_alt nat_int)
    qed
    ultimately show ?thesis
      unfolding CipherText_rotate_def by (intro errorCheck_typed) (use 4 copy in \<open>auto simp: not_less\<close>)
  qed
qed

text \<open>
  C6: the operators keep the type of ciphertexts. For ciphertexts with elements in the range of
  their key's group, however they were made, and plaintexts in the range of the multiplication,
  addition, multiplication and rotation return a ciphertext of the same size under the same key with
  elements in range, or throw an exception of the library; they never reach an undefined access.
\<close>

theorem operators_typed:
  assumes "env_ok E" "ct_typed E a" "ct_typed E b"
    and "text_inv p" "\<forall>x \<in> set (text_vals E p). 0 \<le> x \<and> x \<le> (ct_n E a)\<^sup>2" "unat (m_size a) < 2 ^ 31"
  shows "typed_or_thrown E a (CT_plus_CT E a b) \<and> typed_or_thrown E a (fst (CT_times_PT E a p w)) \<and>
    typed_or_thrown E a (CipherText_rotate E shift a)"
proof -
  have i: "ipp_ok E" using assms(1) by simp
  obtain r where "CT_times_PT E a p w = (r, w)" "typed_or_thrown E a r" using times_typed [OF assms(1,2,4,5)] by blast
  then show ?thesis using plus_typed [OF i assms(2,3)] rotate_typed [OF i assms(2,6)] by simp
qed

theorem operators_typed_witness:
  "typed_or_thrown (ref_env False True) ref_ct (CT_plus_CT (ref_env False True) ref_ct ref_ct) \<and>
   typed_or_thrown (ref_env False True) ref_ct (CipherText_rotate (ref_env False True) 1 ref_ct)"
proof -
  note c = ct_encD [OF ref_ct_ok(2)]
  have t: "ct_typed (ref_env False True) ref_ct" using c(1,3,4,6) by (auto simp: ct_typed_def)
  have "unat (m_size ref_ct) < 2 ^ 31" using c(1,4) by (simp add: text_inv_def)
  from operators_typed [OF ref_env_ok t t ref_pt_ok(1) _ this] show ?thesis by (simp add: ref_pt_ok(2) ref_ct_ok(3))
qed

end
